(* ===== verification/Prelude.thy ===== *)
theory Prelude
  imports Complex_Main "HOL-Library.Word"
begin

text \<open>
  What the components of the smokeng model share: names for the machine types of the Go
  source, results as sums, Go's truncating division, the few string operations of Go's
  standard library the source uses, and general list lemmas. Two theorem collections are
  declared here: \<open>result_simps\<close> (reasoning about the result type) and \<open>invariants\<close> (facts of the
  form \<open>every operation keeps the invariant\<close>).
\<close>

named_theorems result_simps "case analysis of results"
named_theorems invariants "operations that keep an invariant"

section \<open>Machine types\<close>

type_synonym u8 = "8 word"
type_synonym u16 = "16 word"
type_synonym u32 = "32 word"
type_synonym u64 = "64 word"
type_synonym i32 = "32 word" \<comment> \<open>read with \<open>sint\<close>\<close>
type_synonym i64 = "64 word" \<comment> \<open>read with \<open>sint\<close>\<close>

text \<open>\<open>real (unat w)\<close> is the value of an unsigned word as a float; it is kept in that form.\<close>

declare of_nat_unat [simp del]

lemma unat_ucast_mod: "unat (ucast (w :: 'a::len word) :: 'b::len word) = unat w mod 2 ^ LENGTH('b)"
  by (simp add: unsigned_ucast_eq take_bit_eq_mod)

text \<open>Go's integer division and remainder truncate towards zero.\<close>

definition go_div :: "int \<Rightarrow> int \<Rightarrow> int" where
  "go_div a b = sgn a * sgn b * (\<bar>a\<bar> div \<bar>b\<bar>)"

definition go_mod :: "int \<Rightarrow> int \<Rightarrow> int" where
  "go_mod a b = a - b * go_div a b"

lemma go_div_nonneg: "0 \<le> a \<Longrightarrow> 0 < b \<Longrightarrow> go_div a b = a div b"
  by (cases "a = 0") (auto simp: go_div_def)

lemma go_mod_nonneg: "0 \<le> a \<Longrightarrow> 0 < b \<Longrightarrow> go_mod a b = a mod b"
  by (simp add: go_mod_def go_div_nonneg minus_mult_div_eq_mod)

text \<open>
  A \<open>float64\<close>: a finite number, which is taken as an exact real (rounding is not modelled),
  or one of the values that are not numbers of that kind. Comparisons with \<open>NaN\<close> are false.
\<close>

datatype f64 = Fin real | PosInf | NegInf | NaN

fun f64_less :: "f64 \<Rightarrow> f64 \<Rightarrow> bool" where
  "f64_less (Fin a) (Fin b) \<longleftrightarrow> a < b"
| "f64_less NegInf (Fin b) \<longleftrightarrow> True"
| "f64_less NegInf PosInf \<longleftrightarrow> True"
| "f64_less (Fin a) PosInf \<longleftrightarrow> True"
| "f64_less _ _ \<longleftrightarrow> False"

fun f64_finite :: "f64 \<Rightarrow> bool" where
  "f64_finite (Fin _) \<longleftrightarrow> True"
| "f64_finite _ \<longleftrightarrow> False"

section \<open>Results\<close>

text \<open>
  A Go function that returns \<open>(T, error)\<close> is a function into \<open>'e + 'a\<close>: \<open>Inl\<close> the error,
  \<open>Inr\<close> the value. \<open>rbind\<close> is the \<open>if err != nil { return err }\<close> of the source.
\<close>

fun rbind :: "'e + 'a \<Rightarrow> ('a \<Rightarrow> 'e + 'b) \<Rightarrow> 'e + 'b" where
  "rbind (Inl e) f = Inl e"
| "rbind (Inr x) f = f x"

lemma rbind_Inr_iff [result_simps]: "rbind m f = Inr y \<longleftrightarrow> (\<exists>x. m = Inr x \<and> f x = Inr y)"
  by (cases m) auto

lemma rbind_Inl_iff [result_simps]:
  "rbind m f = Inl e \<longleftrightarrow> m = Inl e \<or> (\<exists>x. m = Inr x \<and> f x = Inl e)"
  by (cases m) auto

lemma rbind_cong [fundef_cong]:
  "m = m' \<Longrightarrow> (\<And>x. m' = Inr x \<Longrightarrow> f x = f' x) \<Longrightarrow> rbind m f = rbind m' f'"
  by (cases m') auto

text \<open>\<open>check c e\<close> is \<open>if c { return e }\<close>.\<close>

definition check :: "bool \<Rightarrow> 'e \<Rightarrow> 'e + unit" where
  "check c e = (if c then Inl e else Inr ())"

lemma check_simps [simp]: "check c e = Inr u \<longleftrightarrow> \<not> c" "check c e = Inl e' \<longleftrightarrow> c \<and> e = e'"
  by (auto simp: check_def)

lemma check_eval [simp]: "check False e = Inr ()" "check True e = Inl e"
  by (simp_all add: check_def)

text \<open>A loop that stops at the first error.\<close>

fun rmap :: "('a \<Rightarrow> 'e + 'b) \<Rightarrow> 'a list \<Rightarrow> 'e + 'b list" where
  "rmap f [] = Inr []"
| "rmap f (x # xs) = rbind (f x) (\<lambda>y. rbind (rmap f xs) (\<lambda>ys. Inr (y # ys)))"

fun reach :: "('a \<Rightarrow> 'e + unit) \<Rightarrow> 'a list \<Rightarrow> 'e + unit" where
  "reach f [] = Inr ()"
| "reach f (x # xs) = rbind (f x) (\<lambda>_. reach f xs)"

lemma reach_Inr_iff [result_simps]: "reach f xs = Inr u \<longleftrightarrow> (\<forall>x \<in> set xs. f x = Inr ())"
  by (induction xs) (auto simp: rbind_Inr_iff)

lemma reach_cong [fundef_cong]:
  "xs = ys \<Longrightarrow> (\<And>x. x \<in> set ys \<Longrightarrow> f x = g x) \<Longrightarrow> reach f xs = reach g ys"
  by (induction ys arbitrary: xs) auto

lemma rmap_Inr_length: "rmap f xs = Inr ys \<Longrightarrow> length ys = length xs"
  by (induction xs arbitrary: ys) (auto simp: rbind_Inr_iff)

section \<open>Strings\<close>

text \<open>
  Go strings are byte sequences; a \<open>char\<close> is a byte. \<open>strings.Fields\<close> and
  \<open>strings.TrimSpace\<close> split at white space: the six ASCII characters below, which is all
  Go's fast path looks at. (Non-ASCII spaces, which need a UTF-8 decoder, are not modelled.)
\<close>

definition is_space :: "char \<Rightarrow> bool" where
  "is_space c \<longleftrightarrow> c \<in> {CHR 0x09, CHR 0x0A, CHR 0x0B, CHR 0x0C, CHR 0x0D, CHR 0x20}"

fun trim_left :: "string \<Rightarrow> string" where
  "trim_left [] = []"
| "trim_left (c # cs) = (if is_space c then trim_left cs else c # cs)"

definition trim_space :: "string \<Rightarrow> string" where
  "trim_space s = rev (trim_left (rev (trim_left s)))"

fun fields_aux :: "string \<Rightarrow> string \<Rightarrow> string list" where
  "fields_aux w [] = (if w = [] then [] else [rev w])"
| "fields_aux w (c # cs) =
     (if is_space c then (if w = [] then fields_aux [] cs else rev w # fields_aux [] cs)
      else fields_aux (c # w) cs)"

definition fields :: "string \<Rightarrow> string list" where
  "fields s = fields_aux [] s"

fun join :: "string \<Rightarrow> string list \<Rightarrow> string" where
  "join sep [] = []"
| "join sep [x] = x"
| "join sep (x # y # ys) = x @ sep @ join sep (y # ys)"

text \<open>A name: not empty and without white space, what splitting can yield.\<close>

definition no_space :: "string \<Rightarrow> bool" where
  "no_space w \<longleftrightarrow> list_all (\<lambda>c. \<not> is_space c) w"

definition is_word :: "string \<Rightarrow> bool" where
  "is_word w \<longleftrightarrow> w \<noteq> [] \<and> no_space w"

lemma no_space_simps [simp]:
  "no_space []" "no_space (c # w) \<longleftrightarrow> \<not> is_space c \<and> no_space w" "no_space (rev w) \<longleftrightarrow> no_space w"
  by (simp_all add: no_space_def list_all_iff)

lemma fields_aux_words: "no_space w \<Longrightarrow> list_all is_word (fields_aux w s)"
  by (induction w s rule: fields_aux.induct) (simp_all add: is_word_def)

lemma fields_words: "x \<in> set (fields s) \<Longrightarrow> is_word x"
  using fields_aux_words [of "[]" s] by (simp add: fields_def list_all_iff)

lemma fields_aux_word:
  "no_space u \<Longrightarrow> fields_aux w (u @ CHR 0x20 # rest) =
    (if w = [] \<and> u = [] then fields_aux [] rest else (rev w @ u) # fields_aux [] rest)"
  by (induction u arbitrary: w) (simp_all add: is_space_def)

lemma fields_aux_last:
  "no_space u \<Longrightarrow> fields_aux w u = (if w = [] \<and> u = [] then [] else [rev w @ u])"
  by (induction u arbitrary: w) simp_all

text \<open>Joining names with single spaces and splitting them again gives the names back.\<close>

lemma fields_join: "list_all is_word xs \<Longrightarrow> fields (join '' '' xs) = xs"
proof (induction "'' '' :: string" xs rule: join.induct)
  case 1
  then show ?case by (simp add: fields_def)
next
  case (2 x)
  then show ?case by (simp add: fields_def fields_aux_last is_word_def)
next
  case (3 x y ys)
  then show ?case by (simp add: fields_def fields_aux_word is_word_def)
qed

text \<open>Trimming leaves such a list alone.\<close>

lemma trim_left_id: "s = [] \<or> \<not> is_space (hd s) \<Longrightarrow> trim_left s = s"
  by (cases s) auto

lemma trim_space_id: "s = [] \<or> \<not> is_space (hd s) \<and> \<not> is_space (last s) \<Longrightarrow> trim_space s = s"
  by (auto simp: trim_space_def trim_left_id hd_rev)

lemma is_word_ends: "is_word w \<Longrightarrow> w \<noteq> [] \<and> \<not> is_space (hd w) \<and> \<not> is_space (last w)"
  by (cases w) (auto simp: is_word_def no_space_def list_all_iff)

lemma join_ends:
  "list_all is_word xs \<Longrightarrow> xs \<noteq> [] \<Longrightarrow>
    join sep xs \<noteq> [] \<and> \<not> is_space (hd (join sep xs)) \<and> \<not> is_space (last (join sep xs))"
  by (induction sep xs rule: join.induct) (auto simp: is_word_ends)

lemma trim_space_join: "list_all is_word xs \<Longrightarrow> trim_space (join sep xs) = join sep xs"
  by (cases "xs = []") (auto intro!: trim_space_id simp: join_ends)

text \<open>\<open>strings.ToUpper\<close> and \<open>strings.ToLower\<close> on ASCII letters.\<close>

definition upper_char :: "char \<Rightarrow> char" where
  "upper_char c = (if 97 \<le> (of_char c :: nat) \<and> (of_char c :: nat) \<le> 122 then char_of (of_char c - 32 :: nat) else c)"

definition to_upper :: "string \<Rightarrow> string" where
  "to_upper s = map upper_char s"

definition lower_char :: "char \<Rightarrow> char" where
  "lower_char c = (if 65 \<le> (of_char c :: nat) \<and> (of_char c :: nat) \<le> 90 then char_of (of_char c + 32 :: nat) else c)"

definition to_lower :: "string \<Rightarrow> string" where
  "to_lower s = map lower_char s"

text \<open>\<open>strings.Split\<close> at one character, and \<open>strings.TrimSuffix\<close> of one character.\<close>

fun split_aux :: "char \<Rightarrow> string \<Rightarrow> string \<Rightarrow> string list" where
  "split_aux sep w [] = [rev w]"
| "split_aux sep w (c # cs) = (if c = sep then rev w # split_aux sep [] cs else split_aux sep (c # w) cs)"

definition split_at :: "char \<Rightarrow> string \<Rightarrow> string list" where
  "split_at sep s = split_aux sep [] s"

definition trim_suffix_char :: "char \<Rightarrow> string \<Rightarrow> string" where
  "trim_suffix_char c s = (if s \<noteq> [] \<and> last s = c then butlast s else s)"

section \<open>Decimal numbers\<close>

text \<open>\<open>strconv.FormatInt(i, 10)\<close>.\<close>

definition digit :: "nat \<Rightarrow> char" where
  "digit d = char_of (48 + d)"

fun show_nat :: "nat \<Rightarrow> string" where
  "show_nat n = (if n < 10 then [digit n] else show_nat (n div 10) @ [digit (n mod 10)])"

declare show_nat.simps [simp del]

definition show_int :: "int \<Rightarrow> string" where
  "show_int i = (if i < 0 then CHR 0x2D # show_nat (nat (- i)) else show_nat (nat i))"

definition is_digit :: "char \<Rightarrow> bool" where
  "is_digit c \<longleftrightarrow> 48 \<le> (of_char c :: nat) \<and> (of_char c :: nat) \<le> 57"

definition digits_val :: "string \<Rightarrow> nat" where
  "digits_val s = foldl (\<lambda>v c. 10 * v + (of_char c - 48)) 0 s"

text \<open>
  \<open>strconv.ParseInt(s, 10, 64)\<close>: an optional sign, at least one digit, nothing else, and a value
  that fits 64 bits; \<open>None\<close> is its error.
\<close>

definition parse_digits :: "string \<Rightarrow> nat option" where
  "parse_digits s = (if s \<noteq> [] \<and> list_all is_digit s then Some (digits_val s) else None)"

definition ParseInt :: "string \<Rightarrow> int option" where
  "ParseInt s =
     (let (neg, ds) = (case s of [] \<Rightarrow> (False, [])
         | c # cs \<Rightarrow> if c = CHR 0x2D then (True, cs) else if c = CHR 0x2B then (False, cs) else (False, s))
      in case parse_digits ds of
        None \<Rightarrow> None
      | Some n \<Rightarrow>
          if neg then (if int n > 2 ^ 63 then None else Some (- int n))
          else (if int n \<ge> 2 ^ 63 then None else Some (int n)))"

lemma of_char_digit: "d < 10 \<Longrightarrow> of_char (digit d) = 48 + d"
  by (simp add: digit_def)

lemma is_digit_digit: "d < 10 \<Longrightarrow> is_digit (digit d)"
  by (simp add: is_digit_def of_char_digit)

lemma show_nat_digits: "list_all is_digit (show_nat n)" and show_nat_ne: "show_nat n \<noteq> []"
  by (induction n rule: show_nat.induct) (subst show_nat.simps; simp add: is_digit_digit)+

lemma digits_val_show: "digits_val (show_nat n) = n"
proof (induction n rule: show_nat.induct)
  case (1 n)
  show ?case
  proof (cases "n < 10")
    case True
    then show ?thesis by (subst show_nat.simps) (simp add: digits_val_def of_char_digit)
  next
    case False
    then have "digits_val (show_nat n) = 10 * digits_val (show_nat (n div 10)) + n mod 10"
      by (subst show_nat.simps) (simp add: digits_val_def of_char_digit)
    with 1 [OF False] show ?thesis by simp
  qed
qed

lemma parse_digits_show: "parse_digits (show_nat n) = Some n"
  by (simp add: parse_digits_def show_nat_ne show_nat_digits digits_val_show)

lemma show_nat_head: "\<exists>c cs. show_nat n = c # cs \<and> is_digit c"
  using show_nat_ne [of n] show_nat_digits [of n] by (cases "show_nat n") auto

lemma ParseInt_show_int:
  "- (2 ^ 63) \<le> i \<Longrightarrow> i < 2 ^ 63 \<Longrightarrow> ParseInt (show_int i) = Some i"
proof -
  assume i: "- (2 ^ 63) \<le> i" "i < 2 ^ 63"
  obtain c cs where c: "show_nat (nat i) = c # cs" "is_digit c" using show_nat_head by blast
  then have "c \<noteq> CHR 0x2D" "c \<noteq> CHR 0x2B" by (auto simp: is_digit_def)
  then have "(case show_nat (nat i) of [] \<Rightarrow> (False, []) | c # cs \<Rightarrow> if c = CHR 0x2D then (True, cs)
      else if c = CHR 0x2B then (False, cs) else (False, show_nat (nat i))) = (False, show_nat (nat i))"
    by (simp add: c(1))
  with i show ?thesis by (simp add: ParseInt_def show_int_def parse_digits_show)
qed

lemma show_int_inj: "show_int i = show_int j \<Longrightarrow> i = j"
proof -
  assume eq: "show_int i = show_int j"
  have head: "show_nat n \<noteq> CHR 0x2D # s" for n s
    using show_nat_head [of n] by (auto simp: is_digit_def)
  have inj: "show_nat m = show_nat n \<Longrightarrow> m = n" for m n by (metis digits_val_show)
  show ?thesis
    using eq head by (auto simp: show_int_def split: if_splits dest!: inj) (metis head)+
qed

lemma show_int_chars: "c \<in> set (show_int i) \<Longrightarrow> is_digit c \<or> c = CHR 0x2D"
  using show_nat_digits by (auto simp: show_int_def list_all_iff split: if_splits)

section \<open>Go's int\<close>

text \<open>Go's \<open>int\<close> is 32 or 64 bits wide; what an operation yields wraps at the width \<open>W\<close>.\<close>

definition wrap :: "nat \<Rightarrow> int \<Rightarrow> int" where
  "wrap W i = (i + 2 ^ (W - 1)) mod 2 ^ W - 2 ^ (W - 1)"

lemma wrap_id: "0 < W \<Longrightarrow> - (2 ^ (W - 1)) \<le> i \<Longrightarrow> i < 2 ^ (W - 1) \<Longrightarrow> wrap W i = i"
proof -
  assume W: "0 < W" and i: "- (2 ^ (W - 1)) \<le> i" "i < 2 ^ (W - 1)"
  have "(2::int) ^ W = 2 * 2 ^ (W - 1)" using W by (cases W) auto
  with i show ?thesis by (simp add: wrap_def)
qed

section \<open>Lists\<close>

lemma sorted_snoc: "sorted (xs @ [x]) \<longleftrightarrow> sorted xs \<and> (\<forall>y \<in> set xs. y \<le> (x::'a::linorder))"
  by (auto simp: sorted_append)

lemma map_of_zip_fst: "distinct (map f xs) \<Longrightarrow> x \<in> set xs \<Longrightarrow> map_of (map (\<lambda>y. (f y, y)) xs) (f x) = Some x"
  by (induction xs) (auto simp: rev_image_eqI)

lemma map_of_key: "map_of (map (\<lambda>y. (f y, y)) xs) k = Some x \<Longrightarrow> x \<in> set xs \<and> f x = k"
  by (induction xs) (auto split: if_splits)

end
