(* ===== verification/Alert.thy ===== *)
theory Alert
  imports Prelude "HOL-Library.Sublist"
begin

text \<open>
  Alert rules and their hysteresis, \<open>internal/alert/alert.go\<close>, and silence windows,
  \<open>internal/alert/silence.go\<close>. A rule's standing for one series is the record \<open>alert_state\<close>;
  \<open>EvaluateValue\<close> advances it by one measurement. The abstract specification is a declarative
  one over the history of verdicts: a rule fires exactly when a run of \<open>For\<close> matching intervals
  has been seen since which there has been no run of \<open>ClearFor\<close> failing ones.
\<close>

section \<open>Rules\<close>

record alert_input =
  in_TargetID :: int
  in_AgentID :: int
  in_TS :: int
  in_Sent :: int
  in_Received :: int
  in_Samples :: "u32 list"
  in_LossTrusted :: bool
  in_RTTTrusted :: bool

datatype metric = MetricLoss | MetricMedian | MetricP95 | MetricSpread | MetricShape
  | MetricBimodality | MetricOther string

datatype rmode = ModeAuto | ModeTunable | ModeOther string

datatype baseline = BaselineRolling | BaselineGolden | BaselineOther string

datatype rop = OpGreater | OpLess | OpOther string

datatype severity = SeverityCritical | SeverityWarning | SeverityInfo | SeverityOther string

definition IsShape :: "metric \<Rightarrow> bool" where
  "IsShape m \<longleftrightarrow> m = MetricShape \<or> m = MetricBimodality"

record rule =
  r_ID :: int
  r_TargetID :: int
  r_Name :: string
  r_Metric :: metric
  r_Op :: rop
  r_Threshold :: f64
  r_For :: int
  r_ClearFor :: int
  r_Enabled :: bool
  r_Mode :: rmode
  r_Baseline :: baseline
  r_Severity :: severity

datatype alert_error =
    ShapeOp metric rop | BadMode metric rmode | BadBaseline baseline | UnknownMetric metric
  | UnknownOp rop | NameRequired | ThresholdNotFinite | LossThresholdRange
  | ForTooSmall | ClearForTooSmall | BadSeverity severity
  | SilenceWindow

definition validate_shape :: "rule \<Rightarrow> alert_error + unit" where
  "validate_shape r =
     rbind (check (r_Op r \<noteq> OpGreater) (ShapeOp (r_Metric r) (r_Op r))) (\<lambda>_.
     rbind (check (r_Mode r \<noteq> ModeAuto \<and> r_Mode r \<noteq> ModeTunable) (BadMode (r_Metric r) (r_Mode r))) (\<lambda>_.
       check (r_Metric r = MetricShape \<and> r_Baseline r \<noteq> BaselineRolling \<and> r_Baseline r \<noteq> BaselineGolden)
         (BadBaseline (r_Baseline r))))"

definition Rule_Validate :: "rule \<Rightarrow> alert_error + unit" where
  "Rule_Validate r =
     rbind (case r_Metric r of
         MetricShape \<Rightarrow> validate_shape r
       | MetricBimodality \<Rightarrow> validate_shape r
       | MetricOther s \<Rightarrow> Inl (UnknownMetric (r_Metric r))
       | _ \<Rightarrow> Inr ()) (\<lambda>_.
     rbind (check (r_Op r \<noteq> OpGreater \<and> r_Op r \<noteq> OpLess) (UnknownOp (r_Op r))) (\<lambda>_.
     rbind (check (r_Name r = '''') NameRequired) (\<lambda>_.
     rbind (check (\<not> f64_finite (r_Threshold r)) ThresholdNotFinite) (\<lambda>_.
     rbind (check (r_Metric r = MetricLoss \<and>
         (f64_less (r_Threshold r) (Fin 0) \<or> f64_less (Fin 100) (r_Threshold r))) LossThresholdRange) (\<lambda>_.
     rbind (check (r_For r < 1) ForTooSmall) (\<lambda>_.
     rbind (check (r_ClearFor r < 1) ClearForTooSmall) (\<lambda>_.
       check (r_Severity r \<notin> {SeverityCritical, SeverityWarning, SeverityInfo})
         (BadSeverity (r_Severity r)))))))))"

section \<open>State\<close>

record alert_state =
  s_RuleID :: int
  s_TargetID :: int
  s_AgentID :: int
  s_Firing :: bool
  s_Since :: int
  s_Streak :: int
  s_LastTS :: int
  s_Value :: f64
  s_AckedSince :: int
  s_AckedAt :: int
  s_AckedBy :: string

definition new_state :: "int \<Rightarrow> int \<Rightarrow> int \<Rightarrow> alert_state" where
  "new_state rid tid aid = \<lparr>s_RuleID = rid, s_TargetID = tid, s_AgentID = aid, s_Firing = False,
     s_Since = 0, s_Streak = 0, s_LastTS = 0, s_Value = Fin 0, s_AckedSince = 0, s_AckedAt = 0,
     s_AckedBy = ''''\<rparr>"

definition Acked :: "alert_state \<Rightarrow> bool" where
  "Acked st \<longleftrightarrow> s_Firing st \<and> s_AckedSince st \<noteq> 0 \<and> s_AckedSince st = s_Since st"

datatype transition = NoChange | Fired | Resolved

section \<open>Metric values\<close>

text \<open>A result \<open>(v, ok)\<close> of the source is \<open>Some v\<close> or, for \<open>(0, false)\<close>, \<open>None\<close>.\<close>

definition percentileMS :: "u32 list \<Rightarrow> real \<Rightarrow> real option" where
  "percentileMS sorted_samples q =
     (if sorted_samples = [] then None
      else let i = nat \<lfloor>q * real (length sorted_samples)\<rfloor>;
               i = (if i \<ge> length sorted_samples then length sorted_samples - 1 else i)
           in Some (real (unat (sorted_samples ! i)) / 1000))"

fun Value :: "alert_input \<Rightarrow> metric \<Rightarrow> real option" where
  "Value m MetricLoss =
     (if in_Sent m = 0 then None
      else Some (100 * real_of_int (in_Sent m - in_Received m) / real_of_int (in_Sent m)))"
| "Value m MetricMedian = percentileMS (in_Samples m) (1/2)"
| "Value m MetricP95 = percentileMS (in_Samples m) (95/100)"
| "Value m MetricSpread =
     (case percentileMS (in_Samples m) (95/100) of
        None \<Rightarrow> None
      | Some hi \<Rightarrow> (case percentileMS (in_Samples m) (5/100) of
          None \<Rightarrow> None
        | Some lo \<Rightarrow> Some (hi - lo)))"
| "Value m _ = None"

definition trustworthy :: "alert_input \<Rightarrow> metric \<Rightarrow> bool" where
  "trustworthy m metric = (if metric = MetricLoss then in_LossTrusted m else in_RTTTrusted m)"

section \<open>Evaluation\<close>

text \<open>The value and \<open>ok\<close> arrive as an option: the source never reads the value when \<open>ok\<close> is false.\<close>

definition matches :: "rule \<Rightarrow> f64 \<Rightarrow> bool" where
  "matches r value =
     (if r_Op r = OpLess then f64_less value (r_Threshold r) else f64_less (r_Threshold r) value)"

definition gap :: "alert_state \<Rightarrow> int \<Rightarrow> int \<Rightarrow> bool" where
  "gap st ts intervalS \<longleftrightarrow> s_LastTS st \<noteq> 0 \<and> ts - s_LastTS st > 2 * intervalS"

definition EvaluateValue ::
  "rule \<Rightarrow> alert_state \<Rightarrow> f64 option \<Rightarrow> bool \<Rightarrow> int \<Rightarrow> int \<Rightarrow> alert_state \<times> transition" where
  "EvaluateValue r st v trusted ts intervalS =
     (if \<not> r_Enabled r then (st, NoChange)
      else case v of
        None \<Rightarrow> (st\<lparr>s_Streak := 0, s_LastTS := ts\<rparr>, NoChange)
      | Some value \<Rightarrow>
        if gap st ts intervalS \<or> \<not> trusted then (st\<lparr>s_Streak := 0, s_LastTS := ts\<rparr>, NoChange)
        else
          let st = st\<lparr>s_LastTS := ts, s_Value := value\<rparr>
          in if matches r value = s_Firing st then (st\<lparr>s_Streak := 0\<rparr>, NoChange)
          else
            let st = st\<lparr>s_Streak := s_Streak st + 1\<rparr>
            in if \<not> s_Firing st \<and> s_Streak st \<ge> r_For r
               then (st\<lparr>s_Firing := True, s_Since := ts, s_Streak := 0\<rparr>, Fired)
               else if s_Firing st \<and> s_Streak st \<ge> r_ClearFor r
               then (st\<lparr>s_Firing := False, s_Since := 0, s_Streak := 0,
                        s_AckedSince := 0, s_AckedAt := 0, s_AckedBy := ''''\<rparr>, Resolved)
               else (st, NoChange))"

definition Evaluate :: "rule \<Rightarrow> alert_state \<Rightarrow> alert_input \<Rightarrow> int \<Rightarrow> alert_state \<times> transition" where
  "Evaluate r st m intervalS =
     EvaluateValue r st (map_option Fin (Value m (r_Metric r))) (trustworthy m (r_Metric r)) (in_TS m) intervalS"

section \<open>Silences\<close>

text \<open>A \<open>nil\<close> scope pointer is \<open>None\<close>.\<close>

record silence =
  sil_ID :: int
  sil_TargetID :: "int option"
  sil_AgentID :: "int option"
  sil_RuleID :: "int option"
  sil_StartsAt :: int
  sil_EndsAt :: int
  sil_Reason :: string
  sil_CreatedBy :: string
  sil_CreatedAt :: int

definition activeAt :: "silence \<Rightarrow> int \<Rightarrow> bool" where
  "activeAt s t \<longleftrightarrow> t \<ge> sil_StartsAt s \<and> t < sil_EndsAt s"

definition Silence_Validate :: "silence \<Rightarrow> alert_error + unit" where
  "Silence_Validate s = check (sil_EndsAt s \<le> sil_StartsAt s) SilenceWindow"

section \<open>The hysteresis, against a declarative specification\<close>

text \<open>
  What one measurement says: the condition holds (\<open>Match\<close>), fails (\<open>Miss\<close>), or the measurement
  breaks continuity (\<open>Break\<close>: a gap in the series, no value, an untrusted value).
\<close>

datatype verdict = Match | Miss | Break

record obs =
  o_value :: "f64 option"
  o_trusted :: bool
  o_ts :: int

definition verdict_of :: "rule \<Rightarrow> int \<Rightarrow> int \<Rightarrow> obs \<Rightarrow> verdict" where
  "verdict_of r intervalS prev ob =
     (case o_value ob of None \<Rightarrow> Break
      | Some v \<Rightarrow>
          if (prev \<noteq> 0 \<and> o_ts ob - prev > 2 * intervalS) \<or> \<not> o_trusted ob then Break
          else if matches r v then Match else Miss)"

fun verdicts :: "rule \<Rightarrow> int \<Rightarrow> int \<Rightarrow> obs list \<Rightarrow> verdict list" where
  "verdicts r iv prev [] = []"
| "verdicts r iv prev (ob # obs) = verdict_of r iv prev ob # verdicts r iv (o_ts ob) obs"

fun run :: "rule \<Rightarrow> int \<Rightarrow> alert_state \<Rightarrow> obs list \<Rightarrow> alert_state" where
  "run r iv st [] = st"
| "run r iv st (ob # obs) = run r iv (fst (EvaluateValue r st (o_value ob) (o_trusted ob) (o_ts ob) iv)) obs"

text \<open>
  The rule is firing after a history exactly when somewhere in it \<open>F\<close> matches stand in a row and
  the rest of it holds no \<open>C\<close> misses in a row.
\<close>

definition firing_spec :: "nat \<Rightarrow> nat \<Rightarrow> verdict list \<Rightarrow> bool" where
  "firing_spec F C vs \<longleftrightarrow>
     (\<exists>us ws. vs = us @ replicate F Match @ ws \<and> \<not> sublist (replicate C Miss) ws)"

text \<open>The machine on verdicts that \<open>EvaluateValue\<close> refines.\<close>

fun vstep :: "nat \<Rightarrow> nat \<Rightarrow> bool \<times> nat \<Rightarrow> verdict \<Rightarrow> bool \<times> nat" where
  "vstep F C (False, k) Match = (if F \<le> Suc k then (True, 0) else (False, Suc k))"
| "vstep F C (True, k) Miss = (if C \<le> Suc k then (False, 0) else (True, Suc k))"
| "vstep F C (b, k) _ = (b, 0)"

definition vabs :: "alert_state \<Rightarrow> bool \<times> nat" where
  "vabs st = (s_Firing st, nat (s_Streak st))"

lemma streak_nat:
  assumes "0 \<le> k"
  shows "nat f \<le> Suc (nat k) \<longleftrightarrow> f \<le> k + 1" and "nat (k + 1) = Suc (nat k)"
  using assms by (simp_all add: nat_le_iff nat_add_distrib add.commute)

lemma EvaluateValue_refines:
  assumes "r_Enabled r" and "0 \<le> s_Streak st"
  shows "vabs (fst (EvaluateValue r st v trusted ts iv)) =
      vstep (nat (r_For r)) (nat (r_ClearFor r)) (vabs st)
        (verdict_of r iv (s_LastTS st) \<lparr>o_value = v, o_trusted = trusted, o_ts = ts\<rparr>)"
    (is "?abs = ?spec")
proof -
  note defs = EvaluateValue_def vabs_def verdict_of_def gap_def Let_def streak_nat [OF assms(2)] assms(1)
  show "?abs = ?spec"
  proof (cases v)
    case None
    then show ?thesis by (cases "s_Firing st") (simp_all add: defs)
  next
    case (Some x)
    then show ?thesis by (cases "s_Firing st"; cases "matches r x") (simp_all add: defs)
  qed
qed

lemma EvaluateValue_LastTS: "r_Enabled r \<Longrightarrow> s_LastTS (fst (EvaluateValue r st v trusted ts iv)) = ts"
  by (simp add: EvaluateValue_def Let_def split: option.split)

lemma EvaluateValue_streak_nonneg [invariants]:
  "0 \<le> s_Streak st \<Longrightarrow> 0 \<le> s_Streak (fst (EvaluateValue r st v trusted ts iv))"
  by (simp add: EvaluateValue_def Let_def split: option.split)

lemma run_refines:
  assumes "r_Enabled r" and "0 \<le> s_Streak st"
  shows "vabs (run r iv st obs) =
    foldl (vstep (nat (r_For r)) (nat (r_ClearFor r))) (vabs st) (verdicts r iv (s_LastTS st) obs)"
  using assms(2)
proof (induction obs arbitrary: st)
  case (Cons ob obs)
  let ?st = "fst (EvaluateValue r st (o_value ob) (o_trusted ob) (o_ts ob) iv)"
  have "0 \<le> s_Streak ?st" using Cons.prems by (rule EvaluateValue_streak_nonneg)
  then show ?case
    using Cons.IH [of ?st] EvaluateValue_refines [OF assms(1) Cons.prems, of "o_value ob" "o_trusted ob" "o_ts ob"]
    by (cases ob) (simp add: EvaluateValue_LastTS [OF assms(1)])
qed simp

text \<open>The verdict machine computes the declarative specification.\<close>

definition trail :: "'a \<Rightarrow> 'a list \<Rightarrow> nat" where
  "trail v xs = length (takeWhile (\<lambda>x. x = v) (rev xs))"

lemma trail_simps [simp]:
  "trail v [] = 0" "trail v (xs @ [x]) = (if x = v then Suc (trail v xs) else 0)"
  by (simp_all add: trail_def)

lemma trail_append: "trail v ws \<le> trail v (us @ ws)"
  by (induction ws rule: rev_induct) (simp_all flip: append_assoc)

lemma trail_append_other: "y \<noteq> v \<Longrightarrow> trail v ((us @ [y]) @ ws) = trail v ws"
  by (induction ws rule: rev_induct) (simp_all flip: append_assoc)

lemma suffix_replicate_iff: "suffix (replicate n v) xs \<longleftrightarrow> n \<le> trail v xs"
proof (induction xs arbitrary: n rule: rev_induct)
  case Nil
  then show ?case by simp
next
  case (snoc x xs)
  then show ?case
    by (cases n) (auto simp flip: replicate_append_same)
qed

lemma sublist_replicate_snoc:
  "sublist (replicate n v) (ws @ [x]) \<longleftrightarrow> sublist (replicate n v) ws \<or> n \<le> trail v (ws @ [x])"
  by (simp only: sublist_snoc suffix_replicate_iff disj_commute)

lemma firing_spec_snocD:
  assumes "firing_spec F C (vs @ [x])"
  shows "F \<le> trail Match (vs @ [x]) \<or> firing_spec F C vs"
proof -
  from assms obtain us ws where d: "vs @ [x] = us @ replicate F Match @ ws" "\<not> sublist (replicate C Miss) ws"
    by (auto simp: firing_spec_def)
  show ?thesis
  proof (cases ws rule: rev_cases)
    case Nil
    with d have "suffix (replicate F Match) (vs @ [x])" by (auto simp: suffix_def)
    then show ?thesis unfolding suffix_replicate_iff by (rule disjI1)
  next
    case (snoc ws' y)
    with d have "vs = us @ replicate F Match @ ws'" "\<not> sublist (replicate C Miss) ws'"
      by (auto simp: sublist_replicate_snoc)
    then show ?thesis by (auto simp: firing_spec_def)
  qed
qed

lemma firing_spec_new: "0 < C \<Longrightarrow> F \<le> trail Match vs \<Longrightarrow> firing_spec F C vs"
  unfolding firing_spec_def suffix_replicate_iff [symmetric] suffix_def
  by (metis append_Nil2 sublist_Nil_right replicate_empty not_gr_zero)

lemma firing_spec_keep:
  assumes "firing_spec F C vs" and "trail Miss (vs @ [x]) < C"
  shows "firing_spec F C (vs @ [x])"
proof -
  from assms(1) obtain us ws where d: "vs = us @ replicate F Match @ ws" "\<not> sublist (replicate C Miss) ws"
    by (auto simp: firing_spec_def)
  have "trail Miss (ws @ [x]) < C"
    using trail_append [of Miss "ws @ [x]" "us @ replicate F Match"] assms(2) d(1) by simp
  with d have "vs @ [x] = us @ replicate F Match @ (ws @ [x])" "\<not> sublist (replicate C Miss) (ws @ [x])"
    by (simp_all only: sublist_replicate_snoc append_assoc) simp
  then show ?thesis unfolding firing_spec_def by blast
qed

lemma firing_spec_end:
  assumes "0 < F" and "C \<le> trail Miss vs"
  shows "\<not> firing_spec F C vs"
proof
  assume "firing_spec F C vs"
  then obtain us ws where d: "vs = us @ replicate F Match @ ws" "\<not> sublist (replicate C Miss) ws"
    by (auto simp: firing_spec_def)
  obtain f where "F = Suc f" using assms(1) by (cases F) auto
  then have "vs = ((us @ replicate f Match) @ [Match]) @ ws"
    using d(1) by (simp add: replicate_append_same [symmetric])
  then have "trail Miss vs = trail Miss ws" by (simp only: trail_append_other verdict.distinct simp_thms)
  with assms(2) have "suffix (replicate C Miss) ws" by (simp only: suffix_replicate_iff)
  with d(2) show False by (simp add: suffix_imp_sublist)
qed

lemma vstep_spec:
  assumes "0 < F" and "0 < C"
  shows "foldl (vstep F C) (False, 0) vs =
    (firing_spec F C vs, trail (if firing_spec F C vs then Miss else Match) vs)"
proof (induction vs rule: rev_induct)
  case Nil
  then show ?case using assms by (simp add: firing_spec_def)
next
  case (snoc x vs)
  show ?case
  proof (cases "firing_spec F C vs")
    case True
    then show ?thesis
      using snoc firing_spec_keep [of F C vs x] firing_spec_end [OF assms(1), of C "vs @ [x]"] assms
      by (cases x) (auto simp: not_le)
  next
    case False
    then show ?thesis
      using snoc firing_spec_snocD [of F C vs x] firing_spec_new [OF assms(2), of F "vs @ [x]"] assms
      by (cases x) (auto simp: not_le)
  qed
qed

section \<open>Metric values are ordered\<close>

lemma percentileMS_eq:
  assumes "ss \<noteq> []"
  shows "percentileMS ss x =
    Some (real (unat (ss ! min (nat \<lfloor>x * real (length ss)\<rfloor>) (length ss - 1))) / 1000)"
proof -
  define i where "i = nat \<lfloor>x * real (length ss)\<rfloor>"
  have "(if i \<ge> length ss then length ss - 1 else i) = min i (length ss - 1)"
    using assms by (cases ss) auto
  then show ?thesis using assms unfolding percentileMS_def i_def [symmetric] by (simp add: Let_def)
qed

lemma percentileMS_mono:
  assumes "sorted ss" and "0 \<le> p" and "p \<le> q"
    and "percentileMS ss p = Some a" and "percentileMS ss q = Some b"
  shows "a \<le> b"
proof -
  let ?i = "\<lambda>q. min (nat \<lfloor>q * real (length ss)\<rfloor>) (length ss - 1)"
  have ne: "ss \<noteq> []" using assms(4) by (auto simp: percentileMS_def)
  have "?i p \<le> ?i q"
    using assms(2,3) by (intro min.mono nat_mono floor_mono mult_right_mono) simp_all
  moreover have "?i q < length ss" using ne by (cases ss) auto
  ultimately have "ss ! ?i p \<le> ss ! ?i q" using assms(1) by (intro sorted_nth_mono) auto
  then show ?thesis using assms(4,5) by (auto simp: percentileMS_eq [OF ne] word_le_nat_alt)
qed

lemma percentileMS_nonneg: "percentileMS ss q = Some a \<Longrightarrow> 0 \<le> a"
  by (cases "ss = []") (auto simp: percentileMS_eq percentileMS_def [of "[]"])

lemma Rule_Validate_For: "Rule_Validate r = Inr u \<Longrightarrow> 1 \<le> r_For r \<and> 1 \<le> r_ClearFor r"
  by (auto simp: Rule_Validate_def result_simps)

section \<open>Properties\<close>

text \<open>
  Property C7. Hysteresis: whatever the sequence of measurements, a validated and enabled rule
  that started clear is firing at the end of it exactly when somewhere in the history
  \<open>For\<close> matching measurements stand in a row and no \<open>ClearFor\<close> failing ones in a row have come
  since. A gap in the series, a missing value and an untrusted one break a run and belong to
  neither kind. So the rule neither flaps on a blip nor bridges missing data.
\<close>

theorem alert_fires_iff:
  assumes "Rule_Validate r = Inr ()" and "r_Enabled r"
  shows "s_Firing (run r intervalS (new_state rid tid aid) obs) \<longleftrightarrow>
    firing_spec (nat (r_For r)) (nat (r_ClearFor r)) (verdicts r intervalS 0 obs)"
proof -
  let ?st = "new_state rid tid aid"
  have "vabs (run r intervalS ?st obs) =
      foldl (vstep (nat (r_For r)) (nat (r_ClearFor r))) (False, 0) (verdicts r intervalS 0 obs)"
    using run_refines [OF assms(2), of ?st] by (simp add: vabs_def new_state_def)
  then show ?thesis
    using Rule_Validate_For [OF assms(1)] by (simp add: vstep_spec vabs_def)
qed

definition example_rule :: rule where
  "example_rule = \<lparr>r_ID = 1, r_TargetID = 2, r_Name = ''loss'', r_Metric = MetricLoss,
     r_Op = OpGreater, r_Threshold = Fin 20, r_For = 2, r_ClearFor = 2, r_Enabled = True,
     r_Mode = ModeOther '''', r_Baseline = BaselineOther '''', r_Severity = SeverityWarning\<rparr>"

lemma example_rule_valid: "Rule_Validate example_rule = Inr ()" "r_Enabled example_rule"
  by (simp_all add: example_rule_def Rule_Validate_def check_def)

definition example_obs :: "obs list" where
  "example_obs = [\<lparr>o_value = Some (Fin 50), o_trusted = True, o_ts = 60\<rparr>,
     \<lparr>o_value = Some (Fin 50), o_trusted = True, o_ts = 120\<rparr>,
     \<lparr>o_value = Some (Fin 0), o_trusted = True, o_ts = 180\<rparr>]"

theorem alert_fires_iff_witness:
  "s_Firing (run example_rule 60 (new_state 1 2 0) example_obs) \<and>
   firing_spec 2 2 [Match, Match, Miss]"
proof -
  have "verdicts example_rule 60 0 example_obs = [Match, Match, Miss]"
    by (simp add: example_rule_def example_obs_def verdict_of_def matches_def)
  moreover have "s_Firing (run example_rule 60 (new_state 1 2 0) example_obs)"
    by (simp add: example_rule_def example_obs_def new_state_def EvaluateValue_def matches_def gap_def)
  ultimately show ?thesis
    using alert_fires_iff [OF example_rule_valid, of 60 1 2 0 example_obs] by (simp add: example_rule_def)
qed

text \<open>
  Further property. Reports are edge-triggered: an evaluation reports \<open>Fired\<close> exactly when it takes
  the rule from clear to firing, \<open>Resolved\<close> exactly when it takes it back, and \<open>NoChange\<close>
  otherwise; firing starts a new episode at this measurement's time, and resolving ends the
  episode together with its acknowledgement.
\<close>

theorem transition_edges:
  "case EvaluateValue r st v trusted ts iv of (st', t) \<Rightarrow>
     (t = Fired \<longleftrightarrow> \<not> s_Firing st \<and> s_Firing st') \<and>
     (t = Resolved \<longleftrightarrow> s_Firing st \<and> \<not> s_Firing st') \<and>
     s_Since st' = (case t of Fired \<Rightarrow> ts | Resolved \<Rightarrow> 0 | NoChange \<Rightarrow> s_Since st) \<and>
     s_AckedSince st' = (if t = Resolved then 0 else s_AckedSince st) \<and>
     s_AckedBy st' = (if t = Resolved then '''' else s_AckedBy st)"
  by (simp add: EvaluateValue_def Let_def split: option.split)

text \<open>
  Further property. Measurements that cannot be judged never move a rule: over any number of
  intervals without a value (no replies, a shape rule without a reference or still warming up)
  or with an untrusted one, a firing rule stays firing and a clear one clear, and its streak
  starts over. In particular such intervals do not count towards clearing.
\<close>

theorem unjudged_keep_standing:
  assumes "list_all (\<lambda>ob. o_value ob = None \<or> \<not> o_trusted ob) obs"
  shows "s_Firing (run r iv st obs) = s_Firing st \<and> s_Since (run r iv st obs) = s_Since st \<and>
    (r_Enabled r \<and> obs \<noteq> [] \<longrightarrow> s_Streak (run r iv st obs) = 0)"
  using assms
proof (induction obs arbitrary: st)
  case (Cons ob obs)
  let ?st = "fst (EvaluateValue r st (o_value ob) (o_trusted ob) (o_ts ob) iv)"
  have "s_Firing ?st = s_Firing st \<and> s_Since ?st = s_Since st \<and> (r_Enabled r \<longrightarrow> s_Streak ?st = 0)"
    using Cons.prems by (auto simp: EvaluateValue_def split: option.split)
  then show ?case using Cons by (cases obs) auto
qed simp

theorem unjudged_keep_standing_witness:
  "s_Firing (run example_rule 60 ((new_state 1 2 0)\<lparr>s_Firing := True\<rparr>)
     [\<lparr>o_value = None, o_trusted = True, o_ts = 60\<rparr>, \<lparr>o_value = Some (Fin 0), o_trusted = False, o_ts = 120\<rparr>])"
  by (subst unjudged_keep_standing [THEN conjunct1]) (simp_all add: new_state_def)

text \<open>
  Further property. The metric values are what they are called: with no more replies than probes the
  loss is a percentage from 0 to 100, and on an ascending sample set the median is at most
  the 95th percentile and the spread is not negative; they are undefined
  exactly when there is nothing to compute them from.
\<close>

theorem metric_values:
  assumes "0 \<le> in_Received m" and "in_Received m \<le> in_Sent m" and "sorted (in_Samples m)"
  shows "(case Value m MetricLoss of None \<Rightarrow> in_Sent m = 0 | Some l \<Rightarrow> 0 \<le> l \<and> l \<le> 100) \<and>
      (case (Value m MetricMedian, Value m MetricP95, Value m MetricSpread) of
        (Some med, Some p95, Some spread) \<Rightarrow> 0 \<le> med \<and> med \<le> p95 \<and> 0 \<le> spread
      | (None, None, None) \<Rightarrow> in_Samples m = []
      | _ \<Rightarrow> False)"
proof (intro conjI)
  show "case Value m MetricLoss of None \<Rightarrow> in_Sent m = 0 | Some l \<Rightarrow> 0 \<le> l \<and> l \<le> 100"
    using assms(1,2) by (auto simp: field_simps)
  show "case (Value m MetricMedian, Value m MetricP95, Value m MetricSpread) of
        (Some med, Some p95, Some spread) \<Rightarrow> 0 \<le> med \<and> med \<le> p95 \<and> 0 \<le> spread
      | (None, None, None) \<Rightarrow> in_Samples m = []
      | _ \<Rightarrow> False"
  proof (cases "in_Samples m = []")
    case True
    then show ?thesis by (simp add: percentileMS_def)
  next
    case False
    then obtain lo med hi where v: "percentileMS (in_Samples m) (5/100) = Some lo"
        "percentileMS (in_Samples m) (1/2) = Some med" "percentileMS (in_Samples m) (95/100) = Some hi"
      using percentileMS_eq [OF False] by metis
    then show ?thesis
      using percentileMS_nonneg [OF v(2)] percentileMS_mono [OF assms(3) _ _ v(2) v(3)] percentileMS_mono [OF assms(3) _ _ v(1) v(3)]
      by simp
  qed
qed

definition example_input :: alert_input where
  "example_input = \<lparr>in_TargetID = 1, in_AgentID = 0, in_TS = 60, in_Sent = 4, in_Received = 3,
      in_Samples = [1000, 2000, 7000], in_LossTrusted = True, in_RTTTrusted = True\<rparr>"

theorem metric_values_witness:
  "Value example_input MetricLoss = Some 25 \<and> (\<exists>s. Value example_input MetricSpread = Some s \<and> 0 \<le> s)"
  using metric_values [of example_input]
  by (auto simp: example_input_def split: option.splits)

end
