(* ===== verification/Shape.thy ===== *)
theory Shape
  imports Alert "HOL-Library.Multiset"
begin

text \<open>
  The distribution-shape measures: \<open>internal/shape/shape.go\<close> and the per-series memory that turns
  them into a rule's value, \<open>internal/alert/shape.go\<close>. A \<open>float64\<close> is a real here, so rounding is
  not modelled. The earth-mover distance, a merge of two sorted slices with two indices, is shown
  equal to the area between the two distribution functions, from which its metric laws follow.
\<close>

section \<open>Earth-mover distance\<close>

definition sortedFloats :: "u32 list \<Rightarrow> real list" where
  "sortedFloats x = sort (map (\<lambda>v. real (unat v)) x)"

text \<open>\<open>for i < len(A) && A[i] == x { i++ }\<close>\<close>

function skip :: "real list \<Rightarrow> nat \<Rightarrow> real \<Rightarrow> nat" where
  "skip A i x = (if i < length A \<and> A ! i = x then skip A (Suc i) x else i)"
  by auto
termination by (relation "measure (\<lambda>(A, i, x). length A - i)") auto

declare skip.simps [simp del]

lemma skip_mono: "i \<le> skip A i x"
proof (induction A i x rule: skip.induct)
  case (1 A i x)
  then show ?case by (subst skip.simps) auto
qed

lemma skip_bound: "i \<le> length A \<Longrightarrow> skip A i x \<le> length A"
proof (induction A i x rule: skip.induct)
  case (1 A i x)
  then show ?case by (subst skip.simps) auto
qed

lemma skip_hit: "i < length A \<Longrightarrow> A ! i = x \<Longrightarrow> i < skip A i x"
  using skip_mono [of "Suc i" A x] by (subst skip.simps) simp

text \<open>The value the merge looks at next.\<close>

definition next_x :: "real list \<Rightarrow> real list \<Rightarrow> nat \<Rightarrow> nat \<Rightarrow> real" where
  "next_x A B i j = (if j \<ge> length B \<or> (i < length A \<and> A ! i \<le> B ! j) then A ! i else B ! j)"

lemma merge_progress:
  assumes "i < length A \<or> j < length B"
  shows "length A - skip A i (next_x A B i j) + (length B - skip B j (next_x A B i j)) <
    length A - i + (length B - j)"
proof -
  let ?x = "next_x A B i j"
  have le: "i \<le> skip A i ?x" "j \<le> skip B j ?x" by (simp_all add: skip_mono)
  have "i < length A \<and> A ! i = ?x \<or> j < length B \<and> B ! j = ?x"
    using assms by (auto simp: next_x_def)
  then show ?thesis using le skip_hit [of i A ?x] skip_hit [of j B ?x] by auto
qed

function merge_loop ::
  "real list \<Rightarrow> real list \<Rightarrow> nat \<Rightarrow> nat \<Rightarrow> bool \<Rightarrow> real \<Rightarrow> real \<Rightarrow> real \<Rightarrow> real \<Rightarrow> real" where
  "merge_loop A B i j started prevX cdfA cdfB w =
     (if i < length A \<or> j < length B then
        let x = next_x A B i j;
            w = (if started then w + \<bar>cdfA - cdfB\<bar> * (x - prevX) else w);
            i = skip A i x; j = skip B j x
        in merge_loop A B i j True x (real i / real (length A)) (real j / real (length B)) w
      else w)"
  by auto

termination
  by (relation "measure (\<lambda>(A, B, i, j, _). length A - i + (length B - j))") (simp_all add: merge_progress)

declare merge_loop.simps [simp del]

definition Wasserstein1 :: "u32 list \<Rightarrow> u32 list \<Rightarrow> real" where
  "Wasserstein1 a b =
     (if a = [] \<or> b = [] then 0
      else merge_loop (sortedFloats a) (sortedFloats b) 0 0 False 0 0 0 0)"

text \<open>The specification: the distribution function of a sample and the area between two of them.\<close>

definition at_most :: "nat list \<Rightarrow> nat \<Rightarrow> nat" where
  "at_most xs t = length (filter (\<lambda>s. s \<le> t) xs)"

definition cdf :: "nat list \<Rightarrow> nat \<Rightarrow> real" where
  "cdf xs t = real (at_most xs t) / real (length xs)"

definition emd :: "nat \<Rightarrow> nat list \<Rightarrow> nat list \<Rightarrow> real" where
  "emd M xs ys = (\<Sum>t<M. \<bar>cdf xs t - cdf ys t\<bar>)"

lemma at_most_split:
  assumes "i \<le> length xs" and "\<forall>k<i. xs ! k \<le> t" and "\<forall>k. i \<le> k \<and> k < length xs \<longrightarrow> t < xs ! k"
  shows "at_most xs t = i"
proof -
  have "filter (\<lambda>s. s \<le> t) (take i xs) = take i xs"
    using assms(1,2) by (auto simp: filter_id_conv in_set_conv_nth)
  moreover have "\<not> s \<le> t" if s: "s \<in> set (drop i xs)" for s
  proof -
    from s obtain k where k: "k < length xs - i" "s = drop i xs ! k" by (auto simp: in_set_conv_nth)
    then have "s = xs ! (i + k)" "i + k < length xs" using assms(1) by auto
    moreover have "t < xs ! (i + k)" using assms(3) calculation(2) le_add1 by blast
    ultimately show ?thesis by simp
  qed
  then have "filter (\<lambda>s. s \<le> t) (drop i xs) = []" by (auto simp: filter_empty_conv)
  ultimately have "filter (\<lambda>s. s \<le> t) (take i xs @ drop i xs) = take i xs" by (simp only: filter_append) simp
  then show ?thesis using assms(1) by (simp add: at_most_def)
qed

text \<open>An index that splits a sorted list into what is at most \<open>t\<close> and what is greater.\<close>

definition splits :: "nat list \<Rightarrow> nat \<Rightarrow> nat \<Rightarrow> bool" where
  "splits xs i t \<longleftrightarrow> i \<le> length xs \<and> (\<forall>k<i. xs ! k \<le> t) \<and> (\<forall>k. i \<le> k \<and> k < length xs \<longrightarrow> t < xs ! k)"

lemma splits_cdf: "splits xs i t \<Longrightarrow> cdf xs t = real i / real (length xs)"
  by (simp add: splits_def cdf_def at_most_split)

lemma splits_skip:
  assumes "sorted xs" and "i \<le> length xs" and "\<forall>k<i. xs ! k \<le> x" and "i < length xs \<Longrightarrow> x \<le> xs ! i"
  shows "splits xs (skip (map real xs) i (real x)) x"
  using assms(2-)
proof (induction "map real xs" i "real x" rule: skip.induct)
  case (1 i)
  show ?case
  proof (cases "i < length xs \<and> xs ! i = x")
    case True
    then have "\<forall>k<Suc i. xs ! k \<le> x" using 1(3) by (auto simp: less_Suc_eq)
    moreover have "x \<le> xs ! Suc i" if "Suc i < length xs" using True assms(1) that sorted_nth_mono by fastforce
    ultimately show ?thesis using 1(1) True by (subst skip.simps) simp
  next
    case False
    have "x < xs ! k" if "i \<le> k" "k < length xs" for k
      using False 1(4) that sorted_nth_mono [OF assms(1) that] by force
    then show ?thesis using False 1(2,3) by (subst skip.simps) (auto simp: splits_def)
  qed
qed

text \<open>
  The loop: between two values it visits, both distribution functions are constant, so the area up
  to the value at hand is what has been accumulated.
\<close>

definition loop_inv :: "nat list \<Rightarrow> nat list \<Rightarrow> nat \<Rightarrow> nat \<Rightarrow> bool \<Rightarrow> nat \<Rightarrow> real \<Rightarrow> real \<Rightarrow> real \<Rightarrow> bool" where
  "loop_inv xs ys i j started p cA cB w \<longleftrightarrow>
     (if started then splits xs i p \<and> splits ys j p \<and> cA = real i / real (length xs) \<and>
        cB = real j / real (length ys) \<and> w = emd p xs ys
      else i = 0 \<and> j = 0 \<and> w = 0)"

lemma emd_flat:
  assumes "p \<le> x" and "\<And>t. p \<le> t \<Longrightarrow> t < x \<Longrightarrow> cdf xs t = a \<and> cdf ys t = b"
  shows "emd x xs ys = emd p xs ys + \<bar>a - b\<bar> * (real x - real p)"
proof -
  have "{..<x} = {..<p} \<union> {p..<x}" using assms(1) by auto
  then have "emd x xs ys = emd p xs ys + (\<Sum>t\<in>{p..<x}. \<bar>cdf xs t - cdf ys t\<bar>)"
    unfolding emd_def by (simp add: sum.union_disjoint ivl_disj_int)
  also have "(\<Sum>t\<in>{p..<x}. \<bar>cdf xs t - cdf ys t\<bar>) = (\<Sum>t\<in>{p..<x}. \<bar>a - b\<bar>)"
    using assms(2) by (intro sum.cong) auto
  finally show ?thesis using assms(1) by (simp add: of_nat_diff mult.commute)
qed

lemma splits_between: "splits xs i p \<Longrightarrow> p \<le> t \<Longrightarrow> (i < length xs \<Longrightarrow> t < xs ! i) \<Longrightarrow> sorted xs \<Longrightarrow> splits xs i t"
  using sorted_nth_mono [of xs i] unfolding splits_def
  by (metis le_trans order.strict_trans2 le_less_trans)

lemma next_x_real:
  assumes "i < length xs \<or> j < length ys"
  obtains x where "next_x (map real xs) (map real ys) i j = real x"
    and "i < length xs \<Longrightarrow> x \<le> xs ! i" and "j < length ys \<Longrightarrow> x \<le> ys ! j"
    and "x \<in> set xs \<union> set ys" and "(i < length xs \<and> x = xs ! i) \<or> (j < length ys \<and> x = ys ! j)"
proof (cases "j \<ge> length ys \<or> (i < length xs \<and> xs ! i \<le> ys ! j)")
  case True
  then have "i < length xs" using assms by auto
  with True show ?thesis by (intro that [of "xs ! i"]) (auto simp: next_x_def)
next
  case False
  then show ?thesis by (intro that [of "ys ! j"]) (auto simp: next_x_def)
qed

lemma loop_inv_step:
  assumes "sorted xs" and "sorted ys" and "i < length xs \<or> j < length ys"
    and "loop_inv xs ys i j started p cA cB w"
  obtains x where "next_x (map real xs) (map real ys) i j = real x" and "x \<in> set xs \<union> set ys"
    and "loop_inv xs ys (skip (map real xs) i (real x)) (skip (map real ys) j (real x)) True x
      (real (skip (map real xs) i (real x)) / real (length xs))
      (real (skip (map real ys) j (real x)) / real (length ys))
      (if started then w + \<bar>cA - cB\<bar> * (real x - real p) else w)"
proof -
  from next_x_real [OF assms(3)] obtain x where
    x: "next_x (map real xs) (map real ys) i j = real x" "i < length xs \<Longrightarrow> x \<le> xs ! i"
      "j < length ys \<Longrightarrow> x \<le> ys ! j" "x \<in> set xs \<union> set ys"
      "(i < length xs \<and> x = xs ! i) \<or> (j < length ys \<and> x = ys ! j)" by blast
  have pre: "i \<le> length xs \<and> (\<forall>k<i. xs ! k \<le> x) \<and> j \<le> length ys \<and> (\<forall>k<j. ys ! k \<le> x) \<and>
      (if started then w + \<bar>cA - cB\<bar> * (real x - real p) else w) = emd x xs ys"
  proof (cases started)
    case True
    then have s: "splits xs i p" "splits ys j p" "cA = real i / real (length xs)" "cB = real j / real (length ys)"
      "w = emd p xs ys" using assms(4) by (auto simp: loop_inv_def)
    then have px: "p \<le> x" using x(5) by (auto simp: splits_def)
    have "cdf xs t = cA \<and> cdf ys t = cB" if t: "p \<le> t" "t < x" for t
    proof -
      have "splits xs i t" using splits_between [OF s(1) t(1) _ assms(1)] x(2) t(2) by fastforce
      moreover have "splits ys j t" using splits_between [OF s(2) t(1) _ assms(2)] x(3) t(2) by fastforce
      ultimately show ?thesis by (simp add: splits_cdf s)
    qed
    from emd_flat [OF px this] s px show ?thesis using True by (auto simp: splits_def)
  next
    case False
    then have z: "i = 0" "j = 0" "w = 0" using assms(4) by (auto simp: loop_inv_def)
    have "splits xs 0 t \<and> splits ys 0 t" if "t < x" for t
      using x(2,3) that z sorted_nth_mono [OF assms(1), of 0] sorted_nth_mono [OF assms(2), of 0]
      unfolding splits_def by (metis gr_implies_not0 le0 le_less_trans less_le_trans)
    then have "cdf xs t = 0 \<and> cdf ys t = 0" if "t < x" for t using that splits_cdf by fastforce
    then have "emd x xs ys = 0" by (simp add: emd_def)
    then show ?thesis using False z by simp
  qed
  from splits_skip [OF assms(1), of i x] splits_skip [OF assms(2), of j x] pre x(2,3) x(1,4) show ?thesis
    by (intro that [of x]) (auto simp: loop_inv_def)
qed

lemma emd_beyond:
  assumes "xs \<noteq> []" and "ys \<noteq> []" and "\<forall>s \<in> set xs \<union> set ys. s \<le> p" and "p \<le> M"
  shows "emd M xs ys = emd p xs ys"
proof -
  have "cdf xs t = 1 \<and> cdf ys t = 1" if "p \<le> t" for t
    using assms(1,2) le_trans [OF bspec [OF assms(3)] that] by (simp add: cdf_def at_most_def)
  then show ?thesis using emd_flat [of p M xs 1 ys 1] assms(4) by simp
qed

lemma merge_loop_emd:
  assumes "sorted xs" and "sorted ys" and "xs \<noteq> []" and "ys \<noteq> []" and "\<forall>s \<in> set xs \<union> set ys. s \<le> M"
  shows "loop_inv xs ys i j started p cA cB w \<Longrightarrow> (started \<Longrightarrow> p \<le> M) \<Longrightarrow>
    merge_loop (map real xs) (map real ys) i j started (real p) cA cB w = emd M xs ys"
proof (induction "length xs - i + (length ys - j)" arbitrary: i j started p cA cB w rule: less_induct)
  case less
  show ?case
  proof (cases "i < length xs \<or> j < length ys")
    case True
    from loop_inv_step [OF assms(1,2) True less.prems(1)] obtain x where
      x: "next_x (map real xs) (map real ys) i j = real x" "x \<in> set xs \<union> set ys"
        "loop_inv xs ys (skip (map real xs) i (real x)) (skip (map real ys) j (real x)) True x
          (real (skip (map real xs) i (real x)) / real (length xs))
          (real (skip (map real ys) j (real x)) / real (length ys))
          (if started then w + \<bar>cA - cB\<bar> * (real x - real p) else w)" by blast
    have "length xs - skip (map real xs) i (real x) + (length ys - skip (map real ys) j (real x)) <
        length xs - i + (length ys - j)"
      using merge_progress [of i "map real xs" j "map real ys"] True x(1) by simp
    from less.hyps [OF this x(3)] x(1,2) assms(5) show ?thesis
      by (subst merge_loop.simps) (simp add: Let_def True)
  next
    case False
    then have "started" using less.prems(1) assms(3) by (cases started) (simp_all add: loop_inv_def)
    then have s: "splits xs i p" "splits ys j p" "w = emd p xs ys" using less.prems(1) by (auto simp: loop_inv_def)
    then have "\<forall>s \<in> set xs \<union> set ys. s \<le> p" using False by (auto simp: splits_def in_set_conv_nth)
    then have "w = emd M xs ys" using emd_beyond [OF assms(3,4), of p M] less.prems(2) \<open>started\<close> s(3) by simp
    then show ?thesis using False by (subst merge_loop.simps) simp
  qed
qed

lemma sortedFloats_nat: "sortedFloats x = map real (sort (map unat x))"
proof -
  have "sort (map real (map unat x)) = map real (sort (map unat x))"
    by (rule properties_for_sort) (simp only: mset_map mset_sort, simp add: sorted_map)
  then show ?thesis by (simp add: sortedFloats_def comp_def)
qed

lemma emd_sort: "emd M (sort xs) (sort ys) = emd M xs ys"
proof -
  have "at_most (sort xs) t = at_most xs t" for xs t
    unfolding at_most_def by (metis filter_sort length_sort)
  then show ?thesis by (simp add: emd_def cdf_def)
qed

lemma Wasserstein1_emd:
  assumes "a \<noteq> []" and "b \<noteq> []" and "\<forall>v \<in> set a \<union> set b. unat v \<le> M"
  shows "Wasserstein1 a b = emd M (map unat a) (map unat b)"
proof -
  have ne: "sort xs \<noteq> []" if "xs \<noteq> []" for xs :: "nat list" using that by (metis set_sort set_empty)
  have "merge_loop (map real (sort (map unat a))) (map real (sort (map unat b))) 0 0 False (real 0) 0 0 0 =
      emd M (sort (map unat a)) (sort (map unat b))"
    by (rule merge_loop_emd) (use assms ne in \<open>auto simp: loop_inv_def\<close>)
  then show ?thesis using assms(1,2) by (simp add: Wasserstein1_def sortedFloats_nat emd_sort)
qed

section \<open>Bimodality\<close>

text \<open>\<open>for _, v := range x { acc += ... }\<close> over the reals is a sum.\<close>

definition mean_of :: "u32 list \<Rightarrow> real" where
  "mean_of x = sum_list (map (\<lambda>v. real (unat v)) x) / real (length x)"

definition moment :: "nat \<Rightarrow> u32 list \<Rightarrow> real" where
  "moment k x = sum_list (map (\<lambda>v. (real (unat v) - mean_of x) ^ k) x) / real (length x)"

text \<open>\<open>(v, true)\<close> is \<open>Some v\<close>, \<open>(0, false)\<close> is \<open>None\<close>.\<close>

definition BimodalityCoefficient :: "u32 list \<Rightarrow> real option" where
  "BimodalityCoefficient x =
     (let n = length x in
      if n < 4 then None
      else
        let N = real n; m2 = moment 2 x; m3 = moment 3 x; m4 = moment 4 x
        in if m2 = 0 then None
        else
          let skew = m3 / m2 powr (3/2);
              exKurt = m4 / (m2 * m2) - 3;
              denom = exKurt + 3 * (N - 1) * (N - 1) / ((N - 2) * (N - 3))
          in if denom = 0 then None else Some ((skew * skew + 1) / denom))"

section \<open>A rule's memory\<close>

definition shapeWindow :: nat where "shapeWindow = 30"
definition shapeMinBaseline :: nat where "shapeMinBaseline = 10"
definition shapeDivHistory :: nat where "shapeDivHistory = 60"
definition shapeMinDivs :: nat where "shapeMinDivs = 20"

lemmas shape_limits = shapeWindow_def shapeMinBaseline_def shapeDivHistory_def shapeMinDivs_def

record shapeState =
  ss_samples :: "u32 list list"
  ss_divs :: "real list"

definition new_shapeState :: shapeState where
  "new_shapeState = \<lparr>ss_samples = [], ss_divs = []\<rparr>"

definition pooled :: "shapeState \<Rightarrow> u32 list" where
  "pooled ss = concat (ss_samples ss)"

definition push :: "shapeState \<Rightarrow> u32 list \<Rightarrow> shapeState" where
  "push ss samples =
     (let xs = ss_samples ss @ [samples]
      in ss\<lparr>ss_samples := (if length xs > shapeWindow then drop (length xs - shapeWindow) xs else xs)\<rparr>)"

definition pushDiv :: "shapeState \<Rightarrow> real \<Rightarrow> shapeState" where
  "pushDiv ss d =
     (let xs = ss_divs ss @ [d]
      in ss\<lparr>ss_divs := (if length xs > shapeDivHistory then drop (length xs - shapeDivHistory) xs else xs)\<rparr>)"

definition median :: "real list \<Rightarrow> real" where
  "median x =
     (if x = [] then 0
      else let c = sort x; n = length c
           in if n mod 2 = 1 then c ! (n div 2) else (c ! (n div 2 - 1) + c ! (n div 2)) / 2)"

definition stddev :: "real list \<Rightarrow> real" where
  "stddev x =
     (if length x < 2 then 0
      else let mean = sum_list x / real (length x)
           in sqrt (sum_list (map (\<lambda>v. (v - mean) * (v - mean)) x) / real (length x)))"

definition robustZ :: "real \<Rightarrow> real list \<Rightarrow> real option" where
  "robustZ x hist =
     (if length hist < shapeMinDivs then None
      else
        let med = median hist;
            dev = map (\<lambda>v. \<bar>v - med\<bar>) hist;
            scale = 14826 / 10000 * median dev;
            scale = (if scale = 0 then stddev hist else scale)
        in if scale = 0 then Some 0 else Some ((x - med) / scale))"

text \<open>
  The measure of one interval and the memory after it; \<open>golden\<close> is the captured reference. The
  deferred \<open>push\<close> of the current interval is what the shape metric always ends with.
\<close>

definition shape_value :: "shapeState \<Rightarrow> rule \<Rightarrow> alert_input \<Rightarrow> u32 list \<Rightarrow> shapeState \<times> real option" where
  "shape_value ss r m golden =
     (if r_Metric r = MetricBimodality then (ss, BimodalityCoefficient (in_Samples m))
      else if r_Metric r = MetricShape then
        let base = (if r_Baseline r = BaselineGolden then golden else pooled ss)
        in if in_Samples m = [] \<or> base = [] then (push ss (in_Samples m), None)
           else if r_Baseline r = BaselineRolling \<and> length (ss_samples ss) < shapeMinBaseline
           then (push ss (in_Samples m), None)
           else
             let divMS = Wasserstein1 (in_Samples m) base / 1000
             in if r_Mode r = ModeTunable then (push ss (in_Samples m), Some divMS)
                else (push (pushDiv ss divMS) (in_Samples m), robustZ divMS (ss_divs ss))
      else (ss, None))"

section \<open>The distance is a metric on distributions\<close>

definition all32 :: nat where "all32 = 2 ^ 32"

lemma unat_all32: "unat (v :: u32) < all32"
  unfolding all32_def using unsigned_less [of v, where ?'a = nat] by simp

lemma Wasserstein1_all32:
  "a \<noteq> [] \<Longrightarrow> b \<noteq> [] \<Longrightarrow> Wasserstein1 a b = emd all32 (map unat a) (map unat b)"
  by (rule Wasserstein1_emd) (use unat_all32 less_imp_le in blast)+

lemma emd_sym: "emd M xs ys = emd M ys xs"
  by (simp add: emd_def abs_minus_commute)

lemma emd_nonneg: "0 \<le> emd M xs ys"
  by (simp add: emd_def sum_nonneg)

lemma emd_triangle: "emd M xs zs \<le> emd M xs ys + emd M ys zs"
proof -
  have "(\<Sum>t<M. \<bar>cdf xs t - cdf zs t\<bar>) \<le> (\<Sum>t<M. \<bar>cdf xs t - cdf ys t\<bar> + \<bar>cdf ys t - cdf zs t\<bar>)"
    by (intro sum_mono) linarith
  then show ?thesis by (simp add: emd_def sum.distrib)
qed

lemma emd_zero: "emd M xs ys = 0 \<longleftrightarrow> (\<forall>t<M. cdf xs t = cdf ys t)"
  by (auto simp: emd_def sum_nonneg_eq_0_iff)

text \<open>
  Property C14. The earth-mover distance the merge loop computes is the area between the two
  distribution functions: the sum, over every microsecond up to the largest sample there can be,
  of how far the two fractions of samples at most that long are apart.
\<close>

theorem Wasserstein1_is_area:
  assumes "a \<noteq> []" and "b \<noteq> []"
  shows "Wasserstein1 a b = (\<Sum>t<2 ^ 32.
    \<bar>real (length (filter (\<lambda>v. unat v \<le> t) a)) / real (length a) -
     real (length (filter (\<lambda>v. unat v \<le> t) b)) / real (length b)\<bar>)"
  using Wasserstein1_all32 [OF assms] by (simp add: emd_def cdf_def at_most_def filter_map comp_def all32_def)

theorem Wasserstein1_is_area_witness:
  "Wasserstein1 [3, 1] [2] = (\<Sum>t<2 ^ 32.
    \<bar>real (length (filter (\<lambda>v. unat v \<le> t) [3, 1 :: u32])) / 2 -
     real (length (filter (\<lambda>v. unat v \<le> t) [2 :: u32])) / 1\<bar>)"
  using Wasserstein1_is_area [of "[3, 1]" "[2]"] by simp

lemma Wasserstein1_example: "Wasserstein1 [3, 1] [2] = 1"
  by code_simp

text \<open>
  Further property. The distance is symmetric, satisfies the triangle inequality, is never negative, does
  not depend on the order of the samples, and is zero exactly when both intervals have the same
  distribution, whatever the numbers of their samples.
\<close>

theorem Wasserstein1_metric:
  assumes "a \<noteq> []" and "b \<noteq> []" and "c \<noteq> []"
  shows "Wasserstein1 a b = Wasserstein1 b a \<and> Wasserstein1 a c \<le> Wasserstein1 a b + Wasserstein1 b c \<and>
    0 \<le> Wasserstein1 a b \<and> (mset c = mset a \<longrightarrow> Wasserstein1 c b = Wasserstein1 a b) \<and>
    (Wasserstein1 a b = 0 \<longleftrightarrow> (\<forall>t<2 ^ 32. length (filter (\<lambda>v. unat v \<le> t) a) * length b =
        length (filter (\<lambda>v. unat v \<le> t) b) * length a))"
proof -
  have same: "sortedFloats c = sortedFloats a" if "mset c = mset a"
    unfolding sortedFloats_def using that by (intro properties_for_sort) simp_all
  have frac: "real m / real (length a) = real n / real (length b) \<longleftrightarrow> m * length b = n * length a" for m n
    using assms(1,2) by (simp add: field_simps flip: of_nat_mult)
  have "Wasserstein1 a b = 0 \<longleftrightarrow> (\<forall>t<2 ^ 32. length (filter (\<lambda>v. unat v \<le> t) a) * length b =
        length (filter (\<lambda>v. unat v \<le> t) b) * length a)"
    using Wasserstein1_all32 [OF assms(1,2)]
    by (simp add: emd_zero cdf_def at_most_def filter_map comp_def all32_def frac)
  moreover have "mset c = mset a \<longrightarrow> Wasserstein1 c b = Wasserstein1 a b"
    using assms same by (simp add: Wasserstein1_def)
  ultimately show ?thesis
    using Wasserstein1_all32 [OF assms(1,2)] Wasserstein1_all32 [OF assms(2,1)] Wasserstein1_all32 [OF assms(2,3)]
      Wasserstein1_all32 [OF assms(1,3)] emd_triangle emd_nonneg emd_sym by metis
qed

theorem Wasserstein1_metric_witness: "Wasserstein1 [7, 9] [8] = Wasserstein1 [8] [7, 9]"
  using Wasserstein1_metric [of "[7, 9]" "[8]" "[7, 9]"] by simp

section \<open>The range of the bimodality coefficient\<close>

lemma sum_list_lin: "sum_list (map (\<lambda>x. a * f x + b * g x) xs) = a * sum_list (map f xs) + b * sum_list (map g xs)"
  for a b :: real by (induction xs) (simp_all add: algebra_simps)

lemma sum_list_nonneg_sq: "0 \<le> sum_list (map (\<lambda>x. f x * f x) xs)" for f :: "'a \<Rightarrow> real"
  by (induction xs) simp_all

lemma sum_list_sq_zero: "sum_list (map (\<lambda>x. f x * f x) xs) = 0 \<Longrightarrow> x \<in> set xs \<Longrightarrow> f x = 0" for f :: "'a \<Rightarrow> real"
proof (induction xs)
  case (Cons y ys)
  have "0 \<le> f y * f y" "0 \<le> sum_list (map (\<lambda>x. f x * f x) ys)" by (simp_all add: sum_list_nonneg_sq)
  moreover have "f y * f y + sum_list (map (\<lambda>x. f x * f x) ys) = 0" using Cons.prems(1) by simp
  ultimately have "f y * f y = 0" "sum_list (map (\<lambda>x. f x * f x) ys) = 0" by linarith+
  then show ?case using Cons by auto
qed simp

text \<open>The Cauchy-Schwarz inequality for sums over a list.\<close>

lemma sum_list_cauchy:
  fixes f g :: "'a \<Rightarrow> real"
  shows "(sum_list (map (\<lambda>x. f x * g x) xs))\<^sup>2 \<le>
    sum_list (map (\<lambda>x. f x * f x) xs) * sum_list (map (\<lambda>x. g x * g x) xs)"
proof -
  let ?ff = "sum_list (map (\<lambda>x. f x * f x) xs)" and ?gg = "sum_list (map (\<lambda>x. g x * g x) xs)"
  let ?fg = "sum_list (map (\<lambda>x. f x * g x) xs)"
  have q: "sum_list (map (\<lambda>x. (u * f x - v * g x) * (u * f x - v * g x)) xs) =
      u * u * ?ff - 2 * u * v * ?fg + v * v * ?gg" for u v
    by (induction xs) (simp_all add: algebra_simps)
  show ?thesis
  proof (cases "?gg = 0")
    case True
    then have "?fg = 0" using sum_list_sq_zero [OF True] by (induction xs) (simp_all add: sum_list_nonneg_sq add_nonneg_eq_0_iff)
    then show ?thesis using True by simp
  next
    case False
    have "0 \<le> ?gg * ?gg * ?ff - 2 * ?gg * ?fg * ?fg + ?fg * ?fg * ?gg"
      using q [of ?gg ?fg] sum_list_nonneg_sq [of "\<lambda>x. ?gg * f x - ?fg * g x" xs] by simp
    then have "0 \<le> ?gg * (?gg * ?ff - ?fg * ?fg)" by (simp add: algebra_simps)
    moreover have "0 < ?gg" using False sum_list_nonneg_sq [of g xs] by simp
    ultimately have "0 \<le> ?gg * ?ff - ?fg * ?fg" by (simp add: zero_le_mult_iff)
    then show ?thesis by (simp add: power2_eq_square mult.commute)
  qed
qed

text \<open>The second, third and fourth central moments: \<open>m3\<^sup>2 + m2\<^sup>3 \<le> m4 m2\<close>.\<close>

definition dev :: "u32 list \<Rightarrow> u32 \<Rightarrow> real" where
  "dev x v = real (unat v) - mean_of x"

lemma moment_dev: "moment k x = sum_list (map (\<lambda>v. dev x v ^ k) x) / real (length x)"
  by (simp add: moment_def dev_def)

lemma moment_0: "x \<noteq> [] \<Longrightarrow> moment 0 x = 1"
  by (simp add: moment_def sum_list_triv)

lemma moment_1: "x \<noteq> [] \<Longrightarrow> moment 1 x = 0"
proof -
  assume "x \<noteq> []"
  have "sum_list (map (\<lambda>v. f v - c) ys) = sum_list (map f ys) - real (length ys) * c" for f :: "u32 \<Rightarrow> real" and c ys
    by (induction ys) (simp_all add: algebra_simps)
  then show ?thesis using \<open>x \<noteq> []\<close> by (simp add: moment_def) (simp add: mean_of_def)
qed

lemma moment_even_nonneg: "even k \<Longrightarrow> 0 \<le> moment k x"
  unfolding moment_def by (intro divide_nonneg_nonneg sum_list_nonneg) auto

lemma moments_pearson:
  assumes "x \<noteq> []"
  shows "(moment 3 x)\<^sup>2 + (moment 2 x) ^ 3 \<le> moment 4 x * moment 2 x"
proof -
  let ?N = "real (length x)" and ?m = "moment 2 x"
  let ?S = "\<lambda>k. sum_list (map (\<lambda>v. dev x v ^ k) x)"
  have N: "0 < ?N" using assms by simp
  have S: "?S k = ?N * moment k x" for k using N by (simp add: moment_dev)
  have "sum_list (map (\<lambda>v. dev x v * (dev x v ^ 2 - ?m)) x) = ?S 3 - ?m * ?S 1"
    using sum_list_lin [of 1 "\<lambda>v. dev x v ^ 3" "- ?m" "\<lambda>v. dev x v ^ 1" x] by (simp add: algebra_simps power3_eq_cube power2_eq_square)
  then have a: "sum_list (map (\<lambda>v. dev x v * (dev x v ^ 2 - ?m)) x) = ?N * moment 3 x"
    using moment_1 [OF assms] S [of 1] S [of 3] by simp
  have "sum_list (map (\<lambda>v. (dev x v ^ 2 - ?m) * (dev x v ^ 2 - ?m)) ys) =
      sum_list (map (\<lambda>v. dev x v ^ 4) ys) - 2 * ?m * sum_list (map (\<lambda>v. dev x v ^ 2) ys) + real (length ys) * (?m * ?m)" for ys
    by (induction ys) (simp_all add: algebra_simps power2_eq_square power4_eq_xxxx)
  from this [of x] have b: "sum_list (map (\<lambda>v. (dev x v ^ 2 - ?m) * (dev x v ^ 2 - ?m)) x) = ?N * (moment 4 x - ?m * ?m)"
    by (simp add: S algebra_simps)
  have c: "sum_list (map (\<lambda>v. dev x v * dev x v) x) = ?N * ?m" using S [of 2] by (simp add: power2_eq_square)
  have "(?N * moment 3 x)\<^sup>2 \<le> ?N * ?m * (?N * (moment 4 x - ?m * ?m))"
    using sum_list_cauchy [of "dev x" "\<lambda>v. dev x v ^ 2 - ?m" x] unfolding a b c .
  then have "(?N * ?N) * (moment 3 x)\<^sup>2 \<le> (?N * ?N) * (?m * (moment 4 x - ?m * ?m))"
    by (simp add: power2_eq_square algebra_simps)
  then have "(moment 3 x)\<^sup>2 \<le> ?m * (moment 4 x - ?m * ?m)" using N by (simp add: mult_le_cancel_left_pos)
  then show ?thesis by (simp add: algebra_simps power3_eq_cube)
qed

lemma moment_2_zero:
  assumes "x \<noteq> []"
  shows "moment 2 x = 0 \<longleftrightarrow> (\<exists>v. \<forall>w \<in> set x. w = v)"
proof
  assume "moment 2 x = 0"
  then have z: "sum_list (map (\<lambda>v. dev x v * dev x v) x) = 0" using assms by (simp add: moment_dev power2_eq_square)
  have "real (unat w) = mean_of x" if "w \<in> set x" for w
    using sum_list_sq_zero [OF z that] by (simp add: dev_def)
  moreover from assms obtain v where "v \<in> set x" by (cases x) auto
  ultimately have "\<forall>w \<in> set x. w = v" by (metis of_nat_eq_iff word_unat_eq_iff)
  then show "\<exists>v. \<forall>w \<in> set x. w = v" by blast
next
  assume "\<exists>v. \<forall>w \<in> set x. w = v"
  then obtain v where v: "\<forall>w \<in> set x. w = v" by blast
  then have "map (\<lambda>v. f v) x = map (\<lambda>_. f v) x" for f :: "u32 \<Rightarrow> real" by (intro map_cong) auto
  then have "sum_list (map f x) = real (length x) * f v" for f :: "u32 \<Rightarrow> real"
    by (metis sum_list_triv)
  then have "mean_of x = real (unat v)" "moment 2 x = (real (unat v) - mean_of x)\<^sup>2"
    using assms by (simp_all add: mean_of_def moment_def)
  then show "moment 2 x = 0" by simp
qed

text \<open>With a positive spread the denominator exceeds both one and the numerator.\<close>

lemma bimodality_denom:
  assumes "4 \<le> length x" and "moment 2 x \<noteq> 0"
  defines "N \<equiv> real (length x)"
  defines "skew \<equiv> moment 3 x / moment 2 x powr (3/2)"
  defines "denom \<equiv> moment 4 x / (moment 2 x * moment 2 x) - 3 + 3 * (N - 1) * (N - 1) / ((N - 2) * (N - 3))"
  shows "skew * skew + 1 < denom"
proof -
  let ?m = "moment 2 x"
  have m: "0 < ?m" using assms(2) moment_even_nonneg [of 2 x] by simp
  have ne: "x \<noteq> []" using assms(1) by auto
  have "?m powr (3/2) * ?m powr (3/2) = ?m ^ 3"
    using m by (simp flip: powr_add add: powr_numeral)
  then have "skew * skew = (moment 3 x)\<^sup>2 / ?m ^ 3" by (simp add: skew_def power2_eq_square)
  moreover have "((moment 3 x)\<^sup>2 + ?m ^ 3) / ?m ^ 3 \<le> moment 4 x * ?m / ?m ^ 3"
    using moments_pearson [OF ne] m by (intro divide_right_mono) auto
  ultimately have "skew * skew + 1 \<le> moment 4 x / (?m * ?m)"
    using m by (simp add: add_divide_distrib power3_eq_cube)
  moreover have "3 < 3 * (N - 1) * (N - 1) / ((N - 2) * (N - 3))"
  proof -
    have N: "4 \<le> N" using assms(1) by (simp add: N_def)
    then have "(N - 2) * (N - 3) < (N - 1) * (N - 1)" by (simp add: algebra_simps)
    then have "3 * ((N - 2) * (N - 3)) < 3 * (N - 1) * (N - 1)" by (simp add: algebra_simps)
    moreover have "0 < (N - 2) * (N - 3)" using N by simp
    ultimately show ?thesis by (simp only: pos_less_divide_eq)
  qed
  ultimately show ?thesis by (simp add: denom_def)
qed

text \<open>
  Further property. The bimodality coefficient is defined exactly for four or more samples that are not
  all the same (its third exit, a zero denominator, is never taken), and it then lies strictly
  between 0 and 1.
\<close>

theorem bimodality_range:
  "(BimodalityCoefficient x = None \<longleftrightarrow> length x < 4 \<or> (\<exists>v. \<forall>w \<in> set x. w = v)) \<and>
   (\<forall>b. BimodalityCoefficient x = Some b \<longrightarrow> 0 < b \<and> b < 1)"
proof (cases "length x < 4 \<or> moment 2 x = 0")
  case True
  then show ?thesis using moment_2_zero [of x] by (cases "x = []") (auto simp: BimodalityCoefficient_def Let_def)
next
  case False
  then have ne: "x \<noteq> []" by auto
  let ?N = "real (length x)" and ?s = "moment 3 x / moment 2 x powr (3/2)"
  let ?d = "moment 4 x / (moment 2 x * moment 2 x) - 3 + 3 * (?N - 1) * (?N - 1) / ((?N - 2) * (?N - 3))"
  have d: "?s * ?s + 1 < ?d" using bimodality_denom [of x] False by simp
  moreover have s: "0 < ?s * ?s + 1" by (smt (verit) zero_le_square)
  ultimately have pos: "0 < ?d" by (rule less_trans [rotated])
  then have "BimodalityCoefficient x = Some ((?s * ?s + 1) / ?d)"
    using False by (simp add: BimodalityCoefficient_def Let_def)
  moreover have "0 < (?s * ?s + 1) / ?d" using s pos by (rule divide_pos_pos)
  moreover have "(?s * ?s + 1) / ?d < 1" using d pos by simp
  ultimately show ?thesis using moment_2_zero [OF ne] False by auto
qed

theorem bimodality_range_witness: "\<exists>b. BimodalityCoefficient [1, 1, 9, 9] = Some b \<and> 0 < b \<and> b < 1"
proof -
  have "BimodalityCoefficient [1, 1, 9, 9] \<noteq> None" using bimodality_range [of "[1, 1, 9, 9]"] by auto
  then show ?thesis using bimodality_range [of "[1, 1, 9, 9]"] by auto
qed

text \<open>A positive scaling and a shift of the samples leave the coefficient as it is.\<close>

lemma moment_affine:
  assumes "x \<noteq> []" and "\<forall>v \<in> set x. real (unat (g v)) = a * real (unat v) + c"
  shows "moment k (map g x) = a ^ k * moment k x"
proof -
  have "map (\<lambda>v. real (unat (g v))) x = map (\<lambda>v. a * real (unat v) + c * 1) x" using assms(2) by (intro map_cong) auto
  then have "sum_list (map (\<lambda>v. real (unat (g v))) x) = a * sum_list (map (\<lambda>v. real (unat v)) x) + c * real (length x)"
    using sum_list_lin [of a "\<lambda>v. real (unat v)" c "\<lambda>_. 1" x] by (simp only: sum_list_triv)
  then have m: "mean_of (map g x) = a * mean_of x + c"
    using assms(1) by (simp add: mean_of_def comp_def add_divide_distrib)
  have "sum_list (map (\<lambda>v. (real (unat (g v)) - mean_of (map g x)) ^ k) x) =
      sum_list (map (\<lambda>v. a ^ k * (real (unat v) - mean_of x) ^ k) x)"
    using assms(2) by (intro arg_cong [where f = sum_list] map_cong)
      (simp_all add: m power_mult_distrib flip: right_diff_distrib)
  then show ?thesis by (simp add: moment_def comp_def sum_list_const_mult)
qed

theorem bimodality_invariant:
  assumes "\<forall>v \<in> set x. real (unat (g v)) = a * real (unat v) + c" and "0 < a"
  shows "BimodalityCoefficient (map g x) = BimodalityCoefficient x"
proof (cases "length x < 4 \<or> moment 2 x = 0")
  case True
  then show ?thesis
    using moment_affine [OF _ assms(1)] by (cases "x = []") (auto simp: BimodalityCoefficient_def Let_def)
next
  case False
  then have ne: "x \<noteq> []" and pos: "0 < moment 2 x" using moment_even_nonneg [of 2 x] by (auto simp: less_le)
  note m = moment_affine [OF ne assms(1)]
  have "(a\<^sup>2 * moment 2 x) powr (3/2) = (a\<^sup>2) powr (3/2) * moment 2 x powr (3/2)"
    by (rule powr_mult)
  also have "(a\<^sup>2) powr (3/2) = a ^ 3" using assms(2) by (simp add: powr_powr flip: powr_numeral)
  finally have "moment 3 (map g x) / moment 2 (map g x) powr (3/2) = moment 3 x / moment 2 x powr (3/2)"
    using assms(2) by (simp add: m)
  moreover have "moment 4 (map g x) / (moment 2 (map g x) * moment 2 (map g x)) = moment 4 x / (moment 2 x * moment 2 x)"
    using assms(2) by (simp add: m power2_eq_square power4_eq_xxxx)
  moreover have "moment 2 (map g x) = 0 \<longleftrightarrow> moment 2 x = 0" using assms(2) by (simp add: m)
  ultimately show ?thesis by (simp add: BimodalityCoefficient_def Let_def)
qed

section \<open>The memory of a shape rule\<close>

fun shape_run :: "rule \<Rightarrow> shapeState \<Rightarrow> (alert_input \<times> u32 list) list \<Rightarrow> shapeState \<times> real option list" where
  "shape_run r ss [] = (ss, [])"
| "shape_run r ss ((m, golden) # ins) =
     (let (ss1, v) = shape_value ss r m golden; (ss2, vs) = shape_run r ss1 ins in (ss2, v # vs))"

definition newest :: "nat \<Rightarrow> 'a list \<Rightarrow> 'a list" where
  "newest n xs = drop (length xs - n) xs"

lemma newest_snoc: "newest n (newest n xs @ [x]) = newest n (xs @ [x])"
  by (cases "length xs \<le> n") (auto simp: newest_def Suc_diff_le)

lemma length_newest [simp]: "length (newest n xs) = min n (length xs)"
  by (auto simp: newest_def)

lemma push_newest: "ss_samples (push ss s) = newest shapeWindow (ss_samples ss @ [s])"
  by (simp add: push_def newest_def Let_def)

lemma pushDiv_newest: "ss_divs (pushDiv ss d) = newest shapeDivHistory (ss_divs ss @ [d])"
  by (simp add: pushDiv_def newest_def Let_def)

lemma push_frame [simp]: "ss_divs (push ss s) = ss_divs ss" "ss_samples (pushDiv ss d) = ss_samples ss"
  by (simp_all add: push_def pushDiv_def Let_def)

text \<open>
  After \<open>hist\<close> intervals: the newest 30 are pooled, and no more distances are known than there were
  intervals past the warm-up of a rolling baseline, nor more than 60.
\<close>

definition memory_inv :: "rule \<Rightarrow> u32 list list \<Rightarrow> shapeState \<Rightarrow> bool" where
  "memory_inv r hist ss \<longleftrightarrow> ss_samples ss = newest shapeWindow hist \<and> length (ss_divs ss) \<le> shapeDivHistory \<and>
     length (ss_divs ss) \<le> length hist - (if r_Baseline r = BaselineRolling then shapeMinBaseline else 0)"

lemma shape_value_memory [invariants]:
  assumes "r_Metric r = MetricShape" and "memory_inv r hist ss" and "shape_value ss r m golden = (ss', v)"
  shows "memory_inv r (hist @ [in_Samples m]) ss'"
    and "v \<noteq> None \<Longrightarrow> (r_Baseline r = BaselineRolling \<longrightarrow> shapeMinBaseline \<le> length hist) \<and>
      (r_Mode r \<noteq> ModeTunable \<longrightarrow> shapeMinDivs \<le> length (ss_divs ss))"
proof -
  have s: "ss_samples ss = newest shapeWindow hist" and d: "length (ss_divs ss) \<le> shapeDivHistory"
    "length (ss_divs ss) \<le> length hist - (if r_Baseline r = BaselineRolling then shapeMinBaseline else 0)"
    using assms(2) by (auto simp: memory_inv_def)
  have c: "length (ss_samples ss) < shapeMinBaseline \<longleftrightarrow> length hist < shapeMinBaseline"
    using s by (auto simp: shape_limits)
  have dv: "length (ss_divs (pushDiv ss x)) \<le> min shapeDivHistory (Suc (length (ss_divs ss)))" for x
    by (simp add: pushDiv_newest)
  show "memory_inv r (hist @ [in_Samples m]) ss'"
    using assms(1,3) s d c dv [of "Wasserstein1 (in_Samples m) (if r_Baseline r = BaselineGolden then golden else pooled ss) / 1000"]
    by (auto simp: shape_value_def memory_inv_def push_newest newest_snoc Let_def split: if_splits)
  show "v \<noteq> None \<Longrightarrow> (r_Baseline r = BaselineRolling \<longrightarrow> shapeMinBaseline \<le> length hist) \<and>
      (r_Mode r \<noteq> ModeTunable \<longrightarrow> shapeMinDivs \<le> length (ss_divs ss))"
    using assms(1,3) c by (auto simp: shape_value_def robustZ_def Let_def split: if_splits)
qed

lemma shape_run_memory:
  assumes "r_Metric r = MetricShape"
  shows "memory_inv r hist ss \<Longrightarrow> shape_run r ss ins = (ss', vs) \<Longrightarrow>
    memory_inv r (hist @ map (in_Samples \<circ> fst) ins) ss' \<and> length vs = length ins \<and>
    (\<forall>k < length ins. vs ! k \<noteq> None \<longrightarrow>
      (r_Baseline r = BaselineRolling \<longrightarrow> shapeMinBaseline \<le> length hist + k) \<and>
      (r_Mode r \<noteq> ModeTunable \<longrightarrow> shapeMinDivs \<le>
        length hist + k - (if r_Baseline r = BaselineRolling then shapeMinBaseline else 0)))"
proof (induction ins arbitrary: hist ss ss' vs)
  case (Cons ob ins)
  obtain m golden where ob: "ob = (m, golden)" by (cases ob)
  obtain ss1 v where v: "shape_value ss r m golden = (ss1, v)" by (cases "shape_value ss r m golden")
  obtain ss2 ws where w: "shape_run r ss1 ins = (ss2, ws)" by (cases "shape_run r ss1 ins")
  from Cons.prems(2) have e: "vs = v # ws" "ss' = ss2" by (auto simp: ob v w)
  note IH = Cons.IH [OF shape_value_memory(1) [OF assms Cons.prems(1) v] w]
  have h: "v \<noteq> None \<Longrightarrow> (r_Baseline r = BaselineRolling \<longrightarrow> shapeMinBaseline \<le> length hist) \<and>
      (r_Mode r \<noteq> ModeTunable \<longrightarrow> shapeMinDivs \<le>
        length hist - (if r_Baseline r = BaselineRolling then shapeMinBaseline else 0))"
    using shape_value_memory(2) [OF assms Cons.prems(1) v] Cons.prems(1) unfolding memory_inv_def by linarith
  have "(vs ! k \<noteq> None \<longrightarrow>
      (r_Baseline r = BaselineRolling \<longrightarrow> shapeMinBaseline \<le> length hist + k) \<and>
      (r_Mode r \<noteq> ModeTunable \<longrightarrow> shapeMinDivs \<le>
        length hist + k - (if r_Baseline r = BaselineRolling then shapeMinBaseline else 0)))" if "k < length (ob # ins)" for k
    using that h IH by (cases k) (auto simp: e)
  then show ?case using IH by (simp add: e ob)
qed (simp add: memory_inv_def)

text \<open>
  Further property. A shape rule's memory is bounded and is what the constants say: after any intervals
  exactly the newest 30 are pooled and at most 60 distances are kept, and no value is produced
  before its warm-up is over: 10 intervals for a rolling baseline, 20 distances for the automatic
  mode, so 30 intervals when both apply.
\<close>

theorem shape_warm_up:
  assumes "r_Metric r = MetricShape" and "shape_run r new_shapeState ins = (ss, vs)"
  shows "ss_samples ss = newest 30 (map (in_Samples \<circ> fst) ins) \<and> length (ss_divs ss) \<le> 60 \<and>
    (\<forall>k < length ins. vs ! k \<noteq> None \<longrightarrow>
      (r_Baseline r = BaselineRolling \<longrightarrow> 10 \<le> k) \<and> (r_Mode r \<noteq> ModeTunable \<longrightarrow> 20 \<le> k) \<and>
      (r_Baseline r = BaselineRolling \<and> r_Mode r \<noteq> ModeTunable \<longrightarrow> 30 \<le> k))"
proof -
  have "memory_inv r [] new_shapeState" by (simp add: memory_inv_def new_shapeState_def newest_def)
  from shape_run_memory [OF assms(1) this assms(2)] show ?thesis
    by (auto simp: memory_inv_def shape_limits)
qed

definition example_shape_rule :: rule where
  "example_shape_rule = \<lparr>r_ID = 1, r_TargetID = 7, r_Name = ''drift'', r_Metric = MetricShape, r_Op = OpGreater,
     r_Threshold = Fin 3, r_For = 1, r_ClearFor = 1, r_Enabled = True, r_Mode = ModeAuto,
     r_Baseline = BaselineRolling, r_Severity = SeverityWarning\<rparr>"

definition example_interval :: alert_input where
  "example_interval = \<lparr>in_TargetID = 7, in_AgentID = 0, in_TS = 60, in_Sent = 2, in_Received = 2,
     in_Samples = [1000, 2000], in_LossTrusted = True, in_RTTTrusted = True\<rparr>"

theorem shape_warm_up_witness:
  "ss_samples (fst (shape_run example_shape_rule new_shapeState [(example_interval, [])])) = [[1000, 2000]]"
proof -
  let ?r = "shape_run example_shape_rule new_shapeState [(example_interval, [])]"
  have "?r = (fst ?r, snd ?r)" by simp
  from shape_warm_up [OF _ this] show ?thesis
    by (simp add: example_shape_rule_def example_interval_def newest_def del: shape_run.simps)
qed

end
