(* ===== verification/SeriesNames.thy ===== *)
theory SeriesNames
  imports Prelude
begin

text \<open>
  The names of the extra per-packet series and the \<open>graph_series\<close> setting that selects which
  are drawn, \<open>internal/series/series.go\<close>.
\<close>

definition IPDVSend :: string where "IPDVSend = ''ipdv_send''"
definition IPDVReceive :: string where "IPDVReceive = ''ipdv_receive''"
definition ServerProcessing :: string where "ServerProcessing = ''server_processing''"

definition series_All :: "string list" where
  "series_All = [IPDVSend, IPDVReceive, ServerProcessing]"

definition series_Valid :: "string \<Rightarrow> bool" where
  "series_Valid name \<longleftrightarrow> name \<in> set series_All"

definition SelectAll :: string where "SelectAll = ''all''"

datatype selection_error = UnknownSeries string | ListedTwice string

fun selection_loop :: "string list \<Rightarrow> string list \<Rightarrow> selection_error + string list" where
  "selection_loop names [] = Inr names"
| "selection_loop names (f # fs) =
     (if \<not> series_Valid f then Inl (UnknownSeries f)
      else if f \<in> set names then Inl (ListedTwice f)
      else selection_loop (names @ [f]) fs)"

text \<open>
  The set \<open>seen\<close> of the source always holds exactly the names appended so far, so membership in
  \<open>names\<close> stands for it. The result is the list and the flag \<open>all\<close>.
\<close>

definition ParseSelection :: "string \<Rightarrow> selection_error + (string list \<times> bool)" where
  "ParseSelection s =
     (let v = trim_space s
      in if v = SelectAll then Inr ([], True)
      else if v = [] then Inr ([], False)
      else rbind (selection_loop [] (fields v)) (\<lambda>names. Inr (names, False)))"

lemma selection_loop_Inr:
  "selection_loop names fs = Inr xs \<longleftrightarrow>
    xs = names @ fs \<and> list_all series_Valid fs \<and> distinct fs \<and> set names \<inter> set fs = {}"
  by (induction names fs rule: selection_loop.induct) auto

lemma series_Valid_word: "series_Valid f \<Longrightarrow> is_word f"
  by (auto simp: series_Valid_def series_All_def IPDVSend_def IPDVReceive_def ServerProcessing_def
      is_word_def is_space_def)

lemma SelectAll_not_Valid: "\<not> series_Valid SelectAll"
  by (simp add: series_Valid_def series_All_def IPDVSend_def IPDVReceive_def ServerProcessing_def SelectAll_def)

lemma fields_word: "is_word w \<Longrightarrow> fields w = [w]"
  using fields_join [of "[w]"] by simp

lemma ParseSelection_join:
  assumes "list_all series_Valid names" and "distinct names"
  shows "ParseSelection (join '' '' names) = Inr (names, False)"
proof -
  have words: "list_all is_word names"
    using assms(1) series_Valid_word by (simp add: list_all_iff)
  have "join '' '' names \<noteq> SelectAll"
  proof
    assume "join '' '' names = SelectAll"
    then have "fields SelectAll = names" using fields_join [OF words] by simp
    moreover have "fields SelectAll = [SelectAll]"
      by (rule fields_word) (simp add: SelectAll_def is_word_def is_space_def)
    ultimately show False using assms(1) SelectAll_not_Valid by auto
  qed
  moreover have "join '' '' names = [] \<Longrightarrow> names = []"
    using fields_join [OF words] by (simp add: fields_def)
  moreover have "selection_loop [] names = Inr names"
    using assms by (simp add: selection_loop_Inr)
  ultimately show ?thesis
    by (auto simp: ParseSelection_def Let_def trim_space_join [OF words] fields_join [OF words])
qed

lemma ParseSelection_sound:
  "ParseSelection s = Inr (names, allp) \<Longrightarrow>
    list_all series_Valid names \<and> distinct names \<and> (allp \<longrightarrow> names = [])"
  by (auto simp: ParseSelection_def Let_def selection_loop_Inr result_simps split: if_splits)

section \<open>Properties\<close>

text \<open>
  Further property. A \<open>graph_series\<close> setting means what it says. Writing any list of distinct known
  series names separated by spaces and reading it back gives that very list; a setting that is
  accepted at all selects known series only, none twice, and \<open>all\<close> never comes with a list.
\<close>

theorem ParseSelection_roundtrip:
  "(list_all series_Valid names \<and> distinct names \<longrightarrow> ParseSelection (join '' '' names) = Inr (names, False)) \<and>
   (\<forall>chosen allp. ParseSelection s = Inr (chosen, allp) \<longrightarrow>
      list_all series_Valid chosen \<and> distinct chosen \<and> (allp \<longrightarrow> chosen = []))"
  using ParseSelection_join ParseSelection_sound by blast

theorem ParseSelection_roundtrip_witness:
  "ParseSelection (join '' '' [ServerProcessing, IPDVSend]) = Inr ([ServerProcessing, IPDVSend], False) \<and>
   list_all series_Valid [ServerProcessing, IPDVSend]"
  using ParseSelection_roundtrip [of "[ServerProcessing, IPDVSend]" "[]"]
  by (simp add: series_Valid_def series_All_def IPDVSend_def ServerProcessing_def)
end
