(* ===== verification/TargetTree.thy ===== *)
theory TargetTree
  imports SeriesNames "HOL-Library.Multiset"
begin

text \<open>
  The target tree with inheritance, \<open>internal/tree/tree.go\<close>. A \<open>Target\<close> and its \<open>Settings\<close> are
  records, a \<open>nil\<close> pointer field is \<open>None\<close>. A \<open>Tree\<close> is the list of its nodes, looked up by id as
  the source's map is; the loops of \<open>New\<close> over that map, whose order Go leaves open, run in an order
  that is a parameter. The lemmas show what \<open>New\<close> accepts, that the order does not matter to it,
  that on an accepted tree \<open>Resolve\<close> and \<open>Path\<close> always succeed, that each effective value is that
  of the nearest ancestor that sets it, and that a path identifies a node.
\<close>

section \<open>Targets\<close>

record settings =
  IntervalS :: "int option"
  PingsPerInterval :: "int option"
  ProbeMode :: "string option"
  BurstGapMS :: "int option"
  TimeoutMS :: "int option"
  PacketSize :: "int option"
  DSCP :: "int option"
  Agents :: "string option"
  ProbeType :: "string option"
  ProbePort :: "int option"
  DNSQuery :: "string option"
  DNSRRType :: "string option"
  HTTPPath :: "string option"
  TLSSkipVerify :: "bool option"
  TraceIntervalS :: "int option"
  RetentionS :: "int option"
  GraphSeries :: "string option"

record target =
  t_ID :: int
  t_ParentID :: "int option"
  t_Name :: string
  t_Host :: "string option"
  t_AddressFamily :: "string option"
  t_Title :: "string option"
  t_Notes :: "string option"
  t_Hidden :: bool
  t_Enabled :: bool
  t_SortOrder :: int
  t_Settings :: settings

datatype tree_error =
    DuplicateID int | MultipleRoots int int | NoRoot | IncompleteRoot int
  | MissingParent int int | CycleAt int | UnknownTarget int
  | DuplicateSibling string int | AtTarget int string tree_error
  | NameRequired | NameSlash string | HostFamilyTogether | BadFamily string | BadProbeMode string
  | IntervalPositive | PingsRange | BurstGapNegative | TimeoutPositive | TimeoutTooLong
  | PacketSizeRange | DSCPRange | BadProbeType string | PortRange | BadRRType string
  | AgentsBlank | BadGraphSeries selection_error | TraceNegative | RetentionNegative
  | DoesNotFit int int int

text \<open>\<open>bad p v\<close> is \<open>v != nil && p(*v)\<close>.\<close>

definition bad :: "('a \<Rightarrow> bool) \<Rightarrow> 'a option \<Rightarrow> bool" where
  "bad p v = (case v of None \<Rightarrow> False | Some x \<Rightarrow> p x)"

lemma bad_simps [simp]: "bad p None = False" "bad p (Some x) = p x"
  by (simp_all add: bad_def)

definition probe_types :: "string list" where
  "probe_types = [''icmp'', ''dns'', ''tcp'', ''http'', ''https'', ''irtt'']"

definition rr_types :: "string list" where
  "rr_types = [''A'', ''AAAA'', ''CNAME'', ''MX'', ''NS'', ''PTR'', ''SOA'', ''SRV'', ''TXT'']"

definition Settings_Validate :: "settings \<Rightarrow> tree_error + unit" where
  "Settings_Validate s =
     rbind (check (bad (\<lambda>m. m \<noteq> ''burst'' \<and> m \<noteq> ''spread'') (ProbeMode s)) (BadProbeMode (the (ProbeMode s)))) (\<lambda>_.
     rbind (check (bad (\<lambda>i. i \<le> 0) (IntervalS s)) IntervalPositive) (\<lambda>_.
     rbind (check (bad (\<lambda>p. p \<le> 0 \<or> p > 65535) (PingsPerInterval s)) PingsRange) (\<lambda>_.
     rbind (check (bad (\<lambda>g. g < 0) (BurstGapMS s)) BurstGapNegative) (\<lambda>_.
     rbind (check (bad (\<lambda>t. t \<le> 0) (TimeoutMS s)) TimeoutPositive) (\<lambda>_.
     rbind (check (bad (\<lambda>t. t > 600000) (TimeoutMS s)) TimeoutTooLong) (\<lambda>_.
     rbind (check (bad (\<lambda>p. p < 12 \<or> p > 65000) (PacketSize s)) PacketSizeRange) (\<lambda>_.
     rbind (check (bad (\<lambda>d. d < 0 \<or> d > 63) (DSCP s)) DSCPRange) (\<lambda>_.
     rbind (check (bad (\<lambda>t. t \<notin> set probe_types) (ProbeType s)) (BadProbeType (the (ProbeType s)))) (\<lambda>_.
     rbind (check (bad (\<lambda>p. p < 1 \<or> p > 65535) (ProbePort s)) PortRange) (\<lambda>_.
     rbind (check (bad (\<lambda>r. to_upper r \<notin> set rr_types) (DNSRRType s)) (BadRRType (the (DNSRRType s)))) (\<lambda>_.
     rbind (check (bad (\<lambda>a. trim_space a = []) (Agents s)) AgentsBlank) (\<lambda>_.
     rbind (case GraphSeries s of None \<Rightarrow> Inr ()
            | Some g \<Rightarrow> (case ParseSelection g of Inl e \<Rightarrow> Inl (BadGraphSeries e) | Inr _ \<Rightarrow> Inr ())) (\<lambda>_.
     rbind (check (bad (\<lambda>t. t < 0) (TraceIntervalS s)) TraceNegative) (\<lambda>_.
       check (bad (\<lambda>r. r < 0) (RetentionS s)) RetentionNegative))))))))))))))"

definition Target_Validate :: "target \<Rightarrow> tree_error + unit" where
  "Target_Validate t =
     rbind (check (trim_space (t_Name t) = [] \<and> t_ParentID t \<noteq> None) NameRequired) (\<lambda>_.
     rbind (check (CHR 0x2F \<in> set (t_Name t)) (NameSlash (t_Name t))) (\<lambda>_.
     rbind (check ((t_Host t = None) \<noteq> (t_AddressFamily t = None)) HostFamilyTogether) (\<lambda>_.
     rbind (check (bad (\<lambda>f. f \<noteq> ''v4'' \<and> f \<noteq> ''v6'') (t_AddressFamily t)) (BadFamily (the (t_AddressFamily t)))) (\<lambda>_.
       Settings_Validate (t_Settings t)))))"

section \<open>The tree\<close>

record tree =
  t_nodes :: "target list"
  t_root :: target

definition node_at :: "target list \<Rightarrow> int \<Rightarrow> target option" where
  "node_at ns i = map_of (map (\<lambda>n. (t_ID n, n)) ns) i"

definition Get :: "tree \<Rightarrow> int \<Rightarrow> target option" where
  "Get t i = node_at (t_nodes t) i"

text \<open>
  \<open>ancestryOf\<close>: the chain from a node to the root, self first. The guard on the length of the chain
  makes the loop end on a cycle; it is the measure of the recursion.
\<close>

function ancestry_loop :: "target list \<Rightarrow> target \<Rightarrow> target list \<Rightarrow> target \<Rightarrow> tree_error + target list" where
  "ancestry_loop ns n chain cur =
     (case t_ParentID cur of
        None \<Rightarrow> Inr chain
      | Some p \<Rightarrow>
        (case node_at ns p of
           None \<Rightarrow> Inl (MissingParent (t_ID cur) p)
         | Some nxt \<Rightarrow>
             if length chain > length ns then Inl (CycleAt (t_ID n))
             else ancestry_loop ns n (chain @ [nxt]) nxt))"
  by pat_completeness auto
termination
  by (relation "measure (\<lambda>(ns, n, chain, cur). Suc (length ns) - length chain)") auto

declare ancestry_loop.simps [simp del]

definition ancestryOf :: "target list \<Rightarrow> target \<Rightarrow> tree_error + target list" where
  "ancestryOf ns n = ancestry_loop ns n [n] n"

definition path_string :: "target list \<Rightarrow> string" where
  "path_string chain = ''/'' @ join ''/'' (rev (map t_Name (butlast chain)))"

definition Path :: "target list \<Rightarrow> int \<Rightarrow> tree_error + string" where
  "Path ns i =
     (case node_at ns i of
        None \<Rightarrow> Inl (UnknownTarget i)
      | Some n \<Rightarrow> rbind (ancestryOf ns n) (\<lambda>chain. Inr (path_string chain)))"

section \<open>Resolution\<close>

record source =
  src_ID :: int
  src_Name :: string
  src_Path :: string

record 'a setting_value =
  v_Local :: "'a option"
  v_Effective :: 'a
  v_Source :: source

text \<open>
  \<open>resolve\<close> takes the zero value of the type, which Go supplies where no node sets the field, and
  the setting as a function of the settings.
\<close>

fun resolve_loop :: "target list \<Rightarrow> 'a option \<Rightarrow> (settings \<Rightarrow> 'a option) \<Rightarrow> 'a \<Rightarrow> target list \<Rightarrow> 'a setting_value" where
  "resolve_loop ns lo get zero [] =
     \<lparr>v_Local = lo, v_Effective = zero, v_Source = \<lparr>src_ID = 0, src_Name = '''', src_Path = ''''\<rparr>\<rparr>"
| "resolve_loop ns lo get zero (n # chain) =
     (case get (t_Settings n) of
        Some v \<Rightarrow>
          \<lparr>v_Local = lo, v_Effective = v,
           v_Source = \<lparr>src_ID = t_ID n, src_Name = t_Name n,
             src_Path = (case Path ns (t_ID n) of Inr p \<Rightarrow> p | Inl _ \<Rightarrow> '''')\<rparr>\<rparr>
      | None \<Rightarrow> resolve_loop ns lo get zero chain)"

definition resolve :: "target list \<Rightarrow> target list \<Rightarrow> (settings \<Rightarrow> 'a option) \<Rightarrow> 'a \<Rightarrow> 'a setting_value" where
  "resolve ns chain get zero = resolve_loop ns (get (t_Settings (hd chain))) get zero chain"

record resolved =
  res_IntervalS :: "int setting_value"
  res_PingsPerInterval :: "int setting_value"
  res_ProbeMode :: "string setting_value"
  res_BurstGapMS :: "int setting_value"
  res_TimeoutMS :: "int setting_value"
  res_PacketSize :: "int setting_value"
  res_DSCP :: "int setting_value"
  res_Agents :: "string setting_value"
  res_TraceIntervalS :: "int setting_value"
  res_RetentionS :: "int setting_value"
  res_GraphSeries :: "string setting_value"
  res_ProbeType :: "string setting_value"
  res_ProbePort :: "int setting_value"
  res_DNSQuery :: "string setting_value"
  res_DNSRRType :: "string setting_value"
  res_HTTPPath :: "string setting_value"
  res_TLSSkipVerify :: "bool setting_value"

definition resolve_all :: "target list \<Rightarrow> target list \<Rightarrow> resolved" where
  "resolve_all ns chain =
     \<lparr>res_IntervalS = resolve ns chain IntervalS 0,
      res_PingsPerInterval = resolve ns chain PingsPerInterval 0,
      res_ProbeMode = resolve ns chain ProbeMode '''',
      res_BurstGapMS = resolve ns chain BurstGapMS 0,
      res_TimeoutMS = resolve ns chain TimeoutMS 0,
      res_PacketSize = resolve ns chain PacketSize 0,
      res_DSCP = resolve ns chain DSCP 0,
      res_Agents = resolve ns chain Agents '''',
      res_TraceIntervalS = resolve ns chain TraceIntervalS 0,
      res_RetentionS = resolve ns chain RetentionS 0,
      res_GraphSeries = resolve ns chain GraphSeries '''',
      res_ProbeType = resolve ns chain ProbeType '''',
      res_ProbePort = resolve ns chain ProbePort 0,
      res_DNSQuery = resolve ns chain DNSQuery '''',
      res_DNSRRType = resolve ns chain DNSRRType '''',
      res_HTTPPath = resolve ns chain HTTPPath '''',
      res_TLSSkipVerify = resolve ns chain TLSSkipVerify False\<rparr>"

definition Resolve :: "target list \<Rightarrow> int \<Rightarrow> tree_error + resolved" where
  "Resolve ns i =
     (case node_at ns i of
        None \<Rightarrow> Inl (UnknownTarget i)
      | Some n \<Rightarrow> rbind (ancestryOf ns n) (\<lambda>chain. Inr (resolve_all ns chain)))"

text \<open>The products are computed at 64 bits, as Go's \<open>int\<close> has them.\<close>

definition wrap64 :: "int \<Rightarrow> int" where
  "wrap64 i = sint (word_of_int i :: i64)"

definition validateTiming :: "resolved \<Rightarrow> tree_error + unit" where
  "validateTiming r =
     (if v_Effective (res_ProbeMode r) = ''burst''
      then let burstMS = wrap64 (v_Effective (res_PingsPerInterval r) * v_Effective (res_BurstGapMS r))
           in check (burstMS \<ge> wrap64 (v_Effective (res_IntervalS r) * 1000))
                (DoesNotFit (v_Effective (res_PingsPerInterval r)) (v_Effective (res_BurstGapMS r))
                   (v_Effective (res_IntervalS r)))
      else Inr ())"

section \<open>Building a tree\<close>

text \<open>The first loop of \<open>New\<close>: index the nodes, find the rt.\<close>

fun index_loop :: "target list \<Rightarrow> target option \<Rightarrow> target list \<Rightarrow> tree_error + (target list \<times> target option)" where
  "index_loop seen rt [] = Inr (seen, rt)"
| "index_loop seen rt (n # ts) =
     (if t_ID n \<in> t_ID ` set seen then Inl (DuplicateID (t_ID n))
      else if t_ParentID n = None then
        (case rt of
           Some r \<Rightarrow> Inl (MultipleRoots (t_ID r) (t_ID n))
         | None \<Rightarrow> index_loop (seen @ [n]) (Some n) ts)
      else index_loop (seen @ [n]) rt ts)"

definition complete :: "settings \<Rightarrow> bool" where
  "complete s \<longleftrightarrow> \<not> (IntervalS s = None \<or> PingsPerInterval s = None \<or> ProbeMode s = None \<or>
     BurstGapMS s = None \<or> TimeoutMS s = None \<or> PacketSize s = None \<or> DSCP s = None \<or>
     Agents s = None \<or> TraceIntervalS s = None \<or> RetentionS s = None \<or> ProbeType s = None \<or>
     TLSSkipVerify s = None \<or> GraphSeries s = None)"

definition node_check :: "target list \<Rightarrow> target \<Rightarrow> tree_error + unit" where
  "node_check ns n =
     rbind (ancestryOf ns n) (\<lambda>_.
       case Target_Validate n of Inl e \<Rightarrow> Inl (AtTarget (t_ID n) (t_Name n) e) | Inr _ \<Rightarrow> Inr ())"

text \<open>
  The key of the source is the text \<open>parent/name\<close>; a decimal number holds no slash, so equal texts
  are equal pairs and the pair stands for the text.
\<close>

fun sibling_loop :: "(int \<times> string) list \<Rightarrow> target list \<Rightarrow> tree_error + unit" where
  "sibling_loop seen [] = Inr ()"
| "sibling_loop seen (n # ns) =
     (case t_ParentID n of
        None \<Rightarrow> sibling_loop seen ns
      | Some p \<Rightarrow>
          if (p, t_Name n) \<in> set seen then Inl (DuplicateSibling (t_Name n) p)
          else sibling_loop ((p, t_Name n) # seen) ns)"

definition timing_check :: "target list \<Rightarrow> target \<Rightarrow> tree_error + unit" where
  "timing_check ns n =
     (if t_Host n = None then Inr ()
      else rbind (Resolve ns (t_ID n)) (\<lambda>res.
        case validateTiming res of Inl e \<Rightarrow> Inl (AtTarget (t_ID n) (t_Name n) e) | Inr _ \<Rightarrow> Inr ()))"

text \<open>
  \<open>o1\<close>, \<open>o2\<close>, \<open>o3\<close> are the orders in which the three loops over the map visit its nodes: each a
  rearrangement of the list it is given.
\<close>

definition New_in :: "(target list \<Rightarrow> target list) \<Rightarrow> (target list \<Rightarrow> target list) \<Rightarrow>
    (target list \<Rightarrow> target list) \<Rightarrow> target list \<Rightarrow> tree_error + tree" where
  "New_in o1 o2 o3 targets =
     rbind (index_loop [] None targets) (\<lambda>(ns, rt).
       case rt of
         None \<Rightarrow> Inl NoRoot
       | Some r \<Rightarrow>
         rbind (check (\<not> complete (t_Settings r)) (IncompleteRoot (t_ID r))) (\<lambda>_.
         rbind (reach (node_check ns) (o1 ns)) (\<lambda>_.
         rbind (sibling_loop [] (o2 ns)) (\<lambda>_.
         rbind (reach (timing_check ns) (o3 ns)) (\<lambda>_.
           Inr \<lparr>t_nodes = ns, t_root = r\<rparr>)))))"

definition New :: "target list \<Rightarrow> tree_error + tree" where
  "New targets = New_in id id id targets"

section \<open>Chains to the root\<close>

fun is_chain :: "target list \<Rightarrow> target list \<Rightarrow> bool" where
  "is_chain ns [] = False"
| "is_chain ns [n] \<longleftrightarrow> t_ParentID n = None"
| "is_chain ns (n # m # c) \<longleftrightarrow> (\<exists>p. t_ParentID n = Some p \<and> node_at ns p = Some m) \<and> is_chain ns (m # c)"

lemma node_at_Some: "node_at ns i = Some n \<Longrightarrow> n \<in> set ns \<and> t_ID n = i"
  unfolding node_at_def by (rule map_of_key)

lemma node_at_mem: "distinct (map t_ID ns) \<Longrightarrow> n \<in> set ns \<Longrightarrow> node_at ns (t_ID n) = Some n"
  unfolding node_at_def by (rule map_of_zip_fst)

lemma chain_unique: "is_chain ns (n # c) \<Longrightarrow> is_chain ns (n # d) \<Longrightarrow> c = d"
proof (induction c arbitrary: n d)
  case Nil
  then show ?case by (cases d) auto
next
  case (Cons m c)
  then show ?case by (cases d) auto
qed

lemma chain_suffix: "is_chain ns (xs @ n # ys) \<Longrightarrow> is_chain ns (n # ys)"
proof (induction xs)
  case (Cons x xs)
  then show ?case by (cases xs) auto
qed simp

lemma chain_distinct: "is_chain ns c \<Longrightarrow> distinct c"
proof (induction c)
  case (Cons n c)
  have "is_chain ns c \<or> c = []" using Cons.prems by (cases c) auto
  then have "distinct c" using Cons.IH by auto
  moreover have "n \<notin> set c"
  proof
    assume "n \<in> set c"
    then obtain xs ys where c: "c = xs @ n # ys" by (auto simp: in_set_conv_decomp)
    then have "is_chain ns (n # ys)" using Cons.prems chain_suffix [of ns "n # xs"] by simp
    from chain_unique [OF Cons.prems this] c show False by (metis append_Cons append_assoc
      length_append length_Cons not_add_less2 lessI less_Suc_eq add_Suc_right)
  qed
  ultimately show ?case by simp
qed simp

lemma chain_nodes: "is_chain ns (n # c) \<Longrightarrow> set c \<subseteq> set ns"
proof (induction c arbitrary: n)
  case (Cons m c)
  then show ?case using node_at_Some by fastforce
qed simp

lemma chain_last: "is_chain ns c \<Longrightarrow> t_ParentID (last c) = None"
  by (induction ns c rule: is_chain.induct) auto

lemma chain_length: "is_chain ns (n # c) \<Longrightarrow> length c \<le> length ns"
  using chain_distinct [of ns "n # c"] chain_nodes [of ns n c]
  by (metis card_length card_mono distinct.simps(2) distinct_card dual_order.trans finite_set)

lemma ancestry_loop_sound:
  "ancestry_loop ns n chain cur = Inr c \<Longrightarrow> \<exists>rest. c = chain @ rest \<and> is_chain ns (cur # rest)"
proof (induction ns n chain cur rule: ancestry_loop.induct)
  case (1 ns n chain cur)
  show ?case
  proof (cases "t_ParentID cur")
    case None
    then show ?thesis using "1.prems" by (intro exI [of _ "[]"]) (simp add: ancestry_loop.simps)
  next
    case (Some p)
    with "1.prems" obtain m where m: "node_at ns p = Some m" "\<not> length chain > length ns"
        "ancestry_loop ns n (chain @ [m]) m = Inr c"
      by (subst (asm) ancestry_loop.simps) (auto split: option.splits if_splits)
    from "1.IH" [OF Some m] obtain rest where "c = (chain @ [m]) @ rest" "is_chain ns (m # rest)" by blast
    then show ?thesis using Some m(1) by (intro exI [of _ "m # rest"]) simp
  qed
qed

lemma ancestry_loop_complete:
  "is_chain ns (cur # rest) \<Longrightarrow> length chain + length rest \<le> Suc (length ns) \<Longrightarrow>
    ancestry_loop ns n chain cur = Inr (chain @ rest)"
proof (induction rest arbitrary: cur chain)
  case Nil
  then show ?case by (simp add: ancestry_loop.simps)
next
  case (Cons m rest)
  then obtain p where p: "t_ParentID cur = Some p" "node_at ns p = Some m" "is_chain ns (m # rest)" by auto
  have "ancestry_loop ns n chain cur = ancestry_loop ns n (chain @ [m]) m"
    using p(1,2) Cons.prems(2) by (subst ancestry_loop.simps) simp
  then show ?case using Cons.IH [OF p(3), of "chain @ [m]"] Cons.prems(2) by simp
qed

lemma ancestryOf_iff: "ancestryOf ns n = Inr c \<longleftrightarrow> (\<exists>rest. c = n # rest \<and> is_chain ns c)"
proof
  assume "ancestryOf ns n = Inr c"
  then show "\<exists>rest. c = n # rest \<and> is_chain ns c"
    using ancestry_loop_sound unfolding ancestryOf_def by fastforce
next
  assume "\<exists>rest. c = n # rest \<and> is_chain ns c"
  then obtain rest where c: "c = n # rest" "is_chain ns (n # rest)" by blast
  then show "ancestryOf ns n = Inr c"
    using ancestry_loop_complete [of ns n rest "[n]" n] chain_length [of ns n rest]
    by (simp add: ancestryOf_def)
qed

section \<open>What New accepts\<close>

definition sibling_keys :: "target list \<Rightarrow> (int \<times> string) list" where
  "sibling_keys ns = map (\<lambda>n. (the (t_ParentID n), t_Name n)) (filter (\<lambda>n. t_ParentID n \<noteq> None) ns)"

lemma sibling_loop_iff:
  "sibling_loop seen ns = Inr u \<longleftrightarrow> distinct (sibling_keys ns) \<and> set seen \<inter> set (sibling_keys ns) = {}"
  by (induction seen ns rule: sibling_loop.induct) (auto simp: sibling_keys_def split: option.splits)

lemma sibling_keys_mset: "mset xs = mset ys \<Longrightarrow> mset (sibling_keys xs) = mset (sibling_keys ys)"
  by (simp add: sibling_keys_def)

definition roots :: "target list \<Rightarrow> target list" where
  "roots ns = filter (\<lambda>n. t_ParentID n = None) ns"

lemma index_loop_iff:
  "distinct (map t_ID seen) \<Longrightarrow>
   index_loop seen rt ts = Inr (ns, rt') \<longleftrightarrow>
     ns = seen @ ts \<and> distinct (map t_ID (seen @ ts)) \<and>
     (case rt of Some r \<Rightarrow> roots ts = [] \<and> rt' = rt
      | None \<Rightarrow> (roots ts = [] \<and> rt' = None) \<or> (\<exists>r. roots ts = [r] \<and> rt' = Some r))"
proof (induction seen rt ts rule: index_loop.induct)
  case (1 seen rt)
  then show ?case by (auto simp: roots_def split: option.splits)
next
  case (2 seen rt n ts)
  show ?case
  proof (cases "t_ID n \<in> t_ID ` set seen")
    case True
    then show ?thesis by auto
  next
    case new: False
    then have d: "distinct (map t_ID (seen @ [n]))" using "2.prems" by auto
    show ?thesis
    proof (cases "t_ParentID n = None")
      case True
      then show ?thesis
        using new "2.IH"(1) [OF new True] d by (cases rt) (auto simp: roots_def)
    next
      case False
      then show ?thesis
        using new "2.IH"(2) [OF new False d] by (auto simp: roots_def split: option.splits)
    qed
  qed
qed

text \<open>The declarative description of an accepted tree, with no order in it.\<close>

definition wf_tree :: "tree \<Rightarrow> bool" where
  "wf_tree t \<longleftrightarrow>
     distinct (map t_ID (t_nodes t)) \<and> roots (t_nodes t) = [t_root t] \<and> complete (t_Settings (t_root t)) \<and>
     (\<forall>n \<in> set (t_nodes t). (\<exists>c. is_chain (t_nodes t) (n # c)) \<and> Target_Validate n = Inr ()) \<and>
     distinct (sibling_keys (t_nodes t)) \<and>
     (\<forall>n \<in> set (t_nodes t). timing_check (t_nodes t) n = Inr ())"

lemma node_check_iff:
  "node_check ns n = Inr u \<longleftrightarrow> (\<exists>c. is_chain ns (n # c)) \<and> Target_Validate n = Inr ()"
  by (auto simp: node_check_def result_simps ancestryOf_iff split: sum.splits)

definition reorders :: "(target list \<Rightarrow> target list) \<Rightarrow> bool" where
  "reorders p \<longleftrightarrow> (\<forall>ns. mset (p ns) = mset ns)"

lemma New_in_iff:
  assumes "reorders o1" and "reorders o2" and "reorders o3"
  shows "New_in o1 o2 o3 ts = Inr t \<longleftrightarrow> t_nodes t = ts \<and> wf_tree t"
proof -
  have s: "set (o1 ts) = set ts" "set (o3 ts) = set ts" for ts
    using assms by (metis reorders_def mset_eq_setD)+
  have k: "distinct (sibling_keys (o2 ts)) = distinct (sibling_keys ts)" for ts
    using assms(2) sibling_keys_mset [of "o2 ts" ts] by (metis reorders_def mset_eq_imp_distinct_iff)
  show ?thesis
    by (cases t) (auto simp: New_in_def result_simps index_loop_iff sibling_loop_iff node_check_iff
      wf_tree_def s k split: option.splits)
qed

lemma reorders_id: "reorders id"
  by (simp add: reorders_def)

lemma New_iff: "New ts = Inr t \<longleftrightarrow> t_nodes t = ts \<and> wf_tree t"
  unfolding New_def by (rule New_in_iff) (rule reorders_id)+

section \<open>Resolution on an accepted tree\<close>

lemma wf_treeD:
  assumes "wf_tree t"
  shows "distinct (map t_ID (t_nodes t))"
    and "n \<in> set (t_nodes t) \<Longrightarrow> \<exists>c. is_chain (t_nodes t) (n # c)"
    and "n \<in> set (t_nodes t) \<Longrightarrow> Target_Validate n = Inr ()"
    and "n \<in> set (t_nodes t) \<Longrightarrow> timing_check (t_nodes t) n = Inr ()"
    and "n \<in> set (t_nodes t) \<Longrightarrow> t_ParentID n = None \<longleftrightarrow> n = t_root t"
    and "t_root t \<in> set (t_nodes t)"
    and "complete (t_Settings (t_root t))"
proof -
  have "set (roots (t_nodes t)) = {t_root t}" using assms by (simp add: wf_tree_def)
  then show "n \<in> set (t_nodes t) \<Longrightarrow> t_ParentID n = None \<longleftrightarrow> n = t_root t" "t_root t \<in> set (t_nodes t)"
    by (auto simp: roots_def)
qed (use assms in \<open>auto simp: wf_tree_def\<close>)

lemma wf_chain:
  assumes "wf_tree t" and "node_at (t_nodes t) i = Some n"
  obtains c where "is_chain (t_nodes t) (n # c)" "ancestryOf (t_nodes t) n = Inr (n # c)"
    "last (n # c) = t_root t" "set (n # c) \<subseteq> set (t_nodes t)"
proof -
  from assms(2) have n: "n \<in> set (t_nodes t)" by (simp add: node_at_Some)
  from wf_treeD(2) [OF assms(1) n] obtain c where c: "is_chain (t_nodes t) (n # c)" by blast
  have sub: "set (n # c) \<subseteq> set (t_nodes t)" using n chain_nodes [OF c] by simp
  then have "last (n # c) \<in> set (t_nodes t)" by (metis last_in_set list.distinct(1) subsetD)
  then have "last (n # c) = t_root t" using chain_last [OF c] wf_treeD(5) [OF assms(1)] by blast
  then show ?thesis using that c sub ancestryOf_iff by auto
qed

lemma resolve_loop_found:
  "find (\<lambda>n. get (t_Settings n) \<noteq> None) chain = Some m \<Longrightarrow>
    v_Local (resolve_loop ns lo get zero chain) = lo \<and>
    get (t_Settings m) = Some (v_Effective (resolve_loop ns lo get zero chain)) \<and>
    src_ID (v_Source (resolve_loop ns lo get zero chain)) = t_ID m"
  by (induction chain) (auto split: if_splits option.splits)

lemma resolve_loop_none:
  "find (\<lambda>n. get (t_Settings n) \<noteq> None) chain = None \<Longrightarrow>
    v_Effective (resolve_loop ns lo get zero chain) = zero"
  by (induction chain) (auto split: if_splits option.splits)

lemma find_last:
  "P (last c) \<Longrightarrow> c \<noteq> [] \<Longrightarrow> find P c \<noteq> None"
  by (metis find_None_iff last_in_set)

text \<open>Names joined by slashes can be told apart.\<close>

definition slash_free :: "string \<Rightarrow> bool" where
  "slash_free s \<longleftrightarrow> CHR 0x2F \<notin> set s"

lemma slash_split:
  "slash_free u \<Longrightarrow> slash_free v \<Longrightarrow> u @ CHR 0x2F # x = v @ CHR 0x2F # y \<Longrightarrow> u = v \<and> x = y"
  by (auto simp: slash_free_def append_eq_append_conv2 append_eq_Cons_conv Cons_eq_append_conv)

lemma join_slash_inj:
  "list_all (\<lambda>w. w \<noteq> [] \<and> slash_free w) xs \<Longrightarrow> list_all (\<lambda>w. w \<noteq> [] \<and> slash_free w) ys \<Longrightarrow>
   join ''/'' xs = join ''/'' ys \<Longrightarrow> xs = ys"
proof (induction "''/'' :: string" xs arbitrary: ys rule: join.induct)
  case 1
  then show ?case by (cases "(''/'' :: string, ys)" rule: join.cases) auto
next
  case (2 x)
  then show ?case by (cases "(''/'' :: string, ys)" rule: join.cases) (auto simp: slash_free_def)
next
  case hyp: (3 x y xs)
  show ?case
  proof (cases "(''/'' :: string, ys)" rule: join.cases)
    case (3 sep u v zs)
    then have [simp]: "sep = ''/''" by simp
    from 3 have "x @ CHR 0x2F # join ''/'' (y # xs) = u @ CHR 0x2F # join ''/'' (v # zs)"
      using hyp.prems(3) by simp
    then have "x = u \<and> join ''/'' (y # xs) = join ''/'' (v # zs)"
      using 3 hyp.prems by (intro slash_split) auto
    then show ?thesis using 3 hyp.hyps [of "v # zs"] hyp.prems by simp
  qed (use hyp.prems in \<open>auto simp: slash_free_def\<close>)
qed

lemma trim_space_Nil [simp]: "trim_space [] = []"
  by (simp add: trim_space_def)

lemma valid_name:
  "Target_Validate n = Inr () \<Longrightarrow> t_ParentID n \<noteq> None \<Longrightarrow> t_Name n \<noteq> [] \<and> slash_free (t_Name n)"
  by (auto simp: Target_Validate_def result_simps slash_free_def)

lemma chain_names:
  assumes "wf_tree t" and "is_chain (t_nodes t) c" and "set c \<subseteq> set (t_nodes t)"
  shows "list_all (\<lambda>w. w \<noteq> [] \<and> slash_free w) (map t_Name (butlast c))"
  using assms(2,3)
proof (induction "t_nodes t" c rule: is_chain.induct)
  case (3 n m c)
  then have "t_Name n \<noteq> [] \<and> slash_free (t_Name n)"
    using wf_treeD(3) [OF assms(1)] by (intro valid_name) auto
  with 3 show ?case by auto
qed auto

lemma sibling_unique:
  assumes "wf_tree t" and "n \<in> set (t_nodes t)" and "m \<in> set (t_nodes t)"
    and "t_ParentID n = Some p" and "t_ParentID m = Some p" and "t_Name n = t_Name m"
  shows "n = m"
proof -
  have "inj_on (\<lambda>n. (the (t_ParentID n), t_Name n)) {n \<in> set (t_nodes t). t_ParentID n \<noteq> None}"
    using assms(1) by (simp add: wf_tree_def sibling_keys_def distinct_map)
  from inj_onD [OF this, of n m] show ?thesis using assms(2-) by auto
qed

lemma names_determine_node:
  assumes "wf_tree t"
  shows "is_chain (t_nodes t) (n # c) \<Longrightarrow> is_chain (t_nodes t) (m # d) \<Longrightarrow>
    n \<in> set (t_nodes t) \<Longrightarrow> m \<in> set (t_nodes t) \<Longrightarrow>
    map t_Name (butlast (n # c)) = map t_Name (butlast (m # d)) \<Longrightarrow> n = m"
proof (induction c arbitrary: n m d)
  case Nil
  then have "t_ParentID n = None" "d = []" by (auto split: if_splits)
  with Nil show ?case using wf_treeD(5) [OF assms] by (metis is_chain.simps(2))
next
  case (Cons n' c)
  then obtain m' d' where d: "d = m' # d'" by (cases d) auto
  obtain p q where p: "t_ParentID n = Some p" "node_at (t_nodes t) p = Some n'" "is_chain (t_nodes t) (n' # c)"
    and q: "t_ParentID m = Some q" "node_at (t_nodes t) q = Some m'" "is_chain (t_nodes t) (m' # d')"
    using Cons.prems(1,2) d by auto
  have "n' = m'"
    using Cons.IH [OF p(3) q(3)] node_at_Some [OF p(2)] node_at_Some [OF q(2)] Cons.prems(5) d by simp
  then have "p = q" using node_at_Some [OF p(2)] node_at_Some [OF q(2)] by simp
  then show ?case
    using sibling_unique [OF assms Cons.prems(3,4) p(1)] q(1) Cons.prems(5) d by simp
qed

lemma Path_inj:
  assumes "wf_tree t" and "Path (t_nodes t) i = Inr s" and "Path (t_nodes t) j = Inr s"
  shows "i = j"
proof -
  from assms obtain n m where n: "node_at (t_nodes t) i = Some n" and m: "node_at (t_nodes t) j = Some m"
    by (auto simp: Path_def split: option.splits)
  from wf_chain [OF assms(1) n] obtain c where
    c: "is_chain (t_nodes t) (n # c)" "ancestryOf (t_nodes t) n = Inr (n # c)" "set (n # c) \<subseteq> set (t_nodes t)" .
  from wf_chain [OF assms(1) m] obtain d where
    d: "is_chain (t_nodes t) (m # d)" "ancestryOf (t_nodes t) m = Inr (m # d)" "set (m # d) \<subseteq> set (t_nodes t)" .
  have "path_string (n # c) = path_string (m # d)"
    using assms(2,3) n m c(2) d(2) by (simp add: Path_def)
  then have "rev (map t_Name (butlast (n # c))) = rev (map t_Name (butlast (m # d)))"
    using chain_names [OF assms(1) c(1,3)] chain_names [OF assms(1) d(1,3)]
    by (intro join_slash_inj) (simp_all add: path_string_def list_all_iff)
  then have "n = m"
    using names_determine_node [OF assms(1) c(1) d(1)] c(3) d(3) by (simp only: rev_is_rev_conv) simp
  then show ?thesis using node_at_Some [OF n] node_at_Some [OF m] by simp
qed

section \<open>The interface other components use\<close>

text \<open>
  Alerting, access control and the load limits only look a node up and climb to its parent. What
  they rely on is that the climb ends at a root, through nodes that exist: every node has a list
  \<open>up\<close> of itself and its ancestors.
\<close>

locale node_view =
  fixes valid :: "'t \<Rightarrow> bool"
    and get :: "'t \<Rightarrow> int \<Rightarrow> target option"
    and up :: "'t \<Rightarrow> int \<Rightarrow> target list"
  assumes get_ID: "valid t \<Longrightarrow> get t i = Some n \<Longrightarrow> t_ID n = i"
    and up_root: "valid t \<Longrightarrow> get t i = Some n \<Longrightarrow> t_ParentID n = None \<Longrightarrow> up t i = [n]"
    and up_parent: "valid t \<Longrightarrow> get t i = Some n \<Longrightarrow> t_ParentID n = Some p \<Longrightarrow>
        \<exists>m. get t p = Some m \<and> up t i = n # up t p"
begin

text \<open>Induction along the climb: what holds at a root and passes from parent to child holds.\<close>

lemma climb_induct [consumes 2, case_names root parent]:
  assumes "valid t" and "get t i = Some n"
    and r: "\<And>i n. get t i = Some n \<Longrightarrow> t_ParentID n = None \<Longrightarrow> up t i = [n] \<Longrightarrow> P i n"
    and s: "\<And>i n p m. get t i = Some n \<Longrightarrow> t_ParentID n = Some p \<Longrightarrow> get t p = Some m \<Longrightarrow>
        up t i = n # up t p \<Longrightarrow> P p m \<Longrightarrow> P i n"
  shows "P i n"
  using assms(2)
proof (induction "up t i" arbitrary: i n rule: length_induct)
  case 1
  show ?case
  proof (cases "t_ParentID n")
    case None
    then show ?thesis using r up_root [OF assms(1) 1(2)] 1(2) by blast
  next
    case (Some p)
    from up_parent [OF assms(1) 1(2) Some] obtain m where m: "get t p = Some m" "up t i = n # up t p" by blast
    then have "P p m" by (intro 1(1) [rule_format, OF _ refl m(1)]) simp
    then show ?thesis using s [OF 1(2) Some m] by blast
  qed
qed

lemma up_hd: "valid t \<Longrightarrow> get t i = Some n \<Longrightarrow> \<exists>c. up t i = n # c"
  using up_root up_parent by (cases "t_ParentID n") fastforce+

lemma up_nodes:
  assumes "valid t" and "get t i = Some n" and "m \<in> set (up t i)"
  shows "get t (t_ID m) = Some m"
  using assms
proof (induction i n rule: climb_induct)
  case (root i n)
  then show ?case using get_ID [OF assms(1)] by auto
next
  case (parent i n p m)
  then show ?case using get_ID [OF assms(1)] by auto
qed

end

definition up_of :: "tree \<Rightarrow> int \<Rightarrow> target list" where
  "up_of t i = (case Get t i of None \<Rightarrow> []
     | Some n \<Rightarrow> (case ancestryOf (t_nodes t) n of Inr c \<Rightarrow> c | Inl _ \<Rightarrow> []))"

interpretation tree_view: node_view wf_tree Get up_of
proof unfold_locales
  show "t_ID n = i" if "Get t i = Some n" for t i n
    using that by (simp add: Get_def node_at_Some)
  show "up_of t i = [n]" if "wf_tree t" "Get t i = Some n" "t_ParentID n = None" for t i n
  proof -
    have "ancestryOf (t_nodes t) n = Inr [n]" using that(3) by (simp add: ancestryOf_iff)
    then show ?thesis using that(2) by (simp add: up_of_def)
  qed
  show "\<exists>m. Get t p = Some m \<and> up_of t i = n # up_of t p"
    if wf: "wf_tree t" and n: "Get t i = Some n" and p: "t_ParentID n = Some p" for t i n p
  proof -
    from wf_chain [OF wf, of i n] n obtain c where
      c: "is_chain (t_nodes t) (n # c)" "ancestryOf (t_nodes t) n = Inr (n # c)" by (auto simp: Get_def)
    then obtain m d where m: "c = m # d" "node_at (t_nodes t) p = Some m" "is_chain (t_nodes t) (m # d)"
      using p by (cases c) auto
    then have "ancestryOf (t_nodes t) m = Inr (m # d)" by (simp add: ancestryOf_iff)
    then show ?thesis using n c(2) m(1,2) by (simp add: up_of_def Get_def)
  qed
qed

section \<open>Properties\<close>

text \<open>
  Property C3. What \<open>New\<close> accepts: exactly the node lists with distinct ids, one root, a complete
  root, a chain of existing parents from every node to the root (so no cycle and no missing
  parent), valid fields, distinct sibling names and bursts that fit; and the order in which its
  three loops visit the map, which Go leaves open, never changes the verdict or the tree.
\<close>

theorem New_accepts_iff:
  assumes "reorders o1" and "reorders o2" and "reorders o3"
  shows "New_in o1 o2 o3 ts = Inr t \<longleftrightarrow> t_nodes t = ts \<and> wf_tree t"
  using assms by (rule New_in_iff)

definition example_settings :: settings where
  "example_settings = \<lparr>IntervalS = Some 60, PingsPerInterval = Some 20, ProbeMode = Some ''burst'',
     BurstGapMS = Some 50, TimeoutMS = Some 3000, PacketSize = Some 56, DSCP = Some 0,
     Agents = Some ''local'', ProbeType = Some ''icmp'', ProbePort = None, DNSQuery = None,
     DNSRRType = None, HTTPPath = None, TLSSkipVerify = Some False, TraceIntervalS = Some 0,
     RetentionS = Some 0, GraphSeries = Some ''all''\<rparr>"

definition no_settings :: settings where
  "no_settings = \<lparr>IntervalS = None, PingsPerInterval = None, ProbeMode = None, BurstGapMS = None,
     TimeoutMS = None, PacketSize = None, DSCP = None, Agents = None, ProbeType = None,
     ProbePort = None, DNSQuery = None, DNSRRType = None, HTTPPath = None, TLSSkipVerify = None,
     TraceIntervalS = None, RetentionS = None, GraphSeries = None\<rparr>"

definition group_node :: "int \<Rightarrow> int option \<Rightarrow> string \<Rightarrow> settings \<Rightarrow> target" where
  "group_node i p name s = \<lparr>t_ID = i, t_ParentID = p, t_Name = name, t_Host = None,
     t_AddressFamily = None, t_Title = None, t_Notes = None, t_Hidden = False, t_Enabled = True,
     t_SortOrder = 0, t_Settings = s\<rparr>"

definition example_nodes :: "target list" where
  "example_nodes = [group_node 1 None '''' example_settings, group_node 2 (Some 1) ''dc'' no_settings,
     (group_node 3 (Some 2) ''dns'' (no_settings\<lparr>IntervalS := Some 30\<rparr>))
       \<lparr>t_Host := Some ''1.1.1.1'', t_AddressFamily := Some ''v4''\<rparr>]"

definition example_tree :: tree where
  "example_tree = \<lparr>t_nodes = example_nodes, t_root = group_node 1 None '''' example_settings\<rparr>"

lemma example_New: "New example_nodes = Inr example_tree"
  by code_simp

theorem New_accepts_iff_witness:
  "New_in rev id rev example_nodes = Inr example_tree \<and> wf_tree example_tree"
proof -
  have r: "reorders rev" "reorders id" by (simp_all add: reorders_def)
  have "t_nodes example_tree = example_nodes \<and> wf_tree example_tree"
    using example_New by (simp add: New_iff)
  then show ?thesis using New_accepts_iff [OF r r(1)] by simp
qed

text \<open>
  Property C4. Inheritance: on an accepted tree the ancestry of a node is the path from it to the
  root, resolving it always succeeds, and for every inheritable setting the effective value and
  its provenance are those of the nearest node on that path that sets it; a setting the root has
  (as it has every mandatory one) is never left at Go's zero value.
\<close>

theorem Resolve_nearest:
  assumes "New ts = Inr t" and "Get t i = Some n"
  shows "\<exists>chain. ancestryOf (t_nodes t) n = Inr chain \<and> is_chain (t_nodes t) chain \<and>
      hd chain = n \<and> last chain = t_root t \<and>
      Resolve (t_nodes t) i = Inr (resolve_all (t_nodes t) chain) \<and>
      v_Local (resolve (t_nodes t) chain get zero) = get (t_Settings n) \<and>
      (case find (\<lambda>m. get (t_Settings m) \<noteq> None) chain of
         None \<Rightarrow> get (t_Settings (t_root t)) = None \<and> v_Effective (resolve (t_nodes t) chain get zero) = zero
       | Some m \<Rightarrow> get (t_Settings m) = Some (v_Effective (resolve (t_nodes t) chain get zero)) \<and>
           src_ID (v_Source (resolve (t_nodes t) chain get zero)) = t_ID m)"
proof -
  have wf: "wf_tree t" using assms(1) by (simp add: New_iff)
  have n: "node_at (t_nodes t) i = Some n" using assms(2) by (simp add: Get_def)
  from wf_chain [OF wf n] obtain c where c: "is_chain (t_nodes t) (n # c)"
    "ancestryOf (t_nodes t) n = Inr (n # c)" "last (n # c) = t_root t" by blast
  have lo: "v_Local (resolve_loop ns lo g z ch) = lo" for ns lo and g :: "settings \<Rightarrow> 'a option" and z ch
    by (induction ch) (auto split: option.split)
  have "get (t_Settings (t_root t)) = None" if "find (\<lambda>m. get (t_Settings m) \<noteq> None) (n # c) = None"
    using that c(3) by (metis find_last list.distinct(1))
  then have "case find (\<lambda>m. get (t_Settings m) \<noteq> None) (n # c) of
      None \<Rightarrow> get (t_Settings (t_root t)) = None \<and> v_Effective (resolve (t_nodes t) (n # c) get zero) = zero
    | Some m \<Rightarrow> get (t_Settings m) = Some (v_Effective (resolve (t_nodes t) (n # c) get zero)) \<and>
        src_ID (v_Source (resolve (t_nodes t) (n # c) get zero)) = t_ID m"
    unfolding resolve_def
    using resolve_loop_found [of get "n # c"] resolve_loop_none [of get "n # c"]
    by (auto split: option.split simp del: find.simps resolve_loop.simps)
  moreover have "Resolve (t_nodes t) i = Inr (resolve_all (t_nodes t) (n # c))"
    using n c(2) by (simp add: Resolve_def)
  ultimately show ?thesis
    using c by (intro exI [of _ "n # c"]) (simp add: resolve_def lo del: find.simps resolve_loop.simps)
qed

theorem Resolve_nearest_witness:
  "\<exists>r. Resolve example_nodes 3 = Inr r \<and> v_Effective (res_IntervalS r) = 30"
proof -
  let ?n = "(group_node 3 (Some 2) ''dns'' (no_settings\<lparr>IntervalS := Some 30\<rparr>))
       \<lparr>t_Host := Some ''1.1.1.1'', t_AddressFamily := Some ''v4''\<rparr>"
  have n: "Get example_tree 3 = Some ?n"
    by (simp add: Get_def node_at_def example_tree_def example_nodes_def group_node_def)
  have ns: "t_nodes example_tree = example_nodes" by (simp add: example_tree_def)
  obtain chain where c: "hd chain = ?n" "is_chain example_nodes chain"
    "Resolve example_nodes 3 = Inr (resolve_all example_nodes chain)"
    "case find (\<lambda>m. IntervalS (t_Settings m) \<noteq> None) chain of
         None \<Rightarrow> IntervalS (t_Settings (t_root example_tree)) = None \<and>
           v_Effective (resolve example_nodes chain IntervalS 0) = 0
       | Some m \<Rightarrow> IntervalS (t_Settings m) = Some (v_Effective (resolve example_nodes chain IntervalS 0)) \<and>
           src_ID (v_Source (resolve example_nodes chain IntervalS 0)) = t_ID m"
    using Resolve_nearest [OF example_New n, of IntervalS 0] unfolding ns by blast
  from c(1,2) obtain rest where "chain = ?n # rest" by (cases chain) auto
  with c(3,4) show ?thesis by (simp add: resolve_all_def group_node_def)
qed

text \<open>
  Further property. The path is an identity: on an accepted tree every node has a path, and no two nodes
  have the same one, so a name in a configuration file or a link denotes at most one target.
\<close>

theorem Path_identity:
  assumes "New ts = Inr t" and "Get t i = Some n" and "Get t j = Some m"
  shows "(\<exists>s. Path (t_nodes t) i = Inr s) \<and> (Path (t_nodes t) i = Path (t_nodes t) j \<longleftrightarrow> i = j)"
proof -
  have wf: "wf_tree t" using assms(1) by (simp add: New_iff)
  have "\<exists>s. Path (t_nodes t) k = Inr s" if k: "Get t k = Some x" for k x
  proof -
    from wf_chain [OF wf, of k x] k obtain c where "ancestryOf (t_nodes t) x = Inr (x # c)"
      by (auto simp: Get_def)
    then show ?thesis using k by (simp add: Path_def Get_def)
  qed
  then obtain s s' where "Path (t_nodes t) i = Inr s" "Path (t_nodes t) j = Inr s'"
    using assms(2,3) by blast
  then show ?thesis using Path_inj [OF wf] by auto
qed

theorem Path_identity_witness: "Path example_nodes 3 \<noteq> Path example_nodes 2"
  using Path_identity [OF example_New, of 3 _ 2]
  by (simp add: Get_def node_at_def example_tree_def example_nodes_def group_node_def)

end
