(* ===== verification/Manager.thy ===== *)
theory Manager
  imports Shape TargetTree
begin

text \<open>
  The alert manager, \<open>internal/alert/manager.go\<close>, with the alerts of \<open>internal/alert/notify.go\<close>. The
  state is the part of \<open>Manager\<close> its mutex protects; each method is one or two critical sections
  on it. What a method does outside (saving states, recording events, notifying) is returned as a
  list of effects in order: their failures are only logged by the source. What a reload reads
  from the store is an argument, and so are the clock and the order a Go map is visited in.
\<close>

section \<open>State\<close>

type_synonym state_key = "int \<times> int \<times> int"

record baselined =
  bl_RuleID :: int
  bl_TargetID :: int
  bl_AgentID :: int
  bl_FromTS :: int
  bl_ToTS :: int
  bl_Intervals :: int
  bl_Samples :: "u32 list"
  bl_CapturedAt :: int
  bl_CapturedBy :: string

record applicable =
  ap_rules :: "rule list"
  ap_intervalS :: int
  ap_path :: string
  ap_host :: string

record manager =
  mg_byTarget :: "int \<Rightarrow> applicable option"
  mg_states :: "state_key \<Rightarrow> alert_state option"
  mg_rules :: "int \<Rightarrow> rule option"
  mg_agentNames :: "int \<Rightarrow> string option"
  mg_silences :: "silence list"
  mg_ancestors :: "int \<Rightarrow> int list option" \<comment> \<open>the set as a list of its members\<close>
  mg_shapes :: "state_key \<Rightarrow> shapeState option"
  mg_golden :: "int \<Rightarrow> baselined option"

definition NewManager :: manager where
  "NewManager = \<lparr>mg_byTarget = (\<lambda>_. None), mg_states = (\<lambda>_. None), mg_rules = (\<lambda>_. None), mg_agentNames = (\<lambda>_. None),
     mg_silences = [], mg_ancestors = (\<lambda>_. None), mg_shapes = (\<lambda>_. None), mg_golden = (\<lambda>_. None)\<rparr>"

section \<open>Reload\<close>

text \<open>What \<open>Reload\<close> reads, each list or the error of reading it.\<close>

record 'e snapshot =
  sn_targets :: "'e + target list"
  sn_rules :: "'e + rule list"
  sn_states :: "'e + alert_state list"
  sn_agentNames :: "'e + (int \<Rightarrow> string option)"
  sn_silences :: "'e + silence list"
  sn_baselines :: "'e + baselined list"

datatype 'e reload_error = StoreFailed 'e | TreeFailed tree_error

definition store_result :: "'e + 'a \<Rightarrow> 'e reload_error + 'a" where
  "store_result r = (case r of Inl e \<Rightarrow> Inl (StoreFailed e) | Inr x \<Rightarrow> Inr x)"

definition tree_result :: "tree_error + 'a \<Rightarrow> 'e reload_error + 'a" where
  "tree_result r = (case r of Inl e \<Rightarrow> Inl (TreeFailed e) | Inr x \<Rightarrow> Inr x)"

text \<open>\<open>m[k] = v\<close> for each element: the last one with a key stays.\<close>

definition index_by :: "('a \<Rightarrow> 'k) \<Rightarrow> 'a list \<Rightarrow> 'k \<Rightarrow> 'a option" where
  "index_by f xs k = map_of (rev (map (\<lambda>x. (f x, x)) xs)) k"

text \<open>
  The walk to the root: it would not end on a cycle, so its result is an option, \<open>None\<close> for no end.
\<close>

partial_function (option) climb :: "(int \<Rightarrow> target option) \<Rightarrow> target \<Rightarrow> int list \<Rightarrow> int list option" where
  "climb byNodeID cur ids =
     (let ids = ids @ [t_ID cur]
      in case t_ParentID cur of
           None \<Rightarrow> Some ids
         | Some p \<Rightarrow> (case byNodeID p of None \<Rightarrow> Some ids | Some m \<Rightarrow> climb byNodeID m ids))"

definition ancestors_of :: "target list \<Rightarrow> int \<Rightarrow> int list option" where
  "ancestors_of targets i =
     (case index_by t_ID targets i of
        None \<Rightarrow> None
      | Some n \<Rightarrow> climb (index_by t_ID targets) n [])"

text \<open>\<open>NearestRuleNode\<close>; the outer option is \<open>None\<close> for a walk that does not end.\<close>

partial_function (option) nearest_loop :: "tree \<Rightarrow> (int \<Rightarrow> bool) \<Rightarrow> target option \<Rightarrow> int option option" where
  "nearest_loop tr hasRules cur =
     (case cur of
        None \<Rightarrow> Some None
      | Some n \<Rightarrow>
          if hasRules (t_ID n) then Some (Some (t_ID n))
          else (case t_ParentID n of
              None \<Rightarrow> Some None
            | Some p \<Rightarrow> nearest_loop tr hasRules (Get tr p)))"

definition NearestRuleNode :: "tree \<Rightarrow> (int \<Rightarrow> bool) \<Rightarrow> int \<Rightarrow> int option option" where
  "NearestRuleNode tr hasRules i = nearest_loop tr hasRules (Get tr i)"

declare climb.simps [code] nearest_loop.simps [code]

definition rules_on :: "rule list \<Rightarrow> int \<Rightarrow> rule list" where
  "rules_on rules node = filter (\<lambda>r. r_TargetID r = node) rules"

definition resolve_target :: "tree \<Rightarrow> rule list \<Rightarrow> target \<Rightarrow> 'e reload_error + applicable" where
  "resolve_target tr rules n =
     rbind (tree_result (Resolve (t_nodes tr) (t_ID n))) (\<lambda>res.
     rbind (tree_result (Path (t_nodes tr) (t_ID n))) (\<lambda>path.
       Inr \<lparr>ap_rules = (case NearestRuleNode tr (\<lambda>i. rules_on rules i \<noteq> []) (t_ID n) of
              Some (Some node) \<Rightarrow> rules_on rules node | _ \<Rightarrow> []),
            ap_intervalS = v_Effective (res_IntervalS res), ap_path = path, ap_host = the (t_Host n)\<rparr>))"

fun resolve_targets :: "tree \<Rightarrow> rule list \<Rightarrow> target list \<Rightarrow> (int \<Rightarrow> applicable option) \<Rightarrow>
    'e reload_error + (int \<Rightarrow> applicable option)" where
  "resolve_targets tr rules [] acc = Inr acc"
| "resolve_targets tr rules (n # ns) acc =
     (if t_Host n = None \<or> \<not> t_Enabled n then resolve_targets tr rules ns acc
      else rbind (resolve_target tr rules n) (\<lambda>app. resolve_targets tr rules ns (acc(t_ID n \<mapsto> app))))"

definition key_of :: "alert_state \<Rightarrow> state_key" where
  "key_of st = (s_RuleID st, s_TargetID st, s_AgentID st)"

text \<open>The half before the lock: everything built from what was read.\<close>

record built =
  bu_resolved :: "int \<Rightarrow> applicable option"
  bu_byID :: "int \<Rightarrow> rule option"
  bu_stored :: "state_key \<Rightarrow> alert_state option"
  bu_names :: "int \<Rightarrow> string option"
  bu_silences :: "silence list"
  bu_golden :: "int \<Rightarrow> baselined option"
  bu_ancestors :: "int \<Rightarrow> int list option"

definition reload_read :: "'e snapshot \<Rightarrow> 'e reload_error + built" where
  "reload_read sn =
     rbind (store_result (sn_targets sn)) (\<lambda>targets.
     rbind (tree_result (New targets)) (\<lambda>tr.
     rbind (store_result (sn_rules sn)) (\<lambda>rules.
     rbind (store_result (sn_states sn)) (\<lambda>states.
     rbind (store_result (sn_agentNames sn)) (\<lambda>names.
     rbind (store_result (sn_silences sn)) (\<lambda>silences.
     rbind (store_result (sn_baselines sn)) (\<lambda>baselines.
     rbind (resolve_targets tr rules targets (\<lambda>_. None)) (\<lambda>res.
       let byID = index_by r_ID rules
       in Inr \<lparr>bu_resolved = res, bu_byID = byID,
            bu_stored = index_by key_of (filter (\<lambda>st. byID (s_RuleID st) \<noteq> None) states),
            bu_names = names, bu_silences = silences, bu_golden = index_by bl_RuleID baselines,
            bu_ancestors = ancestors_of targets\<rparr>))))))))"

text \<open>The half under the lock: what is live wins over what was stored.\<close>

definition reload_install :: "built \<Rightarrow> manager \<Rightarrow> manager" where
  "reload_install b m =
     m\<lparr>mg_states := (\<lambda>k. case mg_states m k of
           Some live \<Rightarrow> if bu_byID b (fst k) \<noteq> None then Some live else bu_stored b k
         | None \<Rightarrow> bu_stored b k),
       mg_shapes := (\<lambda>k. if bu_byID b (fst k) \<noteq> None then mg_shapes m k else None),
       mg_byTarget := bu_resolved b, mg_rules := bu_byID b, mg_agentNames := bu_names b,
       mg_ancestors := bu_ancestors b, mg_golden := bu_golden b, mg_silences := bu_silences b\<rparr>"

definition Reload :: "'e snapshot \<Rightarrow> manager \<Rightarrow> manager \<times> ('e reload_error + unit)" where
  "Reload sn m = (case reload_read sn of Inl e \<Rightarrow> (m, Inl e) | Inr b \<Rightarrow> (reload_install b m, Inr ()))"

section \<open>Alerts and silences\<close>

record alert =
  al_Rule :: rule
  al_TargetID :: int
  al_AgentID :: int
  al_TargetPath :: string
  al_TargetHost :: string
  al_AgentName :: string
  al_Firing :: bool
  al_Since :: "int option"
  al_Ended :: "int option"
  al_Value :: f64
  al_Acked :: bool
  al_AckedAt :: "int option"
  al_AckedBy :: string
  al_Silenced :: bool
  al_SilencedUntil :: "int option"

record event =
  ev_TS :: int
  ev_RuleID :: int
  ev_TargetID :: int
  ev_AgentID :: int
  ev_Firing :: bool
  ev_RuleName :: string
  ev_Describes :: string
  ev_Value :: f64

datatype effect = SaveStates "alert_state list" | RecordEvents "event list" | Notify "alert list"

text \<open>A zero second is no time at all: \<open>time.Time\<close> stays zero.\<close>

definition unix_time :: "int \<Rightarrow> int option" where
  "unix_time s = (if s \<noteq> 0 then Some s else None)"

definition alertLocked :: "manager \<Rightarrow> int \<Rightarrow> rule \<Rightarrow> alert_state \<Rightarrow> applicable \<Rightarrow> bool \<Rightarrow> alert" where
  "alertLocked m now r st app firing =
     (let name = (case mg_agentNames m (s_AgentID st) of None \<Rightarrow> '''' | Some n \<Rightarrow> n)
      in \<lparr>al_Rule = r, al_TargetID = s_TargetID st, al_AgentID = s_AgentID st, al_TargetPath = ap_path app,
          al_TargetHost = ap_host app,
          al_AgentName = (if name = '''' then ''agent '' @ show_int (s_AgentID st) else name),
          al_Firing = firing, al_Since = unix_time (s_Since st),
          al_Ended = (if firing then None else if s_LastTS st \<noteq> 0 then Some (s_LastTS st) else Some now),
          al_Value = s_Value st, al_Acked = Acked st,
          al_AckedAt = (if Acked st then unix_time (s_AckedAt st) else None),
          al_AckedBy = (if Acked st then s_AckedBy st else ''''),
          al_Silenced = False, al_SilencedUntil = None\<rparr>)"

definition covers :: "manager \<Rightarrow> int \<Rightarrow> alert \<Rightarrow> silence \<Rightarrow> bool" where
  "covers m now a s \<longleftrightarrow> activeAt s now \<and>
     \<not> (sil_RuleID s \<noteq> None \<and> sil_RuleID s \<noteq> Some (r_ID (al_Rule a))) \<and>
     \<not> (sil_AgentID s \<noteq> None \<and> sil_AgentID s \<noteq> Some (al_AgentID a)) \<and>
     \<not> (sil_TargetID s \<noteq> None \<and>
        \<not> (case mg_ancestors m (al_TargetID a) of None \<Rightarrow> False | Some ids \<Rightarrow> the (sil_TargetID s) \<in> set ids))"

fun silenced_loop :: "manager \<Rightarrow> int \<Rightarrow> alert \<Rightarrow> bool \<times> int \<Rightarrow> silence list \<Rightarrow> bool \<times> int" where
  "silenced_loop m now a (b, until) [] = (b, until)"
| "silenced_loop m now a (b, until) (s # ss) =
     silenced_loop m now a
       (if covers m now a s then (True, if sil_EndsAt s > until then sil_EndsAt s else until) else (b, until)) ss"

definition silencedLocked :: "manager \<Rightarrow> int \<Rightarrow> alert \<Rightarrow> bool \<times> int" where
  "silencedLocked m now a = silenced_loop m now a (False, 0) (mg_silences m)"

definition AddSilence :: "manager \<Rightarrow> silence \<Rightarrow> int \<Rightarrow> 'e + int \<Rightarrow> manager \<times> ((alert_error + 'e) + silence)" where
  "AddSilence m s now created =
     (case Silence_Validate s of
        Inl e \<Rightarrow> (m, Inl (Inl e))
      | Inr _ \<Rightarrow>
          (case created of
             Inl e \<Rightarrow> (m, Inl (Inr e))
           | Inr sid \<Rightarrow>
               let s = s\<lparr>sil_CreatedAt := now, sil_ID := sid\<rparr>
               in (m\<lparr>mg_silences := mg_silences m @ [s]\<rparr>, Inr s)))"

text \<open>\<open>existed\<close> is what deleting it from the store reported.\<close>

definition RemoveSilence :: "manager \<Rightarrow> int \<Rightarrow> 'e + bool \<Rightarrow> manager \<times> ('e + bool)" where
  "RemoveSilence m sid existed =
     (if existed = Inr True then (m\<lparr>mg_silences := filter (\<lambda>s. sil_ID s \<noteq> sid) (mg_silences m)\<rparr>, Inr True)
      else (m, existed))"

section \<open>Observing\<close>

definition state_of :: "manager \<Rightarrow> rule \<Rightarrow> alert_input \<Rightarrow> alert_state" where
  "state_of m r meas =
     (case mg_states m (r_ID r, in_TargetID meas, in_AgentID meas) of
        Some st \<Rightarrow> st | None \<Rightarrow> new_state (r_ID r) (in_TargetID meas) (in_AgentID meas))"

text \<open>
  A rule against a measurement: its standing and, for a shape rule, its memory afterwards. The source
  reads the empty samples of a zero \<open>Baselined\<close> where none was captured.
\<close>

definition golden_of :: "(int \<Rightarrow> baselined option) \<Rightarrow> int \<Rightarrow> u32 list" where
  "golden_of golden i = (case golden i of None \<Rightarrow> [] | Some b \<Rightarrow> bl_Samples b)"

definition judge :: "rule \<Rightarrow> int \<Rightarrow> u32 list \<Rightarrow> alert_input \<Rightarrow> alert_state \<Rightarrow> shapeState option \<Rightarrow>
    alert_state \<times> shapeState option \<times> transition" where
  "judge r iv golden meas st ss =
     (if IsShape (r_Metric r) then
        let (ss', v) = shape_value (case ss of None \<Rightarrow> new_shapeState | Some ss \<Rightarrow> ss) r meas golden;
            (st', t) = EvaluateValue r st (map_option Fin v) (in_RTTTrusted meas) (in_TS meas) iv
        in (st', Some ss', t)
      else let (st', t) = Evaluate r st meas iv in (st', ss, t))"

type_synonym observed = "manager \<times> alert list \<times> alert_state list"

definition observe_rule :: "int \<Rightarrow> applicable \<Rightarrow> alert_input \<Rightarrow> rule \<Rightarrow> observed \<Rightarrow> observed" where
  "observe_rule now app meas r s =
     (let (m, fired, dirty) = s;
          k = (r_ID r, in_TargetID meas, in_AgentID meas);
          (st, ss, t) = judge r (ap_intervalS app) (golden_of (mg_golden m) (r_ID r)) meas (state_of m r meas) (mg_shapes m k);
          m = m\<lparr>mg_states := (mg_states m)(k \<mapsto> st), mg_shapes := (mg_shapes m)(k := ss)\<rparr>;
          fired = (case t of NoChange \<Rightarrow> fired
                   | Fired \<Rightarrow> fired @ [alertLocked m now r st app True]
                   | Resolved \<Rightarrow> fired @ [alertLocked m now r st app False])
      in (m, fired, dirty @ [st]))"

definition observe_one :: "int \<Rightarrow> alert_input \<Rightarrow> observed \<Rightarrow> observed" where
  "observe_one now meas s =
     (case mg_byTarget (fst s) (in_TargetID meas) of
        None \<Rightarrow> s
      | Some app \<Rightarrow> fold (observe_rule now app meas) (ap_rules app) s)"

section \<open>Delivering\<close>

definition transitionTS :: "alert \<Rightarrow> int \<Rightarrow> int" where
  "transitionTS a now = (if al_Firing a \<and> al_Since a \<noteq> None then the (al_Since a) else now)"

text \<open>\<open>describe\<close> is \<open>Rule.Describe\<close>, a formatted text.\<close>

definition event_of :: "(rule \<Rightarrow> string) \<Rightarrow> int \<Rightarrow> alert \<Rightarrow> event" where
  "event_of describe now a = \<lparr>ev_TS = transitionTS a now, ev_RuleID = r_ID (al_Rule a), ev_TargetID = al_TargetID a,
     ev_AgentID = al_AgentID a, ev_Firing = al_Firing a, ev_RuleName = r_Name (al_Rule a),
     ev_Describes = describe (al_Rule a), ev_Value = al_Value a\<rparr>"

definition deliver :: "(rule \<Rightarrow> string) \<Rightarrow> bool \<Rightarrow> manager \<Rightarrow> int \<Rightarrow> alert list \<Rightarrow> effect list" where
  "deliver describe notifier m now alerts =
     (if alerts = [] then []
      else
        let events = RecordEvents (map (event_of describe now) alerts)
        in if \<not> notifier then [events]
           else let send = filter (\<lambda>a. \<not> fst (silencedLocked m now a)) alerts
                in if send = [] then [events] else [events, Notify send])"

definition Observe :: "(rule \<Rightarrow> string) \<Rightarrow> bool \<Rightarrow> int \<Rightarrow> alert_input list \<Rightarrow> manager \<Rightarrow> manager \<times> effect list" where
  "Observe describe notifier now inputs m =
     (let (m, fired, dirty) = fold (observe_one now) inputs (m, [], [])
      in (m, (if dirty \<noteq> [] then [SaveStates dirty] else []) @ deliver describe notifier m now fired))"

text \<open>\<open>order\<close> lists the keys of the states in the order the map is visited in.\<close>

definition firing_alert :: "manager \<Rightarrow> int \<Rightarrow> state_key \<Rightarrow> alert option" where
  "firing_alert m now k =
     (case mg_states m k of
        None \<Rightarrow> None
      | Some st \<Rightarrow>
          if \<not> s_Firing st then None
          else (case mg_rules m (fst k) of
              None \<Rightarrow> None
            | Some r \<Rightarrow>
                (case mg_byTarget m (s_TargetID st) of
                   None \<Rightarrow> None
                 | Some app \<Rightarrow>
                     let a = alertLocked m now r st app True; (sil, until) = silencedLocked m now a
                     in Some (if sil then a\<lparr>al_Silenced := True, al_SilencedUntil := Some until\<rparr> else a))))"

definition Firing :: "manager \<Rightarrow> int \<Rightarrow> state_key list \<Rightarrow> alert list" where
  "Firing m now order = List.map_filter (firing_alert m now) order"

definition Repeat :: "(rule \<Rightarrow> string) \<Rightarrow> bool \<Rightarrow> int \<Rightarrow> state_key list \<Rightarrow> manager \<Rightarrow> effect list" where
  "Repeat describe notifier now order m =
     (if \<not> notifier then [] else deliver describe notifier m now (Firing m now order))"

text \<open>Saving the acknowledged state can fail; \<open>saved\<close> is its outcome.\<close>

definition Acknowledge :: "manager \<Rightarrow> state_key \<Rightarrow> bool \<Rightarrow> string \<Rightarrow> int \<Rightarrow> 'e + unit \<Rightarrow> manager \<times> effect list \<times> ('e + bool)" where
  "Acknowledge m k ack by now saved =
     (case mg_states m k of
        None \<Rightarrow> (m, [], Inr False)
      | Some st \<Rightarrow>
          if \<not> s_Firing st then (m, [], Inr False)
          else
            let st = (if ack then st\<lparr>s_AckedSince := s_Since st, s_AckedAt := now, s_AckedBy := by\<rparr>
                      else st\<lparr>s_AckedSince := 0, s_AckedAt := 0, s_AckedBy := ''''\<rparr>)
            in (m\<lparr>mg_states := (mg_states m)(k \<mapsto> st)\<rparr>, [SaveStates [st]],
                rbind saved (\<lambda>_. Inr True)))"

section \<open>Golden baselines\<close>

datatype 'e baseline_error = NoSamples | BaselineStore 'e

definition CaptureBaseline :: "manager \<Rightarrow> baselined \<Rightarrow> 'e + unit \<Rightarrow> manager \<times> ('e baseline_error + unit)" where
  "CaptureBaseline m b saved =
     (if bl_Samples b = [] then (m, Inl NoSamples)
      else case saved of
        Inl e \<Rightarrow> (m, Inl (BaselineStore e))
      | Inr _ \<Rightarrow> (m\<lparr>mg_golden := (mg_golden m)(bl_RuleID b \<mapsto> b)\<rparr>, Inr ()))"

definition ClearBaseline :: "manager \<Rightarrow> int \<Rightarrow> 'e + bool \<Rightarrow> manager \<times> ('e + bool)" where
  "ClearBaseline m rid existed =
     (if existed = Inr True then (m\<lparr>mg_golden := (mg_golden m)(rid := None)\<rparr>, Inr True) else (m, existed))"

text \<open>Reads for the API, in the order the map and the list are visited.\<close>

definition Baselines :: "manager \<Rightarrow> int list \<Rightarrow> baselined list" where
  "Baselines m order = List.map_filter (mg_golden m) order"

definition ListSilences :: "manager \<Rightarrow> silence list" where
  "ListSilences m = mg_silences m"

record shapeRef =
  sf_Samples :: "u32 list"
  sf_Kind :: string
  sf_OK :: bool
  sf_Source :: int
  sf_HasSource :: bool

definition ShapeReferenceDetail :: "manager \<Rightarrow> int \<Rightarrow> int \<Rightarrow> int \<Rightarrow> shapeRef" where
  "ShapeReferenceDetail m rid tid aid =
     (let none = \<lparr>sf_Samples = [], sf_Kind = '''', sf_OK = False, sf_Source = 0, sf_HasSource = False\<rparr>
      in case mg_rules m rid of
        None \<Rightarrow> none
      | Some r \<Rightarrow>
          if r_Metric r \<noteq> MetricShape then none
          else if r_Baseline r = BaselineGolden then
            (case mg_golden m rid of
               None \<Rightarrow> none\<lparr>sf_Kind := ''golden''\<rparr>
             | Some b \<Rightarrow> \<lparr>sf_Samples = bl_Samples b, sf_Kind = ''golden'', sf_OK = (bl_Samples b \<noteq> []),
                 sf_Source = bl_TargetID b, sf_HasSource = True\<rparr>)
          else
            (case mg_shapes m (rid, tid, aid) of
               None \<Rightarrow> none\<lparr>sf_Kind := ''rolling''\<rparr>
             | Some ss \<Rightarrow> none\<lparr>sf_Samples := pooled ss, sf_Kind := ''rolling'', sf_OK := (pooled ss \<noteq> [])\<rparr>))"

section \<open>The rules of a target\<close>

text \<open>Both walks, on any view of a tree: they end, and they are the chain to the root.\<close>

context node_view begin

lemma up_not_Nil: "valid t \<Longrightarrow> get t i = Some n \<Longrightarrow> up t i \<noteq> []"
  using up_hd by fastforce

end

lemma nearest_climb:
  assumes "wf_tree t" and "Get t i = Some n"
  shows "nearest_loop t h (Some n) = Some (map_option t_ID (find (\<lambda>m. h (t_ID m)) (up_of t i)))"
  using assms
proof (induction i n rule: tree_view.climb_induct)
  case (root i n)
  then show ?case by (subst nearest_loop.simps) simp
next
  case (parent i n p m)
  then show ?case by (subst nearest_loop.simps) (simp del: find.simps, simp)
qed

lemma climb_chain:
  assumes "wf_tree t" and "Get t i = Some n" and "f = Get t"
  shows "climb f n acc = Some (acc @ map t_ID (up_of t i))"
  using assms(1,2)
proof (induction i n arbitrary: acc rule: tree_view.climb_induct)
  case (root i n)
  then show ?case by (subst climb.simps) simp
next
  case (parent i n p m)
  then show ?case by (subst climb.simps) (simp add: assms(3))
qed

text \<open>The rules a target is judged by: those of the first node up from it that has any.\<close>

definition nearest_rules :: "tree \<Rightarrow> rule list \<Rightarrow> int \<Rightarrow> rule list" where
  "nearest_rules t rules i =
     (case find (\<lambda>n. rules_on rules (t_ID n) \<noteq> []) (up_of t i) of None \<Rightarrow> [] | Some n \<Rightarrow> rules_on rules (t_ID n))"

lemma NearestRuleNode_find:
  "wf_tree t \<Longrightarrow> Get t i = Some n \<Longrightarrow>
    NearestRuleNode t h i = Some (map_option t_ID (find (\<lambda>m. h (t_ID m)) (up_of t i)))"
  unfolding NearestRuleNode_def using nearest_climb [of t i n h] by simp

lemma index_by_node_at: "distinct (map t_ID ts) \<Longrightarrow> index_by t_ID ts = node_at ts"
proof
  fix k
  assume d: "distinct (map t_ID ts)"
  show "index_by t_ID ts k = node_at ts k"
  proof (cases "node_at ts k")
    case None
    then have "k \<notin> t_ID ` set ts" by (simp add: node_at_def map_of_eq_None_iff image_image)
    then have "index_by t_ID ts k = None" by (auto simp: index_by_def map_of_eq_None_iff)
    then show ?thesis using None by simp
  next
    case (Some n)
    then have n: "n \<in> set ts" "t_ID n = k" by (simp_all add: node_at_Some)
    have "distinct (map fst (rev (map (\<lambda>x. (t_ID x, x)) ts)))" using d
      by (simp only: rev_map [symmetric] map_map comp_def fst_conv distinct_rev)
    then have "index_by t_ID ts k = Some n" unfolding index_by_def using n by (intro map_of_is_SomeI) auto
    then show ?thesis using Some by simp
  qed
qed

lemma New_indexed: "New ts = Inr t \<Longrightarrow> index_by t_ID ts = Get t"
  using index_by_node_at [of ts] wf_treeD(1) [of t] by (auto simp: New_iff Get_def fun_eq_iff)

lemma ancestors_chain:
  assumes "New ts = Inr t" and "Get t i = Some n"
  shows "ancestors_of ts i = Some (map t_ID (up_of t i))"
  using assms climb_chain [of t i n] by (simp add: ancestors_of_def New_indexed New_iff)

lemma resolve_target_ok:
  assumes "New ts = Inr t" and "n \<in> set ts"
  shows "\<exists>r path. Resolve ts (t_ID n) = Inr r \<and> Path ts (t_ID n) = Inr path \<and>
    (resolve_target t rules n :: 'e reload_error + applicable) =
      Inr \<lparr>ap_rules = nearest_rules t rules (t_ID n), ap_intervalS = v_Effective (res_IntervalS r),
        ap_path = path, ap_host = the (t_Host n)\<rparr>"
proof -
  have wf: "wf_tree t" and ns: "t_nodes t = ts" using assms(1) by (simp_all add: New_iff)
  have n: "Get t (t_ID n) = Some n" using wf_treeD(1) [OF wf] assms(2) ns by (simp add: Get_def node_at_mem)
  from n have "node_at (t_nodes t) (t_ID n) = Some n" by (simp add: Get_def)
  from wf_chain [OF wf this] obtain c where c: "ancestryOf ts n = Inr (n # c)" unfolding ns by blast
  then have "Resolve ts (t_ID n) = Inr (resolve_all ts (n # c))" "Path ts (t_ID n) = Inr (path_string (n # c))"
    using n by (simp_all add: Resolve_def Path_def Get_def ns)
  then show ?thesis
    by (auto simp: resolve_target_def ns tree_result_def NearestRuleNode_find [OF wf n] nearest_rules_def
        split: option.split)
qed

lemma resolve_targets_ok:
  fixes acc :: "int \<Rightarrow> applicable option"
  assumes "New ts = Inr t" and "set ns \<subseteq> set ts" and "distinct (map t_ID ns)"
  shows "\<exists>f. (resolve_targets t rules ns acc :: 'e reload_error + (int \<Rightarrow> applicable option)) = Inr f \<and>
    (\<forall>i. f i = (case index_by t_ID ns i of
        None \<Rightarrow> acc i
      | Some n \<Rightarrow> if t_Host n = None \<or> \<not> t_Enabled n then acc i
          else (case (resolve_target t rules n :: 'e reload_error + applicable) of Inr a \<Rightarrow> Some a | Inl _ \<Rightarrow> acc i)))"
  using assms(2,3)
proof (induction ns arbitrary: acc)
  case Nil
  show ?case by (simp add: index_by_def)
next
  case (Cons n ns)
  then have sub: "set ns \<subseteq> set ts" "distinct (map t_ID ns)" and n: "n \<in> set ts" by simp_all
  have idx: "index_by t_ID (n # ns) i = (if i = t_ID n then Some n else index_by t_ID ns i)" for i
  proof -
    have "index_by t_ID ns (t_ID n) = None" using Cons.prems(2) by (auto simp: index_by_def map_of_eq_None_iff)
    then show ?thesis by (simp add: index_by_def map_add_def split: option.split)
  qed
  have none: "index_by t_ID ns (t_ID n) = None" using Cons.prems(2) by (auto simp: index_by_def map_of_eq_None_iff)
  obtain a where a: "(resolve_target t rules n :: 'e reload_error + applicable) = Inr a"
    using resolve_target_ok [OF assms(1) n] by blast
  let ?acc = "if t_Host n = None \<or> \<not> t_Enabled n then acc else acc(t_ID n \<mapsto> a)"
  obtain f where f: "(resolve_targets t rules ns ?acc :: 'e reload_error + (int \<Rightarrow> applicable option)) = Inr f"
    and f': "\<And>i. f i = (case index_by t_ID ns i of
        None \<Rightarrow> ?acc i
      | Some n \<Rightarrow> if t_Host n = None \<or> \<not> t_Enabled n then ?acc i
          else (case (resolve_target t rules n :: 'e reload_error + applicable) of Inr a \<Rightarrow> Some a | Inl _ \<Rightarrow> ?acc i))"
    using Cons.IH [OF sub, of ?acc] by blast
  have "(resolve_targets t rules (n # ns) acc :: 'e reload_error + (int \<Rightarrow> applicable option)) = Inr f"
    using f a by (cases "t_Host n = None \<or> \<not> t_Enabled n") auto
  moreover have "f i = (case index_by t_ID (n # ns) i of
        None \<Rightarrow> acc i
      | Some n \<Rightarrow> if t_Host n = None \<or> \<not> t_Enabled n then acc i
          else (case (resolve_target t rules n :: 'e reload_error + applicable) of Inr a \<Rightarrow> Some a | Inl _ \<Rightarrow> acc i))" for i
  proof (cases "i = t_ID n")
    case True
    then show ?thesis using f' [of i] none a by (simp add: idx)
  next
    case False
    then have "?acc i = acc i" by simp
    then show ?thesis using False f' [of i] by (simp only: idx if_False)
  qed
  ultimately show ?case by blast
qed

section \<open>Properties: reloading\<close>

lemma reload_read_rules:
  "reload_read sn = Inr b \<Longrightarrow> \<exists>rules. sn_rules sn = Inr rules \<and> bu_byID b = index_by r_ID rules"
  by (auto simp: reload_read_def store_result_def Let_def rbind_Inr_iff split: sum.split_asm)

lemma stored_rules_exist:
  assumes "reload_read sn = Inr b" and "bu_stored b k = Some st"
  shows "bu_byID b (fst k) \<noteq> None" and "key_of st = k"
proof -
  from assms(1) obtain states where s: "bu_stored b = index_by key_of (filter (\<lambda>st. bu_byID b (s_RuleID st) \<noteq> None) states)"
    by (auto simp: reload_read_def store_result_def Let_def rbind_Inr_iff split: sum.split_asm)
  have "st \<in> set (filter (\<lambda>st. bu_byID b (s_RuleID st) \<noteq> None) states) \<and> key_of st = k"
    using assms(2) unfolding s index_by_def rev_map by (drule_tac map_of_key) simp
  then show "bu_byID b (fst k) \<noteq> None" "key_of st = k" by (auto simp: key_of_def)
qed

text \<open>
  Property C22. A reload never rolls evaluation back. If any read or the tree fails, nothing
  changes. If it succeeds, every series of a rule that still exists keeps the state it has in
  memory, whatever the stored copy says, and its shape memory; a series known only to the
  store takes the stored state; and no state and no shape memory of a deleted rule remains.
\<close>

theorem reload_keeps_progress:
  assumes "Reload sn m = (m', r)"
  shows "(r = Inl e \<longrightarrow> m' = m) \<and>
    (r = Inr () \<longrightarrow>
      (\<forall>k. (mg_rules m' (fst k) = None \<longrightarrow> mg_states m' k = None \<and> mg_shapes m' k = None) \<and>
           (mg_rules m' (fst k) \<noteq> None \<longrightarrow> mg_shapes m' k = mg_shapes m k \<and>
              (mg_states m k \<noteq> None \<longrightarrow> mg_states m' k = mg_states m k))) \<and>
      (\<exists>states. sn_states sn = Inr states \<and>
         (\<forall>k. mg_rules m' (fst k) \<noteq> None \<longrightarrow> mg_states m k = None \<longrightarrow>
            mg_states m' k = index_by key_of (filter (\<lambda>st. mg_rules m' (s_RuleID st) \<noteq> None) states) k)))"
proof (cases "reload_read sn")
  case (Inl a)
  then show ?thesis using assms by (auto simp: Reload_def)
next
  case (Inr b)
  then have m': "m' = reload_install b m" "r = Inr ()" using assms by (auto simp: Reload_def)
  obtain states where "sn_states sn = Inr states"
    "bu_stored b = index_by key_of (filter (\<lambda>st. bu_byID b (s_RuleID st) \<noteq> None) states)"
    using Inr by (auto simp: reload_read_def store_result_def Let_def rbind_Inr_iff split: sum.split_asm)
  moreover have "mg_rules m' = bu_byID b"
    "mg_states m' k = (case mg_states m k of Some live \<Rightarrow> if bu_byID b (fst k) \<noteq> None then Some live else bu_stored b k
       | None \<Rightarrow> bu_stored b k)"
    "mg_shapes m' k = (if bu_byID b (fst k) \<noteq> None then mg_shapes m k else None)" for k
    by (simp_all add: m' reload_install_def)
  moreover have "bu_stored b k = None" if "bu_byID b (fst k) = None" for k
    using stored_rules_exist(1) [OF Inr, of k] that by (cases "bu_stored b k") auto
  ultimately show ?thesis using m'(2) by (auto split: option.split)
qed

text \<open>
  The two halves of a reload are not one critical section: a silence created between them is in the
  store and is no longer in memory after the second half.
\<close>

lemma reload_drops_silence_created_meanwhile:
  assumes "AddSilence m s now (Inr sid :: 'e + int) = (m', Inr s')"
  shows "s' \<in> set (mg_silences m') \<and> mg_silences (reload_install b m') = bu_silences b"
  using assms by (auto simp: AddSilence_def reload_install_def Let_def split: sum.split_asm)

text \<open>
  Property C23. What a reload resolves. Given a list of targets that form a tree and every read
  succeeding, the reload succeeds: it returns (the walks to the root end), every enabled host
  target is judged by all the rules of the nearest node up from it that has any, and by no
  other, at its resolved interval; every other target is not judged at all; and a target's
  ancestors, which scope silences, are the ids on its chain to the root.
\<close>

theorem reload_resolves:
  fixes sn :: "'e snapshot"
  assumes "sn_targets sn = Inr ts" and "New ts = Inr t" and "sn_rules sn = Inr rules"
    and "sn_states sn = Inr states" and "sn_agentNames sn = Inr names" and "sn_silences sn = Inr sils"
    and "sn_baselines sn = Inr bls"
  shows "\<exists>m'. Reload sn m = (m', Inr ()) \<and>
    (\<forall>i. Get t i = None \<longrightarrow> mg_byTarget m' i = None \<and> mg_ancestors m' i = None) \<and>
    (\<forall>i n. Get t i = Some n \<longrightarrow>
       mg_ancestors m' i = Some (map t_ID (up_of t i)) \<and>
       (if t_Host n = None \<or> \<not> t_Enabled n then mg_byTarget m' i = None
        else \<exists>r path. Resolve ts i = Inr r \<and> Path ts i = Inr path \<and>
          mg_byTarget m' i = Some \<lparr>ap_rules = nearest_rules t rules i,
            ap_intervalS = v_Effective (res_IntervalS r), ap_path = path, ap_host = the (t_Host n)\<rparr>))"
proof -
  have d: "distinct (map t_ID ts)" using assms(2) wf_treeD(1) [of t] by (auto simp: New_iff)
  obtain f where f: "(resolve_targets t rules ts (\<lambda>_. None) :: 'e reload_error + (int \<Rightarrow> applicable option)) = Inr f"
    and f': "\<And>i. f i = (case index_by t_ID ts i of None \<Rightarrow> None
      | Some n \<Rightarrow> if t_Host n = None \<or> \<not> t_Enabled n then None
          else (case (resolve_target t rules n :: 'e reload_error + applicable) of Inr a \<Rightarrow> Some a | Inl _ \<Rightarrow> None))"
    using resolve_targets_ok [OF assms(2) order_refl d, of rules "\<lambda>_. None", where 'e = 'e] by blast
  obtain b where b: "reload_read sn = Inr b" "bu_resolved b = f" "bu_ancestors b = ancestors_of ts"
    using assms f by (auto simp: reload_read_def store_result_def tree_result_def Let_def)
  have "Get t i = None \<Longrightarrow> ancestors_of ts i = None" for i
    by (simp add: ancestors_of_def New_indexed [OF assms(2)])
  moreover have "\<exists>r path. Resolve ts i = Inr r \<and> Path ts i = Inr path \<and>
      f i = Some \<lparr>ap_rules = nearest_rules t rules i,
        ap_intervalS = v_Effective (res_IntervalS r), ap_path = path, ap_host = the (t_Host n)\<rparr>"
    if n: "Get t i = Some n" and h: "\<not> (t_Host n = None \<or> \<not> t_Enabled n)" for i n
  proof -
    have i: "t_ID n = i" "n \<in> set ts" using n assms(2) by (auto simp: Get_def New_iff node_at_Some)
    show ?thesis using resolve_target_ok [OF assms(2) i(2), of rules, where 'e = 'e] n h
      by (auto simp: f' New_indexed [OF assms(2)] i(1))
  qed
  ultimately show ?thesis
    using ancestors_chain [OF assms(2)] b
    by (auto simp: Reload_def reload_install_def f' New_indexed [OF assms(2)])
qed

section \<open>One series at a time\<close>

text \<open>
  The abstract evaluation: a series (a rule, a target, an agent) has a state, a shape memory, what it
  announced and what it saved, and a measurement of that target by that agent advances it. What
  the manager holds for a key is read by \<open>series_view\<close>; \<open>Observe\<close> advances every view as its
  series would advance alone.
\<close>

type_synonym series_state = "alert_state option \<times> shapeState option \<times> alert list \<times> alert_state list"

definition announce :: "manager \<Rightarrow> int \<Rightarrow> rule \<Rightarrow> applicable \<Rightarrow> alert_state \<Rightarrow> transition \<Rightarrow> alert list" where
  "announce m now r app st t =
     (case t of NoChange \<Rightarrow> [] | Fired \<Rightarrow> [alertLocked m now r st app True] | Resolved \<Rightarrow> [alertLocked m now r st app False])"

definition series_step :: "manager \<Rightarrow> int \<Rightarrow> applicable \<Rightarrow> rule \<Rightarrow> int \<Rightarrow> int \<Rightarrow> alert_input \<Rightarrow> series_state \<Rightarrow> series_state" where
  "series_step m now app r tid aid meas s =
     (if in_TargetID meas \<noteq> tid \<or> in_AgentID meas \<noteq> aid then s
      else let (st, ss, fired, saved) = s;
               st = (case st of None \<Rightarrow> new_state (r_ID r) tid aid | Some st \<Rightarrow> st);
               (st, ss, t) = judge r (ap_intervalS app) (golden_of (mg_golden m) (r_ID r)) meas st ss
           in (Some st, ss, fired @ announce m now r app st t, saved @ [st]))"

definition alert_key :: "alert \<Rightarrow> state_key" where
  "alert_key a = (r_ID (al_Rule a), al_TargetID a, al_AgentID a)"

definition series_view :: "state_key \<Rightarrow> observed \<Rightarrow> series_state" where
  "series_view k s = (let (m, fired, dirty) = s
     in (mg_states m k, mg_shapes m k, filter (\<lambda>a. alert_key a = k) fired, filter (\<lambda>st. key_of st = k) dirty))"

text \<open>Every state is kept under its own key, and evaluation touches nothing but states and memories.\<close>

definition keyed :: "manager \<Rightarrow> bool" where
  "keyed m \<longleftrightarrow> (\<forall>k st. mg_states m k = Some st \<longrightarrow> key_of st = k)"

definition same_rules :: "manager \<Rightarrow> manager \<Rightarrow> bool" where
  "same_rules m m' \<longleftrightarrow> mg_byTarget m' = mg_byTarget m \<and> mg_rules m' = mg_rules m \<and> mg_agentNames m' = mg_agentNames m \<and>
     mg_silences m' = mg_silences m \<and> mg_ancestors m' = mg_ancestors m \<and> mg_golden m' = mg_golden m"

lemma EvaluateValue_key: "EvaluateValue r st v tr ts iv = (st', t) \<Longrightarrow> key_of st' = key_of st"
  by (auto simp: EvaluateValue_def key_of_def Let_def split: if_split_asm option.split_asm)

lemma judge_key: "judge r iv g meas st ss = (st', ss', t) \<Longrightarrow> key_of st' = key_of st"
  by (auto simp: judge_def Evaluate_def dest: EvaluateValue_key split: if_split_asm prod.split_asm)

lemma key_new_state [simp]: "key_of (new_state rid tid aid) = (rid, tid, aid)"
  by (simp add: key_of_def new_state_def)

lemma same_rules_refl [simp]: "same_rules m m"
  by (simp add: same_rules_def)

lemma same_rules_trans: "same_rules a b \<Longrightarrow> same_rules b c \<Longrightarrow> same_rules a c"
  by (simp add: same_rules_def)

lemma same_rulesD:
  assumes "same_rules m m'"
  shows "mg_byTarget m' = mg_byTarget m" and "mg_golden m' = mg_golden m"
    and "alertLocked m' now r st app f = alertLocked m now r st app f"
    and "silencedLocked m' now a = silencedLocked m now a" and "mg_rules m' = mg_rules m"
proof -
  have "covers m' now a s = covers m now a s" for s using assms by (simp add: covers_def same_rules_def)
  then have "silenced_loop m' now a b ss = silenced_loop m now a b ss" for b ss
    by (induction m now a b ss rule: silenced_loop.induct) simp_all
  then show "silencedLocked m' now a = silencedLocked m now a" using assms by (simp add: silencedLocked_def same_rules_def)
qed (use assms in \<open>simp_all add: same_rules_def alertLocked_def\<close>)

lemma alert_key_alertLocked [simp]: "alert_key (alertLocked m now r st app f) = (r_ID r, s_TargetID st, s_AgentID st)"
  by (simp add: alertLocked_def alert_key_def Let_def)

lemma filter_announce:
  "filter (\<lambda>a. alert_key a = k) (announce m now r app st t) =
    (if (r_ID r, s_TargetID st, s_AgentID st) = k then announce m now r app st t else [])"
  by (cases t) (simp_all add: announce_def)

text \<open>What one rule does to the view of a key: its own series steps, no other moves.\<close>

lemma observe_rule_view:
  assumes "keyed m" and "observe_rule now app meas r (m, fired, dirty) = (m', fired', dirty')"
  shows "keyed m'" and "same_rules m m'"
    and "series_view k (m', fired', dirty') =
      (if k = (r_ID r, in_TargetID meas, in_AgentID meas)
       then series_step m now app r (in_TargetID meas) (in_AgentID meas) meas (series_view k (m, fired, dirty))
       else series_view k (m, fired, dirty))"
proof -
  let ?k = "(r_ID r, in_TargetID meas, in_AgentID meas)"
  obtain st ss t where j: "judge r (ap_intervalS app) (golden_of (mg_golden m) (r_ID r)) meas (state_of m r meas)
      (mg_shapes m ?k) = (st, ss, t)" by (metis prod_cases3)
  have m': "m' = m\<lparr>mg_states := (mg_states m)(?k \<mapsto> st), mg_shapes := (mg_shapes m)(?k := ss)\<rparr>"
    and f': "fired' = fired @ announce (m\<lparr>mg_states := (mg_states m)(?k \<mapsto> st), mg_shapes := (mg_shapes m)(?k := ss)\<rparr>)
        now r app st t"
    and d': "dirty' = dirty @ [st]"
    using assms(2) j by (auto simp: observe_rule_def Let_def announce_def split: transition.splits)
  show same: "same_rules m m'" by (simp add: m' same_rules_def)
  have "key_of (state_of m r meas) = ?k"
    using assms(1) by (simp add: state_of_def keyed_def split: option.split)
  then have key: "key_of st = ?k" using judge_key [OF j] by simp
  then show "keyed m'" using assms(1) by (simp add: keyed_def m')
  have ann: "announce m' now r app st t = announce m now r app st t"
    by (simp add: announce_def same_rulesD(3) [OF same] cong: transition.case_cong)
  have ids: "(r_ID r, s_TargetID st, s_AgentID st) = ?k" using key by (simp add: key_of_def)
  show "series_view k (m', fired', dirty') = (if k = ?k
       then series_step m now app r (in_TargetID meas) (in_AgentID meas) meas (series_view k (m, fired, dirty))
       else series_view k (m, fired, dirty))"
    using key j ids f' d' ann unfolding m' [symmetric]
    by (auto simp: series_view_def series_step_def m' state_of_def filter_announce Let_def split: option.splits)
qed

lemma series_step_same_rules:
  "same_rules m m' \<Longrightarrow> series_step m' now app r tid aid meas s = series_step m now app r tid aid meas s"
  by (simp add: series_step_def announce_def same_rulesD cong: transition.case_cong)

lemma observe_rules_view:
  assumes "keyed m" and "fold (observe_rule now app meas) rs (m, fired, dirty) = (m', fired', dirty')"
    and "distinct (map r_ID rs)"
  shows "keyed m' \<and> same_rules m m' \<and>
    (\<forall>r \<in> set rs. series_view (r_ID r, tid, aid) (m', fired', dirty') =
       series_step m now app r tid aid meas (series_view (r_ID r, tid, aid) (m, fired, dirty))) \<and>
    (\<forall>rid. rid \<notin> r_ID ` set rs \<longrightarrow>
       series_view (rid, tid, aid) (m', fired', dirty') = series_view (rid, tid, aid) (m, fired, dirty))"
  using assms
proof (induction rs arbitrary: m fired dirty)
  case Nil
  then show ?case by simp
next
  case (Cons r rs)
  obtain m1 f1 d1 where o1: "observe_rule now app meas r (m, fired, dirty) = (m1, f1, d1)" by (metis prod_cases3)
  note one = observe_rule_view [OF Cons.prems(1) o1]
  have rest: "fold (observe_rule now app meas) rs (m1, f1, d1) = (m', fired', dirty')" "distinct (map r_ID rs)"
    "r_ID r \<notin> r_ID ` set rs"
    using Cons.prems(2,3) o1 by simp_all
  note IH = Cons.IH [OF one(1) rest(1,2)]
  have here: "series_view (rid, tid, aid) (m1, f1, d1) =
      (if rid = r_ID r then series_step m now app r tid aid meas (series_view (rid, tid, aid) (m, fired, dirty))
       else series_view (rid, tid, aid) (m, fired, dirty))" for rid
    using one(3) [of "(rid, tid, aid)"] by (auto simp: series_step_def)
  have "\<forall>r' \<in> set (r # rs). series_view (r_ID r', tid, aid) (m', fired', dirty') =
       series_step m now app r' tid aid meas (series_view (r_ID r', tid, aid) (m, fired, dirty))"
  proof
    fix r'
    assume "r' \<in> set (r # rs)"
    then consider "r' = r" | "r' \<in> set rs" "r_ID r' \<noteq> r_ID r" using rest(3) by (metis image_eqI set_ConsD)
    then show "series_view (r_ID r', tid, aid) (m', fired', dirty') =
       series_step m now app r' tid aid meas (series_view (r_ID r', tid, aid) (m, fired, dirty))"
      by cases (use IH rest(3) here series_step_same_rules [OF one(2)] in simp_all)
  qed
  moreover have "\<forall>rid. rid \<notin> r_ID ` set (r # rs) \<longrightarrow>
       series_view (rid, tid, aid) (m', fired', dirty') = series_view (rid, tid, aid) (m, fired, dirty)"
    using IH here by auto
  ultimately show ?case using IH same_rules_trans [OF one(2)] by blast
qed

definition rule_ids_distinct :: "manager \<Rightarrow> bool" where
  "rule_ids_distinct m \<longleftrightarrow> (\<forall>i app. mg_byTarget m i = Some app \<longrightarrow> distinct (map r_ID (ap_rules app)))"

text \<open>The series a measurement reaches: a rule of its target.\<close>

definition target_step :: "manager \<Rightarrow> int \<Rightarrow> state_key \<Rightarrow> alert_input \<Rightarrow> series_state \<Rightarrow> series_state" where
  "target_step m now k meas s =
     (case mg_byTarget m (fst (snd k)) of
        None \<Rightarrow> s
      | Some app \<Rightarrow>
          (case find (\<lambda>r. r_ID r = fst k) (ap_rules app) of
             None \<Rightarrow> s
           | Some r \<Rightarrow> series_step m now app r (fst (snd k)) (snd (snd k)) meas s))"

lemma observe_one_view:
  assumes "keyed m" and "rule_ids_distinct m" and "observe_one now meas (m, fired, dirty) = (m', fired', dirty')"
  shows "keyed m'" and "same_rules m m'"
    and "series_view k (m', fired', dirty') = target_step m now k meas (series_view k (m, fired, dirty))"
proof -
  obtain rid tid aid where k: "k = (rid, tid, aid)" by (metis prod_cases3)
  have all: "keyed m' \<and> same_rules m m' \<and>
    series_view k (m', fired', dirty') = target_step m now k meas (series_view k (m, fired, dirty))"
  proof (cases "mg_byTarget m (in_TargetID meas)")
    case None
    then show ?thesis using assms by (auto simp: observe_one_def target_step_def series_step_def k split: option.split)
  next
    case (Some app)
    then have run: "fold (observe_rule now app meas) (ap_rules app) (m, fired, dirty) = (m', fired', dirty')"
      and d: "distinct (map r_ID (ap_rules app))"
      using assms by (auto simp: observe_one_def rule_ids_distinct_def)
    note all = observe_rules_view [OF assms(1) run d, of "in_TargetID meas" "in_AgentID meas"]
    show ?thesis
    proof (cases "tid = in_TargetID meas \<and> aid = in_AgentID meas")
      case True
      show ?thesis
      proof (cases "find (\<lambda>r. r_ID r = rid) (ap_rules app)")
        case None
        then have "rid \<notin> r_ID ` set (ap_rules app)" by (auto simp: find_None_iff)
        then show ?thesis using all True Some None by (simp add: target_step_def k)
      next
        case (Some r)
        then have "r \<in> set (ap_rules app)" "r_ID r = rid" by (auto simp: find_Some_iff)
        then show ?thesis using all True Some \<open>mg_byTarget m (in_TargetID meas) = Some app\<close>
          by (auto simp: target_step_def k)
      qed
    next
      case False
      have "\<forall>r \<in> set (ap_rules app). series_view (r_ID r, tid, aid) (m', fired', dirty') =
          series_view (r_ID r, tid, aid) (m, fired, dirty)"
        using observe_rules_view [OF assms(1) run d, of tid aid] False by (auto simp: series_step_def)
      then have "series_view k (m', fired', dirty') = series_view k (m, fired, dirty)"
        using observe_rules_view [OF assms(1) run d, of tid aid] k by (cases "rid \<in> r_ID ` set (ap_rules app)") auto
      then show ?thesis using all False by (auto simp: target_step_def series_step_def k split: option.split)
    qed
  qed
  then show "keyed m'" "same_rules m m'"
    "series_view k (m', fired', dirty') = target_step m now k meas (series_view k (m, fired, dirty))" by simp_all
qed

section \<open>Properties: observing and silencing\<close>

definition events_of :: "effect list \<Rightarrow> event list" where
  "events_of effs = concat (map (\<lambda>e. case e of RecordEvents es \<Rightarrow> es | _ \<Rightarrow> []) effs)"

definition notified_of :: "effect list \<Rightarrow> alert list" where
  "notified_of effs = concat (map (\<lambda>e. case e of Notify as \<Rightarrow> as | _ \<Rightarrow> []) effs)"

definition saved_of :: "effect list \<Rightarrow> alert_state list" where
  "saved_of effs = concat (map (\<lambda>e. case e of SaveStates ss \<Rightarrow> ss | _ \<Rightarrow> []) effs)"

definition event_key :: "event \<Rightarrow> state_key" where
  "event_key e = (ev_RuleID e, ev_TargetID e, ev_AgentID e)"

lemma event_key_of [simp]: "event_key (event_of describe now a) = alert_key a"
  by (simp add: event_key_def event_of_def alert_key_def)

lemma deliver_effects:
  "events_of (deliver describe nf m now as) = map (event_of describe now) as"
  "saved_of (deliver describe nf m now as) = []"
  "notified_of (deliver describe nf m now as) = (if nf then filter (\<lambda>a. \<not> fst (silencedLocked m now a)) as else [])"
  by (auto simp: deliver_def events_of_def saved_of_def notified_of_def Let_def filter_empty_conv)

lemma effects_append:
  "events_of (xs @ ys) = events_of xs @ events_of ys" "saved_of (xs @ ys) = saved_of xs @ saved_of ys"
  "notified_of (xs @ ys) = notified_of xs @ notified_of ys"
  by (simp_all add: events_of_def saved_of_def notified_of_def)

lemma saved_prefix:
  "saved_of (if d \<noteq> [] then [SaveStates d] else []) = d" "events_of (if d \<noteq> [] then [SaveStates d] else []) = []"
  "notified_of (if d \<noteq> [] then [SaveStates d] else []) = []"
  by (simp_all add: events_of_def saved_of_def notified_of_def)

lemma target_step_same_rules: "same_rules m m' \<Longrightarrow> target_step m' now k meas s = target_step m now k meas s"
  by (simp add: target_step_def series_step_same_rules same_rulesD cong: option.case_cong)

lemma observe_all_view:
  assumes "keyed m" and "rule_ids_distinct m" and "fold (observe_one now) inputs (m, fired, dirty) = (m', fired', dirty')"
  shows "keyed m' \<and> same_rules m m' \<and>
    series_view k (m', fired', dirty') = fold (target_step m now k) inputs (series_view k (m, fired, dirty))"
  using assms
proof (induction inputs arbitrary: m fired dirty)
  case Nil
  then show ?case by simp
next
  case (Cons meas inputs)
  obtain m1 f1 d1 where o1: "observe_one now meas (m, fired, dirty) = (m1, f1, d1)" by (metis prod_cases3)
  note one = observe_one_view [OF Cons.prems(1,2) o1]
  have "rule_ids_distinct m1" using Cons.prems(2) by (simp add: rule_ids_distinct_def same_rulesD [OF one(2)])
  moreover have "fold (observe_one now) inputs (m1, f1, d1) = (m', fired', dirty')" using Cons.prems(3) o1 by simp
  ultimately have "keyed m' \<and> same_rules m1 m' \<and>
      series_view k (m', fired', dirty') = fold (target_step m1 now k) inputs (series_view k (m1, f1, d1))"
    using Cons.IH [OF one(1)] by blast
  moreover have "target_step m1 now k = target_step m now k"
    by (intro ext) (rule target_step_same_rules [OF one(2)])
  ultimately show ?case using same_rules_trans [OF one(2)] one(3) by simp
qed

text \<open>
  Property C20. \<open>Observe\<close> refines the evaluation of each series alone: whatever batch arrives, in
  whatever order its measurements are mixed, the state and the shape memory of every series
  (rule, target, agent) afterwards, the events recorded for it and the states saved for it are
  those of its own measurements taken in order, as if no other series existed; so the last state
  saved is the one in memory. What a reload resolved is untouched.
\<close>

theorem Observe_refines_series:
  assumes "keyed m" and "rule_ids_distinct m" and "Observe describe nf now inputs m = (m', effs)"
  shows "keyed m' \<and> rule_ids_distinct m' \<and> same_rules m m' \<and>
    (\<exists>ann saved. fold (target_step m now k) inputs (mg_states m k, mg_shapes m k, [], []) =
        (mg_states m' k, mg_shapes m' k, ann, saved) \<and>
      filter (\<lambda>e. event_key e = k) (events_of effs) = map (event_of describe now) ann \<and>
      filter (\<lambda>st. key_of st = k) (saved_of effs) = saved \<and>
      (saved \<noteq> [] \<longrightarrow> mg_states m' k = Some (last saved)))"
proof -
  obtain fired dirty where run: "fold (observe_one now) inputs (m, [], []) = (m', fired, dirty)"
    and effs: "effs = (if dirty \<noteq> [] then [SaveStates dirty] else []) @ deliver describe nf m' now fired"
    using assms(3) by (auto simp: Observe_def split: prod.split_asm)
  note view = observe_all_view [OF assms(1,2) run, of k]
  have last: "case fold (target_step m now k) ms s of (st, ss, ann, saved) \<Rightarrow> saved \<noteq> [] \<longrightarrow> st = Some (last saved)"
    if "case s of (st, ss, ann, saved) \<Rightarrow> saved \<noteq> [] \<longrightarrow> st = Some (last saved)" for ms s
    using that
    by (induction ms arbitrary: s)
      (auto simp: target_step_def series_step_def Let_def split: option.split prod.split)
  from last [of "(mg_states m k, mg_shapes m k, [], [])" inputs] view
  have "series_view k (m', fired, dirty) = fold (target_step m now k) inputs (mg_states m k, mg_shapes m k, [], [])"
    "filter (\<lambda>st. key_of st = k) dirty \<noteq> [] \<longrightarrow> mg_states m' k = Some (last (filter (\<lambda>st. key_of st = k) dirty))"
    by (auto simp: series_view_def)
  moreover have "rule_ids_distinct m'"
    using assms(2) view same_rulesD(1) [of m m'] by (simp add: rule_ids_distinct_def)
  ultimately show ?thesis using view
    by (intro conjI exI [of _ "filter (\<lambda>a. alert_key a = k) fired"] exI [of _ "filter (\<lambda>st. key_of st = k) dirty"])
      (simp_all add: effs effects_append deliver_effects saved_prefix series_view_def filter_map comp_def)
qed

lemma silenced_loop_Max:
  "silenced_loop m now a (b, until) ss =
    (b \<or> (\<exists>s \<in> set ss. covers m now a s), Max (insert until (sil_EndsAt ` {s \<in> set ss. covers m now a s})))"
proof (induction ss arbitrary: b "until")
  case (Cons s ss)
  have cov: "{x \<in> set (s # ss). covers m now a x} =
      (if covers m now a s then insert s {x \<in> set ss. covers m now a x} else {x \<in> set ss. covers m now a x})" by auto
  have fin: "finite (sil_EndsAt ` {x \<in> set ss. covers m now a x})" by simp
  show ?case
  proof (cases "covers m now a s")
    case True
    then have "Max (insert until (sil_EndsAt ` {x \<in> set (s # ss). covers m now a x})) =
        Max (insert (max until (sil_EndsAt s)) (sil_EndsAt ` {x \<in> set ss. covers m now a x}))"
      using fin by (cases "sil_EndsAt ` {x \<in> set ss. covers m now a x} = {}") (simp_all only: cov True if_True image_insert Max_insert finite_insert
            Max_singleton insert_not_empty max.assoc max.left_commute not_False_eq_True)
    moreover have "(if sil_EndsAt s > until then sil_EndsAt s else until) = max until (sil_EndsAt s)" by (simp add: max_def)
    ultimately show ?thesis using Cons.IH [of True "max until (sil_EndsAt s)"] True by simp
  next
    case False
    then have "{x. (x = s \<or> x \<in> set ss) \<and> covers m now a x} = {x \<in> set ss. covers m now a x}" by auto
    then show ?thesis using Cons.IH [of b "until"] False by simp
  qed
qed simp

lemma silencedLocked_iff: "fst (silencedLocked m now a) \<longleftrightarrow> (\<exists>s \<in> set (mg_silences m). covers m now a s)"
  by (simp add: silencedLocked_def silenced_loop_Max)

text \<open>
  Property C24. A silence hides a notification and never a fact. Whatever is delivered, every alert
  is recorded, in order; the receiver, if there is one, gets exactly the alerts no active
  silence covers; \<open>Firing\<close> still lists a covered one, marked with the latest end of the
  silences that cover it; and a repeat sends exactly the firing alerts no silence covers
  (and records all of them once more).
\<close>

theorem silence_hides_no_fact:
  "events_of (deliver describe nf m now as) = map (event_of describe now) as \<and>
   notified_of (deliver describe nf m now as) =
     (if nf then filter (\<lambda>a. \<not> (\<exists>s \<in> set (mg_silences m). covers m now a s)) as else []) \<and>
   (\<forall>k a. firing_alert m now k = Some a \<longleftrightarrow>
      (\<exists>st r app a0. mg_states m k = Some st \<and> s_Firing st \<and> mg_rules m (fst k) = Some r \<and>
         mg_byTarget m (s_TargetID st) = Some app \<and> a0 = alertLocked m now r st app True \<and>
         a = (if \<exists>s \<in> set (mg_silences m). covers m now a0 s
              then a0\<lparr>al_Silenced := True, al_SilencedUntil :=
                Some (Max (insert 0 (sil_EndsAt ` {s \<in> set (mg_silences m). covers m now a0 s})))\<rparr> else a0))) \<and>
   events_of (Repeat describe nf now order m) = (if nf then map (event_of describe now) (Firing m now order) else []) \<and>
   notified_of (Repeat describe nf now order m) =
     (if nf then filter (\<lambda>a. \<not> (\<exists>s \<in> set (mg_silences m). covers m now a s)) (Firing m now order) else [])"
proof -
  have "firing_alert m now k = Some a \<longleftrightarrow>
      (\<exists>st r app a0. mg_states m k = Some st \<and> s_Firing st \<and> mg_rules m (fst k) = Some r \<and>
         mg_byTarget m (s_TargetID st) = Some app \<and> a0 = alertLocked m now r st app True \<and>
         a = (if \<exists>s \<in> set (mg_silences m). covers m now a0 s
              then a0\<lparr>al_Silenced := True, al_SilencedUntil :=
                Some (Max (insert 0 (sil_EndsAt ` {s \<in> set (mg_silences m). covers m now a0 s})))\<rparr> else a0))" for k a
    by (auto simp: firing_alert_def silencedLocked_def silenced_loop_Max Let_def split: option.splits if_splits)
  moreover have "events_of [] = []" "notified_of [] = []" by (simp_all add: events_of_def notified_of_def)
  ultimately show ?thesis by (simp add: deliver_effects silencedLocked_iff Repeat_def)
qed

text \<open>
  Property C25. A silence on a group reaches everything under it, at once and only for its window:
  after a reload and the creation of a valid silence scoped to a target (any agent, any rule),
  an alert about a node of the tree is withheld at an instant inside the window if the scoped
  target is on that node's chain to the root, and at every instant an alert that was withheld
  before still is.
\<close>

theorem silence_covers_subtree:
  assumes "sn_targets sn = Inr ts" and "New ts = Inr t" and "Reload sn m0 = (m, Inr ())"
    and "AddSilence m s now (Inr sid :: 'e + int) = (m', Inr s')"
    and "sil_TargetID s = Some g" and "sil_AgentID s = None" and "sil_RuleID s = None"
    and "Get t (al_TargetID a) = Some n"
  shows "(sil_StartsAt s \<le> at_time \<longrightarrow> at_time < sil_EndsAt s \<longrightarrow> g \<in> t_ID ` set (up_of t (al_TargetID a)) \<longrightarrow>
      a \<notin> set (notified_of (deliver describe True m' at_time [a]))) \<and>
    (g \<notin> t_ID ` set (up_of t (al_TargetID a)) \<or> \<not> (sil_StartsAt s \<le> at_time \<and> at_time < sil_EndsAt s) \<longrightarrow>
      fst (silencedLocked m' at_time a) = fst (silencedLocked m at_time a)) \<and>
    (fst (silencedLocked m at_time a) \<longrightarrow> fst (silencedLocked m' at_time a))"
proof -
  have anc: "mg_ancestors m = ancestors_of ts"
    using assms(1,3) by (auto simp: Reload_def reload_read_def reload_install_def store_result_def Let_def
        rbind_Inr_iff split: sum.split_asm)
  have m': "m' = m\<lparr>mg_silences := mg_silences m @ [s']\<rparr>" "s' = s\<lparr>sil_CreatedAt := now, sil_ID := sid\<rparr>"
    using assms(4) by (auto simp: AddSilence_def Let_def split: sum.split_asm)
  have cov: "covers m' at_time a x = covers m at_time a x" for x by (simp add: covers_def m'(1))
  have new: "covers m at_time a s' \<longleftrightarrow> sil_StartsAt s \<le> at_time \<and> at_time < sil_EndsAt s \<and>
      g \<in> t_ID ` set (up_of t (al_TargetID a))"
    using assms(5,6,7) by (auto simp: covers_def activeAt_def m'(2) anc ancestors_chain [OF assms(2,8)])
  have sil: "mg_silences m' = mg_silences m @ [s']" by (simp add: m'(1))
  show ?thesis by (auto simp: silencedLocked_iff deliver_effects cov sil new)
qed

section \<open>Every reachable manager is consistent\<close>

text \<open>
  The operations as a step relation: the clock, what the store answers and what arrives are
  arbitrary, except that rule ids are unique in what a reload reads (they are a primary key).
\<close>

inductive manager_step :: "manager \<Rightarrow> manager \<Rightarrow> bool" where
  reload: "(\<And>rules. sn_rules sn = Inr rules \<Longrightarrow> distinct (map r_ID rules)) \<Longrightarrow> Reload (sn :: unit snapshot) m = (m', r) \<Longrightarrow>
    manager_step m m'"
| observe: "Observe describe nf now inputs m = (m', effs) \<Longrightarrow> manager_step m m'"
| acknowledge: "Acknowledge m k ack who now saved = (m', effs, (r :: unit + bool)) \<Longrightarrow> manager_step m m'"
| add_silence: "AddSilence m s now created = (m', (r :: (alert_error + unit) + silence)) \<Longrightarrow> manager_step m m'"
| remove_silence: "RemoveSilence m sid existed = (m', (r :: unit + bool)) \<Longrightarrow> manager_step m m'"
| capture: "CaptureBaseline m b saved = (m', (r :: unit baseline_error + unit)) \<Longrightarrow> manager_step m m'"
| clear: "ClearBaseline m rid existed = (m', (r :: unit + bool)) \<Longrightarrow> manager_step m m'"

inductive_cases manager_stepE: "manager_step m m'"

definition manager_ok :: "manager \<Rightarrow> bool" where
  "manager_ok m \<longleftrightarrow> keyed m \<and> rule_ids_distinct m \<and>
     (\<forall>i r. mg_rules m i = Some r \<longrightarrow> r_ID r = i) \<and>
     (\<forall>i app. mg_byTarget m i = Some app \<longrightarrow> (\<forall>r \<in> set (ap_rules app). mg_rules m (r_ID r) = Some r)) \<and>
     (\<forall>k. mg_rules m (fst k) = None \<longrightarrow> mg_states m k = None \<and> mg_shapes m k = None) \<and>
     (\<forall>i b. mg_golden m i = Some b \<longrightarrow> bl_RuleID b = i)"

lemma index_by_key: "index_by f xs k = Some x \<Longrightarrow> x \<in> set xs \<and> f x = k"
  unfolding index_by_def rev_map using map_of_key [of f "rev xs" k x] by simp

lemma index_by_mem: "distinct (map f xs) \<Longrightarrow> x \<in> set xs \<Longrightarrow> index_by f xs (f x) = Some x"
  unfolding index_by_def rev_map by (rule map_of_zip_fst) (simp_all add: rev_map [symmetric])

lemma resolve_targets_rules:
  assumes "(resolve_targets t rules ns acc :: 'e reload_error + (int \<Rightarrow> applicable option)) = Inr f" and "\<And>i app. acc i = Some app \<Longrightarrow> ap_rules app = [] \<or> (\<exists>n. ap_rules app = rules_on rules n)"
    and "f i = Some app"
  shows "ap_rules app = [] \<or> (\<exists>n. ap_rules app = rules_on rules n)"
  using assms
proof (induction ns arbitrary: acc)
  case (Cons n ns)
  show ?case
  proof (cases "t_Host n = None \<or> \<not> t_Enabled n")
    case True
    then have "(resolve_targets t rules ns acc :: 'e reload_error + (int \<Rightarrow> applicable option)) = Inr f" using Cons.prems(1) by simp
    then show ?thesis using Cons.IH Cons.prems(2,3) by blast
  next
    case False
    then obtain a where a: "(resolve_target t rules n :: 'e reload_error + applicable) = Inr a"
      "(resolve_targets t rules ns (acc(t_ID n \<mapsto> a)) :: 'e reload_error + (int \<Rightarrow> applicable option)) = Inr f"
      using Cons.prems(1) by (auto simp: rbind_Inr_iff)
    have "ap_rules a = [] \<or> (\<exists>n. ap_rules a = rules_on rules n)"
      using a(1) by (auto simp: resolve_target_def rbind_Inr_iff split: option.splits)
    then have "(acc(t_ID n \<mapsto> a)) i = Some app \<Longrightarrow> ap_rules app = [] \<or> (\<exists>n. ap_rules app = rules_on rules n)" for i app
      using Cons.prems(2) by (auto split: if_split_asm)
    then show ?thesis using Cons.IH [OF a(2) _ Cons.prems(3)] by blast
  qed
qed auto

lemma Reload_ok [invariants]:
  fixes sn :: "'e snapshot"
  assumes "\<And>rules. sn_rules sn = Inr rules \<Longrightarrow> distinct (map r_ID rules)"
    and "Reload sn m = (m', r)" and "manager_ok m"
  shows "manager_ok m'"
proof (cases "reload_read sn")
  case (Inl e)
  then show ?thesis using assms by (simp add: Reload_def)
next
  case (Inr b)
  then obtain t rules baselines targets where b: "sn_rules sn = Inr rules" "bu_byID b = index_by r_ID rules"
    "bu_golden b = index_by bl_RuleID baselines"
    "(resolve_targets t rules targets (\<lambda>_. None) :: 'e reload_error + (int \<Rightarrow> applicable option)) = Inr (bu_resolved b)"
    by (auto simp: reload_read_def store_result_def tree_result_def Let_def rbind_Inr_iff split: sum.split_asm)
  have d: "distinct (map r_ID rules)" using assms(1) b(1) by blast
  have m': "m' = reload_install b m" using Inr assms(2) by (simp add: Reload_def)
  have sub: "distinct (map r_ID (ap_rules app)) \<and> set (ap_rules app) \<subseteq> set rules" if "bu_resolved b i = Some app" for i app
    using resolve_targets_rules [OF b(4) _ that] d by (auto simp: rules_on_def distinct_map inj_on_def)
  have "keyed m'"
    using assms(3) stored_rules_exist(2) [OF Inr]
    by (auto simp: m' keyed_def manager_ok_def reload_install_def split: option.split_asm if_split_asm)
  moreover have "mg_rules m' (fst k) = None \<longrightarrow> mg_states m' k = None \<and> mg_shapes m' k = None" for k
    using stored_rules_exist(1) [OF Inr, of k]
    by (cases "bu_stored b k") (auto simp: m' reload_install_def split: option.split)
  moreover have "\<forall>r \<in> set (ap_rules app). index_by r_ID rules (r_ID r) = Some r" if "bu_resolved b i = Some app" for i app
    using sub [OF that] index_by_mem [OF d] by blast
  moreover have "mg_rules m' = index_by r_ID rules" "mg_byTarget m' = bu_resolved b"
    "mg_golden m' = index_by bl_RuleID baselines"
    by (simp_all add: m' reload_install_def b(2,3))
  ultimately show ?thesis
    using sub index_by_key [of r_ID rules] index_by_key [of bl_RuleID baselines]
    by (simp add: manager_ok_def rule_ids_distinct_def)
qed

lemma target_step_None: "mg_rules m (fst k) = None \<Longrightarrow> manager_ok m \<Longrightarrow> target_step m now k meas s = s"
proof -
  assume none: "mg_rules m (fst k) = None" and ok: "manager_ok m"
  have "find (\<lambda>r. r_ID r = fst k) (ap_rules app) = None" if "mg_byTarget m i = Some app" for i app
  proof -
    have "\<forall>r \<in> set (ap_rules app). mg_rules m (r_ID r) = Some r" using ok that by (simp add: manager_ok_def)
    then show ?thesis using none by (auto simp: find_None_iff)
  qed
  then show ?thesis by (simp add: target_step_def split: option.split)
qed

lemma Observe_ok [invariants]:
  assumes "manager_ok m" and "Observe describe nf now inputs m = (m', effs)"
  shows "manager_ok m'"
proof -
  obtain fired dirty where run: "fold (observe_one now) inputs (m, [], []) = (m', fired, dirty)"
    using assms(2) by (auto simp: Observe_def split: prod.split_asm)
  have ok: "keyed m" "rule_ids_distinct m" using assms(1) by (simp_all add: manager_ok_def)
  note view = observe_all_view [OF ok run]
  have "mg_states m' k = None \<and> mg_shapes m' k = None" if k: "mg_rules m (fst k) = None" for k
  proof -
    have "fold (target_step m now k) ms s = s" for ms s
      by (induction ms) (simp_all add: target_step_None [OF k assms(1)])
    then show ?thesis using view [of k] assms(1) k by (cases k) (simp add: series_view_def manager_ok_def)
  qed
  moreover have "mg_rules m' = mg_rules m" "mg_byTarget m' = mg_byTarget m" "mg_golden m' = mg_golden m" "keyed m'"
    using view by (simp_all add: same_rules_def)
  ultimately show ?thesis using assms(1) by (simp add: manager_ok_def rule_ids_distinct_def)
qed

lemma Acknowledge_ok [invariants]: "manager_ok m \<Longrightarrow> Acknowledge m k ack who now saved = (m', effs, r) \<Longrightarrow> manager_ok m'"
  by (cases k) (auto simp: Acknowledge_def manager_ok_def keyed_def key_of_def rule_ids_distinct_def Let_def
      split: option.split_asm if_split_asm)

lemma AddSilence_ok [invariants]: "manager_ok m \<Longrightarrow> AddSilence m s now created = (m', r) \<Longrightarrow> manager_ok m'"
  by (auto simp: AddSilence_def manager_ok_def keyed_def rule_ids_distinct_def Let_def split: sum.split_asm)

lemma RemoveSilence_ok [invariants]: "manager_ok m \<Longrightarrow> RemoveSilence m sid existed = (m', r) \<Longrightarrow> manager_ok m'"
  by (auto simp: RemoveSilence_def manager_ok_def keyed_def rule_ids_distinct_def split: if_split_asm)

lemma baseline_ok [invariants]:
  "manager_ok m \<Longrightarrow> CaptureBaseline m b saved = (m', r) \<Longrightarrow> manager_ok m'"
  "manager_ok m \<Longrightarrow> ClearBaseline m rid existed = (m', r') \<Longrightarrow> manager_ok m'"
  by (auto simp: CaptureBaseline_def ClearBaseline_def manager_ok_def keyed_def rule_ids_distinct_def
      split: if_split_asm sum.split_asm)

text \<open>
  Property C21. Every state of the manager that any sequence of reloads, batches, acknowledgements,
  silences and baseline changes can lead to, in any order and with any failures of the store, is
  consistent: each alert state is kept under its own series and only for a rule that exists (so
  nothing is left of deleted rules), shape memory likewise, the rules a target is judged by are
  among the known rules with no id twice, and each captured baseline is under its rule.
\<close>

theorem reachable_manager_ok:
  assumes "manager_step\<^sup>*\<^sup>* NewManager m"
  shows "manager_ok m"
  using assms
proof (induction rule: rtranclp_induct)
  case base
  show ?case by (simp add: manager_ok_def keyed_def rule_ids_distinct_def NewManager_def)
next
  case (step m m')
  from step(2,3) show ?case
    by (cases rule: manager_step.cases) (blast intro: invariants)+
qed

section \<open>The properties on a small tree\<close>

definition example_snapshot :: "unit snapshot" where
  "example_snapshot = \<lparr>sn_targets = Inr example_nodes, sn_rules = Inr [example_rule],
     sn_states = Inr [(new_state 1 3 0)\<lparr>s_Streak := 1\<rparr>, new_state 9 3 0],
     sn_agentNames = Inr (\<lambda>_. None), sn_silences = Inr [], sn_baselines = Inr []\<rparr>"

definition example_manager :: manager where
  "example_manager = fst (Reload example_snapshot NewManager)"

lemma example_reload: "Reload example_snapshot NewManager = (example_manager, Inr ())"
proof -
  have "snd (Reload example_snapshot NewManager) = Inr ()" by code_simp
  then show ?thesis by (simp add: example_manager_def prod_eq_iff)
qed

lemma example_manager_ok: "manager_ok example_manager"
  by (rule Reload_ok [OF _ example_reload])
    (simp_all add: example_snapshot_def manager_ok_def keyed_def rule_ids_distinct_def NewManager_def)

lemma example_nodes_at: "Get example_tree 3 = Some ((group_node 3 (Some 2) ''dns'' (no_settings\<lparr>IntervalS := Some 30\<rparr>))
    \<lparr>t_Host := Some ''1.1.1.1'', t_AddressFamily := Some ''v4''\<rparr>)"
  by (simp add: Get_def node_at_def example_tree_def example_nodes_def group_node_def)

lemma example_chain: "map t_ID (up_of example_tree 3) = [3, 2, 1]"
  by code_simp

theorem reload_keeps_progress_witness:
  "mg_states (fst (Reload example_snapshot (NewManager\<lparr>mg_states := [(1, 3, 0) \<mapsto> (new_state 1 3 0)\<lparr>s_Streak := 7\<rparr>]\<rparr>)))
     (1, 3, 0) = Some ((new_state 1 3 0)\<lparr>s_Streak := 7\<rparr>)"
proof -
  let ?m = "NewManager\<lparr>mg_states := [(1, 3, 0) \<mapsto> (new_state 1 3 0)\<lparr>s_Streak := 7\<rparr>]\<rparr>"
  obtain m' r where run: "Reload example_snapshot ?m = (m', r)" by (metis surj_pair)
  have "snd (Reload example_snapshot ?m) = Inr ()" "mg_rules (fst (Reload example_snapshot ?m)) 1 = Some example_rule"
    by code_simp+
  then have "r = Inr ()" "mg_rules m' 1 = Some example_rule" using run by simp_all
  then show ?thesis using reload_keeps_progress [OF run] run by (auto simp: fun_upd_def)
qed

theorem reload_resolves_witness:
  "\<exists>m'. Reload example_snapshot NewManager = (m', Inr ()) \<and> mg_ancestors m' 3 = Some [3, 2, 1] \<and>
     (\<exists>app. mg_byTarget m' 3 = Some app \<and> ap_rules app = [example_rule])"
proof -
  have near: "nearest_rules example_tree [example_rule] 3 = [example_rule]" by code_simp
  show ?thesis
    using reload_resolves [of example_snapshot example_nodes example_tree "[example_rule]" _ _ "[]" "[]" NewManager]
      example_nodes_at example_New near
    by (fastforce simp: example_snapshot_def example_chain group_node_def)
qed

text \<open>Two lossy intervals of target 3, mixed with one of a target that is not judged: the rule fires.\<close>

definition example_batch :: "alert_input list" where
  "example_batch = [\<lparr>in_TargetID = 3, in_AgentID = 0, in_TS = 30, in_Sent = 4, in_Received = 2,
       in_Samples = [], in_LossTrusted = True, in_RTTTrusted = True\<rparr>,
     \<lparr>in_TargetID = 2, in_AgentID = 0, in_TS = 30, in_Sent = 4, in_Received = 0,
       in_Samples = [], in_LossTrusted = True, in_RTTTrusted = True\<rparr>]"

definition describe_name :: "rule \<Rightarrow> string" where "describe_name r = r_Name r"

definition example_app :: applicable where
  "example_app = \<lparr>ap_rules = [example_rule], ap_intervalS = 30, ap_path = ''/dc/dns'', ap_host = ''1.1.1.1''\<rparr>"

lemma example_manager_at:
  "mg_byTarget example_manager 3 = Some example_app" "mg_byTarget example_manager 2 = None"
  "mg_states example_manager (1, 3, 0) = Some ((new_state 1 3 0)\<lparr>s_Streak := 1\<rparr>)"
  "mg_shapes example_manager (1, 3, 0) = None"
  by code_simp+

theorem Observe_refines_series_witness:
  "\<exists>st. mg_states (fst (Observe describe_name True 99 example_batch example_manager)) (1, 3, 0) = Some st \<and>
     s_Firing st \<and> s_Since st = 30 \<and>
     map ev_TS (filter (\<lambda>e. event_key e = (1, 3, 0))
       (events_of (snd (Observe describe_name True 99 example_batch example_manager)))) = [30]"
proof -
  obtain m' effs where run: "Observe describe_name True 99 example_batch example_manager = (m', effs)" by (metis surj_pair)
  have ok: "keyed example_manager" "rule_ids_distinct example_manager"
    using example_manager_ok by (simp_all add: manager_ok_def)
  have judged: "judge example_rule 30 g (hd example_batch) ((new_state 1 3 0)\<lparr>s_Streak := 1\<rparr>) None =
      (((new_state 1 3 0)\<lparr>s_Streak := 0, s_LastTS := 30, s_Value := Fin 50, s_Firing := True, s_Since := 30\<rparr>), None, Fired)" for g
    by (simp add: judge_def example_batch_def example_rule_def IsShape_def Evaluate_def EvaluateValue_def trustworthy_def
        matches_def gap_def new_state_def Let_def)
  let ?st = "(new_state 1 3 0)\<lparr>s_Streak := 0, s_LastTS := 30, s_Value := Fin 50, s_Firing := True, s_Since := 30\<rparr>"
  let ?a = "alertLocked example_manager 99 example_rule ?st example_app True"
  have fold: "fold (target_step example_manager 99 (1, 3, 0)) example_batch
      (mg_states example_manager (1, 3, 0), mg_shapes example_manager (1, 3, 0), [], []) = (Some ?st, None, [?a], [?st])"
    using judged
    by (simp add: example_batch_def target_step_def example_manager_at series_step_def example_app_def announce_def)
      (simp add: example_rule_def)
  have ts: "ev_TS (event_of describe_name 99 ?a) = 30"
    by (simp add: event_of_def transitionTS_def alertLocked_def unix_time_def Let_def)
  obtain ann saved where r: "(Some ?st, None, [?a], [?st]) = (mg_states m' (1, 3, 0), mg_shapes m' (1, 3, 0), ann, saved)"
    "filter (\<lambda>e. event_key e = (1, 3, 0)) (events_of effs) = map (event_of describe_name 99) ann"
    using Observe_refines_series [OF ok run, of "(1, 3, 0)"] unfolding fold by blast
  have "mg_states m' (1, 3, 0) = Some ?st" "ann = [?a]" using r(1) by simp_all
  then show ?thesis using r(2) ts run by simp
qed

definition example_silence :: silence where
  "example_silence = \<lparr>sil_ID = 0, sil_TargetID = Some 2, sil_AgentID = None, sil_RuleID = None,
     sil_StartsAt = 100, sil_EndsAt = 200, sil_Reason = ''maintenance'', sil_CreatedBy = ''op'', sil_CreatedAt = 0\<rparr>"

definition example_alert :: alert where
  "example_alert = alertLocked example_manager 150 example_rule ((new_state 1 3 0)\<lparr>s_Firing := True, s_Since := 90\<rparr>) example_app True"

theorem silence_covers_subtree_witness:
  "example_alert \<notin> set (notified_of (deliver describe_name True
     (fst (AddSilence example_manager example_silence 100 (Inr 7 :: unit + int))) 150 [example_alert]))"
proof -
  obtain m' s' where add: "AddSilence example_manager example_silence 100 (Inr 7 :: unit + int) = (m', Inr s')"
    by (auto simp: AddSilence_def example_silence_def Silence_Validate_def Let_def)
  have t: "al_TargetID example_alert = 3" by (simp add: example_alert_def alertLocked_def new_state_def Let_def)
  have s: "sil_TargetID example_silence = Some 2" "sil_AgentID example_silence = None" "sil_RuleID example_silence = None"
    "sil_StartsAt example_silence \<le> 150" "150 < sil_EndsAt example_silence"
    by (simp_all add: example_silence_def)
  have ts: "sn_targets example_snapshot = Inr example_nodes" by (simp add: example_snapshot_def)
  have g: "Get example_tree (al_TargetID example_alert) =
      Some ((group_node 3 (Some 2) ''dns'' (no_settings\<lparr>IntervalS := Some 30\<rparr>))
        \<lparr>t_Host := Some ''1.1.1.1'', t_AddressFamily := Some ''v4''\<rparr>)"
    using example_nodes_at t by simp
  have "2 \<in> t_ID ` set (up_of example_tree (al_TargetID example_alert))"
    using example_chain t by (metis list.set_intros(1) list.set_intros(2) list.set_map)
  then show ?thesis
    using silence_covers_subtree [OF ts example_New example_reload add s(1,2,3) g, of 150 describe_name] s(4,5) add by simp
qed

theorem reachable_manager_ok_witness:
  "manager_ok (fst (Observe describe_name True 99 example_batch example_manager))"
proof -
  have "manager_step NewManager example_manager"
    by (rule manager_step.reload [OF _ example_reload]) (simp add: example_snapshot_def)
  moreover have "manager_step example_manager (fst (Observe describe_name True 99 example_batch example_manager))"
    by (rule manager_step.observe) (rule prod.collapse [symmetric])
  ultimately have "manager_step\<^sup>*\<^sup>* NewManager (fst (Observe describe_name True 99 example_batch example_manager))"
    by (rule rtranclp.rtrancl_into_rtrancl [OF r_into_rtranclp])
  then show ?thesis by (rule reachable_manager_ok)
qed

end
