(* ===== verification/Utf8.thy ===== *)
theory Utf8
  imports Prelude
begin

text \<open>
  UTF-8 as Go reads it: \<open>utf8.ValidString\<close> and the runes that \<open>for range\<close> over a valid string
  yields. \<open>None\<close> is an invalid string: a stray continuation byte, an overlong form, a surrogate or a
  value beyond U+10FFFF. Also the classes of the \<open>unicode\<close> package the limits use. The letter and
  digit tables and the syntax of IP addresses are large data of Go's library and are taken as
  the parameter \<open>golib\<close>.
\<close>

definition cont :: "nat \<Rightarrow> bool" where
  "cont b \<longleftrightarrow> 0x80 \<le> b \<and> b \<le> 0xBF"

fun utf8_bytes :: "nat list \<Rightarrow> nat list option" where
  "utf8_bytes [] = Some []"
| "utf8_bytes (a # r) =
    (if a < 0x80 then map_option ((#) a) (utf8_bytes r)
     else case r of
       [] \<Rightarrow> None
     | b # r \<Rightarrow>
       if 0xC2 \<le> a \<and> a \<le> 0xDF then
         (if cont b then map_option ((#) ((a - 0xC0) * 64 + (b - 0x80))) (utf8_bytes r) else None)
       else case r of
         [] \<Rightarrow> None
       | c # r \<Rightarrow>
         if 0xE0 \<le> a \<and> a \<le> 0xEF then
           (if cont b \<and> cont c \<and> (a = 0xE0 \<longrightarrow> 0xA0 \<le> b) \<and> (a = 0xED \<longrightarrow> b \<le> 0x9F)
            then map_option ((#) ((a - 0xE0) * 4096 + (b - 0x80) * 64 + (c - 0x80))) (utf8_bytes r) else None)
         else case r of
           [] \<Rightarrow> None
         | d # r \<Rightarrow>
           (if 0xF0 \<le> a \<and> a \<le> 0xF4 \<and> cont b \<and> cont c \<and> cont d \<and>
               (a = 0xF0 \<longrightarrow> 0x90 \<le> b) \<and> (a = 0xF4 \<longrightarrow> b \<le> 0x8F)
            then map_option ((#) ((a - 0xF0) * 262144 + (b - 0x80) * 4096 + (c - 0x80) * 64 + (d - 0x80)))
              (utf8_bytes r)
            else None))"

definition runes :: "string \<Rightarrow> nat list option" where
  "runes s = utf8_bytes (map of_char s)"

definition IsControl :: "nat \<Rightarrow> bool" where
  "IsControl r \<longleftrightarrow> r \<le> 0x1F \<or> 0x7F \<le> r \<and> r \<le> 0x9F"

text \<open>The category \<open>Cf\<close> of Unicode 15, the version of Go's tables.\<close>

definition Cf_ranges :: "(nat \<times> nat) list" where
  "Cf_ranges = [(0xAD, 0xAD), (0x600, 0x605), (0x61C, 0x61C), (0x6DD, 0x6DD), (0x70F, 0x70F),
     (0x890, 0x891), (0x8E2, 0x8E2), (0x180E, 0x180E), (0x200B, 0x200F), (0x202A, 0x202E),
     (0x2060, 0x2064), (0x2066, 0x206F), (0xFEFF, 0xFEFF), (0xFFF9, 0xFFFB), (0x110BD, 0x110BD),
     (0x110CD, 0x110CD), (0x13430, 0x1343F), (0x1BCA0, 0x1BCA3), (0x1D173, 0x1D17A),
     (0xE0001, 0xE0001), (0xE0020, 0xE007F)]"

definition IsCf :: "nat \<Rightarrow> bool" where
  "IsCf r \<longleftrightarrow> list_ex (\<lambda>(a, b). a \<le> r \<and> r \<le> b) Cf_ranges"

record golib =
  gl_letter :: "nat \<Rightarrow> bool"
  gl_digit :: "nat \<Rightarrow> bool"
  gl_addr :: "string \<Rightarrow> bool"

lemma utf8_ascii: "list_all (\<lambda>b. b < 0x80) bs \<Longrightarrow> utf8_bytes bs = Some bs"
  by (induction bs) auto

text \<open>
  One step of the decoder: it consumes an ASCII byte as itself, or two to four bytes of which none
  is ASCII.
\<close>

lemma utf8_step:
  assumes "utf8_bytes (a # r) = Some rs"
  obtains pre post k rs' where "a # r = pre @ post" "rs = k # rs'" "utf8_bytes post = Some rs'"
    "pre = [k] \<and> k < 0x80 \<or> (\<forall>b \<in> set pre. 0x80 \<le> b)" "pre \<noteq> []"
proof (cases "a < 0x80")
  case True
  with assms that [of "[a]" r a] show ?thesis by auto
next
  case a: False
  with assms obtain b r1 where r: "r = b # r1" by (cases r) auto
  show ?thesis
  proof (cases "0xC2 \<le> a \<and> a \<le> 0xDF")
    case True
    with assms a r that [of "[a, b]" r1] show ?thesis by (auto simp: cont_def split: if_splits)
  next
    case two: False
    with assms a r obtain c r2 where r1: "r1 = c # r2" by (cases r1) auto
    show ?thesis
    proof (cases "0xE0 \<le> a \<and> a \<le> 0xEF")
      case True
      with assms a two r r1 have "\<exists>k rs'. rs = k # rs' \<and> utf8_bytes r2 = Some rs' \<and> cont b \<and> cont c"
        by (simp split: if_splits) blast
      with a r r1 that [of "[a, b, c]" r2] show ?thesis by (auto simp: cont_def)
    next
      case three: False
      with assms a two r r1 obtain d r3 where r2: "r2 = d # r3" by (cases r2) auto
      with assms a two three r r1
      have "\<exists>k rs'. rs = k # rs' \<and> utf8_bytes r3 = Some rs' \<and> cont b \<and> cont c \<and> cont d"
        by (simp split: if_splits) blast
      with a r r1 r2 that [of "[a, b, c, d]" r3] show ?thesis by (auto simp: cont_def)
    qed
  qed
qed

lemma rune_of_ascii: "utf8_bytes bs = Some rs \<Longrightarrow> b \<in> set bs \<Longrightarrow> b < 0x80 \<Longrightarrow> b \<in> set rs"
proof (induction "length bs" arbitrary: bs rs rule: less_induct)
  case less
  then obtain a r where bs: "bs = a # r" by (cases bs) auto
  with less.prems have st: "utf8_bytes (a # r) = Some rs" by (simp only:)
  from utf8_step [OF st] obtain pre post k rs' where s: "a # r = pre @ post" "rs = k # rs'"
    "utf8_bytes post = Some rs'" "pre = [k] \<and> k < 0x80 \<or> (\<forall>b \<in> set pre. 0x80 \<le> b)" "pre \<noteq> []" .
  have l: "length bs = length pre + length post" using s(1) bs by (metis length_append)
  have "b \<in> set pre \<or> b \<in> set post" using less.prems(2) s(1) bs by (metis Un_iff set_append)
  then show ?case using less.hyps [of post rs'] less.prems(3) s(2-5) l by auto
qed

lemma utf8_length: "utf8_bytes bs = Some rs \<Longrightarrow> length rs \<le> length bs"
proof (induction "length bs" arbitrary: bs rs rule: less_induct)
  case less
  show ?case
  proof (cases bs)
    case (Cons a r)
    with less.prems have st: "utf8_bytes (a # r) = Some rs" by (simp only:)
    from utf8_step [OF st] obtain pre post k rs' where s: "a # r = pre @ post" "rs = k # rs'"
      "utf8_bytes post = Some rs'" "pre = [k] \<and> k < 0x80 \<or> (\<forall>b \<in> set pre. 0x80 \<le> b)" "pre \<noteq> []" .
    have l: "length bs = length pre + length post" using s(1) Cons by (metis length_append)
    then have "length rs' \<le> length post" using less.hyps [of post rs'] s(3,5) by simp
    then show ?thesis using s(2,5) l by (cases pre) auto
  qed (use less in simp)
qed

end
