(* ===== verification/Auth.thy ===== *)
theory Auth
  imports Utf8
begin

text \<open>
  Roles, sessions and the mapping of claims, \<open>internal/auth/session.go\<close> and the pure parts of
  \<open>internal/auth/auth.go\<close>. A role is the string it is in the source. JSON, base64 and the keyed
  digest are the parameter \<open>sessionlib\<close>; the redirects of the login flow are not modelled.
\<close>

section \<open>Roles\<close>

type_synonym role = string

definition RoleNone :: role where "RoleNone = ''none''"
definition RoleViewer :: role where "RoleViewer = ''viewer''"
definition RoleEditor :: role where "RoleEditor = ''editor''"
definition RoleAdmin :: role where "RoleAdmin = ''admin''"

lemmas role_defs = RoleNone_def RoleViewer_def RoleEditor_def RoleAdmin_def

definition rank :: "role \<Rightarrow> nat" where
  "rank r = (if r = RoleAdmin then 3 else if r = RoleEditor then 2 else if r = RoleViewer then 1 else 0)"

definition AtLeast :: "role \<Rightarrow> role \<Rightarrow> bool" where
  "AtLeast r want \<longleftrightarrow> rank r \<ge> rank want"

definition role_Max :: "role \<Rightarrow> role \<Rightarrow> role" where
  "role_Max a b = (if rank a \<ge> rank b then a else b)"

lemma rank_roles [simp]: "rank RoleAdmin = 3" "rank RoleEditor = 2" "rank RoleViewer = 1" "rank RoleNone = 0" "rank '''' = 0"
  by (simp_all add: rank_def role_defs)

lemma rank_Max [simp]: "rank (role_Max a b) = max (rank a) (rank b)"
  by (simp add: role_Max_def)

lemma rank_le: "rank r \<le> 3"
  by (simp add: rank_def)

lemma rank_admin: "rank r \<ge> 3 \<longleftrightarrow> r = RoleAdmin"
  by (simp add: rank_def)

section \<open>Sessions\<close>

record session =
  se_Subject :: string
  se_Email :: string
  se_Name :: string
  se_Role :: role
  se_Groups :: "string list"
  se_Expires :: int

record ('k, 'e) sessionlib =
  sl_marshal :: "session \<Rightarrow> 'e + string"
  sl_unmarshal :: "string \<Rightarrow> session option"
  sl_b64 :: "string \<Rightarrow> string"
  sl_unb64 :: "string \<Rightarrow> string option"
  sl_mac :: "'k \<Rightarrow> string \<Rightarrow> string"

datatype session_error = BadSession | SessionExpired

definition sign :: "('k, 'e) sessionlib \<Rightarrow> 'k \<Rightarrow> string \<Rightarrow> string" where
  "sign l key payload = sl_b64 l (sl_mac l key payload)"

definition session_encode :: "('k, 'e) sessionlib \<Rightarrow> 'k \<Rightarrow> session \<Rightarrow> 'e + string" where
  "session_encode l key sess =
     rbind (sl_marshal l sess) (\<lambda>body. let payload = sl_b64 l body in Inr (payload @ ''.'' @ sign l key payload))"

text \<open>\<open>strings.Cut\<close> at the first dot: what is before it, what is after it.\<close>

definition cut_dot :: "string \<Rightarrow> (string \<times> string) option" where
  "cut_dot s = (if CHR ''.'' \<in> set s
     then Some (takeWhile (\<lambda>c. c \<noteq> CHR ''.'') s, tl (dropWhile (\<lambda>c. c \<noteq> CHR ''.'') s)) else None)"

definition session_decode :: "('k, 'e) sessionlib \<Rightarrow> 'k \<Rightarrow> int \<Rightarrow> string \<Rightarrow> session_error + session" where
  "session_decode l key now token =
     (case cut_dot token of
        None \<Rightarrow> Inl BadSession
      | Some (payload, sig) \<Rightarrow>
          if sig \<noteq> sign l key payload then Inl BadSession
          else (case sl_unb64 l payload of
              None \<Rightarrow> Inl BadSession
            | Some body \<Rightarrow>
                (case sl_unmarshal l body of
                   None \<Rightarrow> Inl BadSession
                 | Some sess \<Rightarrow>
                     rbind (check (now > se_Expires sess) SessionExpired) (\<lambda>_.
                     rbind (check (se_Role sess \<noteq> RoleViewer \<and> se_Role sess \<noteq> RoleAdmin) BadSession) (\<lambda>_.
                     Inr sess)))))"

text \<open>\<open>SessionFrom\<close>: the session of a request, whose cookie may be missing.\<close>

definition SessionFrom :: "('k, 'e) sessionlib \<Rightarrow> 'k \<Rightarrow> int \<Rightarrow> string option \<Rightarrow> session option" where
  "SessionFrom l key now cookie =
     (case cookie of
        None \<Rightarrow> None
      | Some tok \<Rightarrow> (case session_decode l key now tok of Inl _ \<Rightarrow> None | Inr s \<Rightarrow> Some s))"

section \<open>Claims\<close>

text \<open>A claim of the identity token: a string, a list (\<open>None\<close> for an item that is no string), or neither.\<close>

datatype claim = ClaimString string | ClaimList "string option list" | ClaimOther

definition groupsFromClaims :: "(string \<Rightarrow> claim) \<Rightarrow> string \<Rightarrow> string list" where
  "groupsFromClaims claims name =
     (case claims name of
        ClaimString v \<Rightarrow> filter (\<lambda>s. s \<noteq> '''') (map trim_space (split_at (CHR '','') v))
      | ClaimList v \<Rightarrow> filter (\<lambda>s. s \<noteq> '''') (List.map_filter id v)
      | ClaimOther \<Rightarrow> [])"

definition roleFromClaims :: "(string \<Rightarrow> claim) \<Rightarrow> string \<Rightarrow> string \<Rightarrow> role" where
  "roleFromClaims claims name adminValue =
     (if adminValue = '''' then RoleAdmin
      else if adminValue \<in> set (groupsFromClaims claims name) then RoleAdmin else RoleViewer)"

text \<open>\<open>claims\<close> is \<open>None\<close> where reading the token's claims failed.\<close>

definition roleFor :: "(string \<Rightarrow> claim) option \<Rightarrow> string \<Rightarrow> string \<Rightarrow> role" where
  "roleFor claims name adminValue = (case claims of None \<Rightarrow> RoleViewer | Some c \<Rightarrow> roleFromClaims c name adminValue)"

definition groupsFor :: "(string \<Rightarrow> claim) option \<Rightarrow> string \<Rightarrow> string list" where
  "groupsFor claims name = (case claims of None \<Rightarrow> [] | Some c \<Rightarrow> groupsFromClaims c name)"

datatype auth_error = NoAdminGroup | BothAdminChoices

text \<open>What \<open>New\<close> refuses before it speaks to the provider.\<close>

definition auth_config :: "string \<Rightarrow> bool \<Rightarrow> auth_error + unit" where
  "auth_config adminValue everyoneIsAdmin =
     rbind (check (adminValue = '''' \<and> \<not> everyoneIsAdmin) NoAdminGroup) (\<lambda>_.
     check (adminValue \<noteq> '''' \<and> everyoneIsAdmin) BothAdminChoices)"

definition sessionTTL :: int where "sessionTTL = 12 * 60 * 60"

text \<open>The session of a completed login.\<close>

definition login_session :: "string \<Rightarrow> string \<Rightarrow> string \<Rightarrow> (string \<Rightarrow> claim) option \<Rightarrow> string \<Rightarrow> string \<Rightarrow> int \<Rightarrow> session" where
  "login_session subject email name claims claimName adminValue now =
     \<lparr>se_Subject = subject, se_Email = email, se_Name = name, se_Role = roleFor claims claimName adminValue,
      se_Groups = groupsFor claims claimName, se_Expires = now + sessionTTL\<rparr>"

section \<open>Properties\<close>

text \<open>
  The sessions \<open>encoding/json\<close> gives back as they were: their strings are valid UTF-8 (anything else is coerced to
  the replacement character) and the expiry is an \<open>int64\<close>. What a login makes of the claims of a token, itself decoded from
  JSON, is one of them.
\<close>

definition json_safe :: "session \<Rightarrow> bool" where
  "json_safe s \<longleftrightarrow> (\<forall>x \<in> set ([se_Subject s, se_Email s, se_Name s, se_Role s] @ se_Groups s). runes x \<noteq> None) \<and>
     - 9223372036854775808 \<le> se_Expires s \<and> se_Expires s \<le> 9223372036854775807"

definition good_lib :: "('k, 'e) sessionlib \<Rightarrow> bool" where
  "good_lib l \<longleftrightarrow> (\<forall>s body. json_safe s \<and> sl_marshal l s = Inr body \<longrightarrow> sl_unmarshal l body = Some s) \<and>
     (\<forall>body. sl_unb64 l (sl_b64 l body) = Some body \<and> CHR ''.'' \<notin> set (sl_b64 l body))"

lemma cut_dot_append: "CHR ''.'' \<notin> set a \<Longrightarrow> cut_dot (a @ CHR ''.'' # b) = Some (a, b)"
  by (induction a) (auto simp: cut_dot_def)

lemma cut_dot_Some: "cut_dot s = Some (a, b) \<Longrightarrow> s = a @ CHR ''.'' # b \<and> CHR ''.'' \<notin> set a"
proof (induction s arbitrary: a)
  case (Cons c s)
  show ?case
  proof (cases "c = CHR ''.''")
    case False
    then obtain a' where a': "a = c # a'" "cut_dot s = Some (a', b)"
      using Cons.prems by (auto simp: cut_dot_def split: if_split_asm)
    show ?thesis using Cons.IH [OF a'(2)] False unfolding a'(1) by auto
  qed (use Cons.prems in \<open>simp add: cut_dot_def\<close>)
qed (simp add: cut_dot_def)

text \<open>
  Property C26. A session is what was signed, for as long as it lasts. The cookie of a login whose strings are valid UTF-8 decodes to
  that login's session until it expires and to nothing after it, if JSON and base64 give back what they were given. Conversely,
  whatever the library does, any token that
  decodes at all carries the digest of its payload under the server's key and a role that is
  viewer or admin, so who cannot compute the digest cannot make one and no cookie carries the
  subtree role of an editor.
\<close>

theorem session_roundtrip:
  shows "(good_lib l \<and> json_safe (login_session subject email name claims claimName adminValue now) \<and>
      session_encode l key (login_session subject email name claims claimName adminValue now) = Inr token \<longrightarrow>
      session_decode l key t token = (if t > now + sessionTTL then Inl SessionExpired
        else Inr (login_session subject email name claims claimName adminValue now))) \<and>
    (session_decode l key t tok = Inr sess \<longrightarrow>
      (\<exists>payload. tok = payload @ ''.'' @ sign l key payload \<and>
        (\<exists>body. sl_unb64 l payload = Some body \<and> sl_unmarshal l body = Some sess)) \<and>
      t \<le> se_Expires sess \<and> (se_Role sess = RoleViewer \<or> se_Role sess = RoleAdmin))"
proof -
  let ?s = "login_session subject email name claims claimName adminValue now"
  have "session_decode l key t token = (if t > now + sessionTTL then Inl SessionExpired else Inr ?s)"
    if good: "good_lib l" and safe: "json_safe ?s" and enc: "session_encode l key ?s = Inr token"
  proof -
    obtain body where b: "sl_marshal l ?s = Inr body" and tok: "token = sl_b64 l body @ ''.'' @ sign l key (sl_b64 l body)"
      using enc by (auto simp: session_encode_def Let_def rbind_Inr_iff)
    have role: "se_Role ?s = RoleViewer \<or> se_Role ?s = RoleAdmin"
      by (simp add: login_session_def roleFor_def roleFromClaims_def split: option.split)
    have lib: "sl_unmarshal l body = Some ?s" "sl_unb64 l (sl_b64 l body) = Some body" "CHR ''.'' \<notin> set (sl_b64 l body)"
      using good safe b by (simp_all add: good_lib_def)
    have "cut_dot token = Some (sl_b64 l body, sign l key (sl_b64 l body))" using lib(3) by (simp add: tok cut_dot_append)
    moreover have "se_Expires ?s = now + sessionTTL" by (simp add: login_session_def)
    ultimately show ?thesis using lib(1,2) role by (auto simp: session_decode_def)
  qed
  moreover have "(\<exists>payload. tok = payload @ ''.'' @ sign l key payload \<and>
        (\<exists>body. sl_unb64 l payload = Some body \<and> sl_unmarshal l body = Some sess)) \<and>
      t \<le> se_Expires sess \<and> (se_Role sess = RoleViewer \<or> se_Role sess = RoleAdmin)"
    if dec: "session_decode l key t tok = Inr sess"
  proof -
    obtain payload sg body where "cut_dot tok = Some (payload, sg)" "sg = sign l key payload"
      "sl_unb64 l payload = Some body" "sl_unmarshal l body = Some sess"
      "t \<le> se_Expires sess" "se_Role sess = RoleViewer \<or> se_Role sess = RoleAdmin"
      using dec by (auto simp: session_decode_def rbind_Inr_iff split: option.split_asm if_split_asm)
    then show ?thesis using cut_dot_Some [of tok payload sg] by auto
  qed
  ultimately show ?thesis by blast
qed

text \<open>
  A library that keeps the laws for every session: strings carry their length in unary, the numbers are decimal, and
  dots are written out.
\<close>

definition put_string :: "string \<Rightarrow> string" where
  "put_string s = replicate (length s) CHR ''n'' @ '':'' @ s"

fun get_strings :: "nat \<Rightarrow> string \<Rightarrow> string list" where
  "get_strings 0 s = []"
| "get_strings (Suc k) s =
     (if s = [] then []
      else let n = length (takeWhile (\<lambda>c. c = CHR ''n'') s); r = drop (Suc n) s
           in take n r # get_strings k (drop n r))"

lemma get_put_string: "get_strings (Suc k) (put_string x @ s) = x # get_strings k s"
proof -
  have "takeWhile (\<lambda>c. c = CHR ''n'') (put_string x @ s) = replicate (length x) CHR ''n''"
    unfolding put_string_def append_assoc by (subst takeWhile_append2) auto
  moreover have "drop (Suc (length x)) (put_string x @ s) = x @ s" by (simp add: put_string_def)
  moreover have "put_string x @ s \<noteq> []" by (simp add: put_string_def)
  ultimately show ?thesis by (simp only: get_strings.simps Let_def length_replicate if_False) simp
qed

lemma get_put_strings: "length xs \<le> k \<Longrightarrow> get_strings k (concat (map put_string xs)) = xs"
proof (induction xs arbitrary: k)
  case Nil
  then show ?case by (cases k) simp_all
next
  case (Cons x xs)
  then obtain j where "k = Suc j" "length xs \<le> j" by (cases k) auto
  then show ?case using Cons.IH [of j] get_put_string [of j x "concat (map put_string xs)"] by simp
qed

lemma count_put_strings: "length xs \<le> length (concat (map put_string xs))"
  by (induction xs) (auto simp: put_string_def)

definition put_session :: "session \<Rightarrow> string" where
  "put_session s = concat (map put_string ([se_Subject s, se_Email s, se_Name s, se_Role s, show_int (se_Expires s)] @ se_Groups s))"

definition get_session :: "string \<Rightarrow> session option" where
  "get_session b =
     (case get_strings (length b) b of
        subject # email # name # r # e # groups \<Rightarrow>
          map_option (\<lambda>i. \<lparr>se_Subject = subject, se_Email = email, se_Name = name, se_Role = r, se_Groups = groups, se_Expires = i\<rparr>)
            (ParseInt e)
      | _ \<Rightarrow> None)"

lemma get_put_session: "json_safe s \<Longrightarrow> get_session (put_session s) = Some s"
  using ParseInt_show_int [of "se_Expires s"]
    get_put_strings [OF count_put_strings, of "[se_Subject s, se_Email s, se_Name s, se_Role s, show_int (se_Expires s)] @ se_Groups s"]
  unfolding get_session_def put_session_def by (simp add: json_safe_def)

fun hide_dots :: "string \<Rightarrow> string" where
  "hide_dots [] = []"
| "hide_dots (c # cs) = (if c = CHR ''.'' then CHR ''-'' # CHR ''d'' # hide_dots cs
     else if c = CHR ''-'' then CHR ''-'' # CHR ''m'' # hide_dots cs else c # hide_dots cs)"

fun show_dots :: "string \<Rightarrow> string" where
  "show_dots [] = []"
| "show_dots [c] = [c]"
| "show_dots (c # d # cs) = (if c = CHR ''-'' then (if d = CHR ''d'' then CHR ''.'' else CHR ''-'') # show_dots cs
     else c # show_dots (d # cs))"

lemma show_dots_Cons: "c \<noteq> CHR ''-'' \<Longrightarrow> show_dots (c # cs) = c # show_dots cs"
  by (cases cs) simp_all

lemma show_hide_dots: "show_dots (hide_dots s) = s" "CHR ''.'' \<notin> set (hide_dots s)"
  by (induction s) (simp_all add: show_dots_Cons)

definition example_sessionlib :: "(string, unit) sessionlib" where
  "example_sessionlib = \<lparr>sl_marshal = (\<lambda>s. Inr (put_session s)), sl_unmarshal = get_session,
     sl_b64 = hide_dots, sl_unb64 = (\<lambda>s. Some (show_dots s)), sl_mac = (\<lambda>k s. k @ s)\<rparr>"

lemma example_good: "good_lib example_sessionlib"
  by (simp add: good_lib_def example_sessionlib_def get_put_session show_hide_dots)

definition example_session :: session where
  "example_session = login_session ''u1'' ''a@x'' ''A'' (Some (\<lambda>_. ClaimString ''ops, Domain Admins'')) ''groups'' ''ops'' 1000"

lemma example_safe: "json_safe example_session"
proof -
  let ?s = "\<lparr>se_Subject = ''u1'', se_Email = ''a@x'', se_Name = ''A'', se_Role = ''admin'',
      se_Groups = [''ops'', ''Domain Admins''], se_Expires = 44200\<rparr> :: session"
  have "example_session = ?s" by code_simp
  moreover have "json_safe ?s" by (simp add: json_safe_def runes_def)
  ultimately show ?thesis by argo
qed

theorem session_roundtrip_witness:
  "\<exists>token. session_encode example_sessionlib ''key'' example_session = Inr token \<and>
     session_decode example_sessionlib ''key'' 2000 token = Inr example_session \<and>
     session_decode example_sessionlib ''key'' 44201 token = Inl SessionExpired \<and> se_Role example_session = RoleAdmin \<and>
     (\<forall>tok sess. session_decode example_sessionlib ''key'' 2000 tok = Inr sess \<longrightarrow>
       (\<exists>payload. tok = payload @ ''.'' @ hide_dots (''key'' @ payload)))"
proof -
  let ?token = "hide_dots (put_session example_session) @ ''.'' @ hide_dots (''key'' @ hide_dots (put_session example_session))"
  have enc: "session_encode example_sessionlib ''key'' example_session = Inr ?token"
    by (simp add: session_encode_def sign_def example_sessionlib_def Let_def)
  have role: "se_Role example_session = RoleAdmin" by code_simp
  have rt: "session_decode example_sessionlib ''key'' t ?token = (if t > 1000 + sessionTTL then Inl SessionExpired else Inr example_session)" for t
    using session_roundtrip [of example_sessionlib "''u1''" "''a@x''" "''A''" "Some (\<lambda>_. ClaimString ''ops, Domain Admins'')"
      "''groups''" "''ops''" 1000 "''key''" ?token t, THEN conjunct1] example_good example_safe enc
    unfolding example_session_def [symmetric] by blast
  have forge: "\<exists>payload. tok = payload @ ''.'' @ hide_dots (''key'' @ payload)"
    if "session_decode example_sessionlib ''key'' 2000 tok = Inr sess" for tok sess
    using session_roundtrip [of example_sessionlib _ _ _ _ _ _ _ "''key''" _ 2000 tok sess, THEN conjunct2] that
    by (auto simp: sign_def example_sessionlib_def)
  show ?thesis using enc rt [of 2000] rt [of 44201] role forge by (intro exI [of _ ?token]) (simp add: sessionTTL_def)
qed

end
