(* ===== verification/Scope.thy ===== *)
theory Scope
  imports Auth TargetTree
begin

text \<open>
  What one caller may see and change, \<open>internal/api/scope.go\<close>, and how a tree is shown to them, the
  rendering half of \<open>internal/api/targets.go\<close>. Grants give a role on a node and everything below
  it; the responses must not say anything about nodes outside.
\<close>

section \<open>The scope of a caller\<close>

record scope =
  sc_global :: role
  sc_roots :: "int \<Rightarrow> role option"
  sc_tr :: tree

definition Unrestricted :: "tree \<Rightarrow> scope" where
  "Unrestricted tr = \<lparr>sc_global = RoleAdmin, sc_roots = (\<lambda>_. None), sc_tr = tr\<rparr>"

record grant =
  gr_ID :: int
  gr_Group :: string
  gr_TargetID :: int
  gr_Role :: role

text \<open>One grant of a group that is held: the larger of what is there, \<open>''''\<close> when nothing is, and its role.\<close>

definition add_grant :: "string list \<Rightarrow> grant \<Rightarrow> (int \<Rightarrow> role option) \<Rightarrow> int \<Rightarrow> role option" where
  "add_grant held g granted =
     (if gr_Group g \<notin> set held then granted
      else granted(gr_TargetID g \<mapsto>
        role_Max (case granted (gr_TargetID g) of None \<Rightarrow> '''' | Some r \<Rightarrow> r) (gr_Role g)))"

text \<open>
  \<open>configured\<close>: the server has an authenticator; \<open>sess\<close> is the session of the request, if any.
\<close>

definition scopeFor :: "bool \<Rightarrow> role \<Rightarrow> session option \<Rightarrow> 'e + grant list \<Rightarrow> tree \<Rightarrow> 'e + scope" where
  "scopeFor configured defaultRole sess grants tr =
     (if \<not> configured then Inr (Unrestricted tr)
      else case sess of
        None \<Rightarrow> Inr \<lparr>sc_global = '''', sc_roots = (\<lambda>_. None), sc_tr = tr\<rparr>
      | Some se \<Rightarrow>
          if se_Role se = RoleAdmin then Inr \<lparr>sc_global = RoleAdmin, sc_roots = (\<lambda>_. None), sc_tr = tr\<rparr>
          else if se_Groups se = [] then Inr \<lparr>sc_global = defaultRole, sc_roots = (\<lambda>_. None), sc_tr = tr\<rparr>
          else rbind grants (\<lambda>gs.
            Inr \<lparr>sc_global = defaultRole, sc_roots = fold (add_grant (se_Groups se)) gs (\<lambda>_. None), sc_tr = tr\<rparr>))"

text \<open>
  The walk of \<open>chain\<close>: it stops at id 0, at an id that is not in the tree and at a node without a parent,
  and would not end on a cycle (\<open>None\<close>). The result is root first.
\<close>

partial_function (option) chain_loop :: "tree \<Rightarrow> int \<Rightarrow> int list \<Rightarrow> int list option" where
  "chain_loop tr cur out =
     (if cur = 0 then Some out
      else case Get tr cur of
        None \<Rightarrow> Some out
      | Some n \<Rightarrow>
          (case t_ParentID n of None \<Rightarrow> Some (out @ [cur]) | Some p \<Rightarrow> chain_loop tr p (out @ [cur])))"

declare chain_loop.simps [code]

definition scope_chain :: "scope \<Rightarrow> int \<Rightarrow> int list" where
  "scope_chain sc i = (case chain_loop (sc_tr sc) i [] of Some out \<Rightarrow> rev out | None \<Rightarrow> [])"

text \<open>An empty map of grants skips the walk, which would add nothing.\<close>

definition RoleOn :: "scope \<Rightarrow> int \<Rightarrow> role" where
  "RoleOn sc i =
     (if AtLeast (sc_global sc) RoleAdmin then RoleAdmin
      else fold (\<lambda>anc role. case sc_roots sc anc of Some r \<Rightarrow> role_Max role r | None \<Rightarrow> role) (scope_chain sc i) (sc_global sc))"

definition Visible :: "scope \<Rightarrow> int \<Rightarrow> bool" where
  "Visible sc i \<longleftrightarrow> AtLeast (RoleOn sc i) RoleViewer"

definition CanWrite :: "scope \<Rightarrow> int \<Rightarrow> bool" where
  "CanWrite sc i \<longleftrightarrow> AtLeast (RoleOn sc i) RoleEditor"

definition IsGlobalAdmin :: "scope \<Rightarrow> bool" where
  "IsGlobalAdmin sc \<longleftrightarrow> AtLeast (sc_global sc) RoleAdmin"

definition Who :: "scope \<Rightarrow> int option \<Rightarrow> string \<Rightarrow> string" where
  "Who sc i name =
     (if (i = None \<and> IsGlobalAdmin sc) \<or> (case i of None \<Rightarrow> False | Some i \<Rightarrow> CanWrite sc i) then name else '''')"

definition RootOf :: "scope \<Rightarrow> int \<Rightarrow> int" where
  "RootOf sc i =
     (if AtLeast (sc_global sc) RoleViewer then 0
      else case find (\<lambda>anc. sc_roots sc anc \<noteq> None) (scope_chain sc i) of None \<Rightarrow> 0 | Some anc \<Rightarrow> anc)"

text \<open>\<open>s[:strings.LastIndex(s, "/")]\<close>, which panics (\<open>None\<close>) where there is no slash.\<close>

definition before_last_slash :: "string \<Rightarrow> string option" where
  "before_last_slash s = (if CHR ''/'' \<in> set s then Some (rev (tl (dropWhile (\<lambda>c. c \<noteq> CHR ''/'') (rev s)))) else None)"

definition TrimPrefix :: "string \<Rightarrow> string \<Rightarrow> string" where
  "TrimPrefix s p = (if take (length p) s = p then drop (length p) s else s)"

datatype path_error = NoPath tree_error | SlicePanic

definition path_result :: "tree_error + 'a \<Rightarrow> path_error + 'a" where
  "path_result r = (case r of Inl e \<Rightarrow> Inl (NoPath e) | Inr x \<Rightarrow> Inr x)"

definition PathIn :: "scope \<Rightarrow> int \<Rightarrow> path_error + string" where
  "PathIn sc i =
     rbind (path_result (Path (t_nodes (sc_tr sc)) i)) (\<lambda>full.
       let r = RootOf sc i
       in if r = 0 then Inr full
          else rbind (path_result (Path (t_nodes (sc_tr sc)) r)) (\<lambda>rootPath.
            case before_last_slash rootPath of
              None \<Rightarrow> Inl SlicePanic
            | Some parent \<Rightarrow> if parent = '''' then Inr full else Inr (TrimPrefix full parent)))"

text \<open>The agents a caller may name: all of them, or a set of names.\<close>

record agentSet =
  as_all :: bool
  as_names :: "string list"

definition as_has :: "agentSet \<Rightarrow> string \<Rightarrow> bool" where
  "as_has a name \<longleftrightarrow> as_all a \<or> name \<in> set (as_names a)"

fun agents_loop :: "scope \<Rightarrow> target list \<Rightarrow> string list \<Rightarrow> tree_error + string list" where
  "agents_loop sc [] names = Inr names"
| "agents_loop sc (t # ts) names =
     (if \<not> Visible sc (t_ID t) then agents_loop sc ts names
      else rbind (Resolve (t_nodes (sc_tr sc)) (t_ID t)) (\<lambda>res.
        agents_loop sc ts (names @ Prelude.fields (v_Effective (res_Agents res)))))"

definition agentsInScope :: "scope \<Rightarrow> target list \<Rightarrow> tree_error + agentSet" where
  "agentsInScope sc targets =
     (if IsGlobalAdmin sc then Inr \<lparr>as_all = True, as_names = []\<rparr>
      else rbind (agents_loop sc targets []) (\<lambda>names. Inr \<lparr>as_all = False, as_names = names\<rparr>))"

definition Within :: "scope \<Rightarrow> int \<Rightarrow> int \<Rightarrow> bool" where
  "Within sc i ancestor \<longleftrightarrow> ancestor \<in> set (scope_chain sc i)"

text \<open>The answer to a refused write: absent where the node is not visible, forbidden where it is.\<close>

datatype response = NotFound | Forbidden | InternalError

definition deny :: "scope \<Rightarrow> int \<Rightarrow> response" where
  "deny sc i = (if \<not> Visible sc i then NotFound else Forbidden)"

text \<open>\<open>withScope\<close> and the two guards every scoped handler starts with.\<close>

definition withScope :: "bool \<Rightarrow> role \<Rightarrow> session option \<Rightarrow> 'e + grant list \<Rightarrow> 'e + target list \<Rightarrow> response + (scope \<times> target list)" where
  "withScope configured defaultRole sess grants targets =
     (case targets of
        Inl _ \<Rightarrow> Inl InternalError
      | Inr ts \<Rightarrow>
          (case New ts of
             Inl _ \<Rightarrow> Inl InternalError
           | Inr tr \<Rightarrow>
               (case scopeFor configured defaultRole sess grants tr of
                  Inl _ \<Rightarrow> Inl InternalError
                | Inr sc \<Rightarrow> Inr (sc, ts))))"

definition requireWrite :: "response + (scope \<times> target list) \<Rightarrow> int \<Rightarrow> response + scope" where
  "requireWrite ws i = rbind ws (\<lambda>(sc, _). if \<not> CanWrite sc i then Inl (deny sc i) else Inr sc)"

definition requireVisible :: "response + (scope \<times> target list) \<Rightarrow> int \<Rightarrow> response + unit" where
  "requireVisible ws i = rbind ws (\<lambda>(sc, _). if \<not> Visible sc i then Inl NotFound else Inr ())"

section \<open>The tree as the caller sees it\<close>

text \<open>Where a setting comes from: the node itself, outside the scope, or a node named as the caller sees it.\<close>

datatype source_view = FromLocal | FromOutside | FromNode source

record 'a setting_view =
  vw_local :: "'a option"
  vw_effective :: 'a
  vw_source :: source_view

definition settingJSON :: "scope \<Rightarrow> int \<Rightarrow> 'a setting_value \<Rightarrow> 'a setting_view" where
  "settingJSON sc node v =
     \<lparr>vw_local = v_Local v, vw_effective = v_Effective v,
      vw_source =
        (if src_ID (v_Source v) = node then FromLocal
         else if \<not> Visible sc (src_ID (v_Source v)) then FromOutside
         else FromNode \<lparr>src_ID = src_ID (v_Source v), src_Name = src_Name (v_Source v),
                src_Path = (case PathIn sc (src_ID (v_Source v)) of Inl _ \<Rightarrow> '''' | Inr p \<Rightarrow> p)\<rparr>)\<rparr>"

record settings_view =
  w_interval_s :: "int setting_view"
  w_pings_per_interval :: "int setting_view"
  w_probe_mode :: "string setting_view"
  w_burst_gap_ms :: "int setting_view"
  w_timeout_ms :: "int setting_view"
  w_packet_size :: "int setting_view"
  w_dscp :: "int setting_view"
  w_agents :: "string setting_view"
  w_trace_interval_s :: "int setting_view"
  w_retention_s :: "int setting_view"
  w_graph_series :: "string setting_view"
  w_probe_type :: "string setting_view"
  w_probe_port :: "int setting_view"
  w_dns_query :: "string setting_view"
  w_dns_rr_type :: "string setting_view"
  w_http_path :: "string setting_view"
  w_tls_skip_verify :: "bool setting_view"

record target_view =
  w_id :: int
  w_parent_id :: "int option"
  w_name :: string
  w_path :: string
  w_host :: "string option"
  w_address_family :: "string option"
  w_title :: "string option"
  w_notes :: "string option"
  w_hidden :: bool
  w_enabled :: bool
  w_sort_order :: int
  w_is_group :: bool
  w_settings :: settings_view

definition settings_json :: "scope \<Rightarrow> int \<Rightarrow> resolved \<Rightarrow> settings_view" where
  "settings_json sc i res =
     \<lparr>w_interval_s = settingJSON sc i (res_IntervalS res),
      w_pings_per_interval = settingJSON sc i (res_PingsPerInterval res),
      w_probe_mode = settingJSON sc i (res_ProbeMode res),
      w_burst_gap_ms = settingJSON sc i (res_BurstGapMS res),
      w_timeout_ms = settingJSON sc i (res_TimeoutMS res),
      w_packet_size = settingJSON sc i (res_PacketSize res),
      w_dscp = settingJSON sc i (res_DSCP res),
      w_agents = settingJSON sc i (res_Agents res),
      w_trace_interval_s = settingJSON sc i (res_TraceIntervalS res),
      w_retention_s = settingJSON sc i (res_RetentionS res),
      w_graph_series = settingJSON sc i (res_GraphSeries res),
      w_probe_type = settingJSON sc i (res_ProbeType res),
      w_probe_port = settingJSON sc i (res_ProbePort res),
      w_dns_query = settingJSON sc i (res_DNSQuery res),
      w_dns_rr_type = settingJSON sc i (res_DNSRRType res),
      w_http_path = settingJSON sc i (res_HTTPPath res),
      w_tls_skip_verify = settingJSON sc i (res_TLSSkipVerify res)\<rparr>"

definition targetJSON :: "scope \<Rightarrow> target \<Rightarrow> path_error + target_view" where
  "targetJSON sc n =
     rbind (path_result (Resolve (t_nodes (sc_tr sc)) (t_ID n))) (\<lambda>res.
     rbind (PathIn sc (t_ID n)) (\<lambda>path.
       let parent = (case t_ParentID n of None \<Rightarrow> None | Some p \<Rightarrow> if Visible sc p then Some p else None)
       in Inr \<lparr>w_id = t_ID n, w_parent_id = parent, w_name = t_Name n, w_path = path, w_host = t_Host n,
            w_address_family = t_AddressFamily n, w_title = t_Title n, w_notes = t_Notes n,
            w_hidden = t_Hidden n, w_enabled = t_Enabled n, w_sort_order = t_SortOrder n,
            w_is_group = (t_Host n = None), w_settings = settings_json sc (t_ID n) res\<rparr>))"

definition handleTargets :: "scope \<Rightarrow> target list \<Rightarrow> path_error + target_view list" where
  "handleTargets sc targets = rmap (targetJSON sc) (filter (\<lambda>t. Visible sc (t_ID t)) targets)"

section \<open>Scopes on an accepted tree\<close>

text \<open>Ids are positive in the database; \<open>chain\<close> takes 0 for no node.\<close>

definition ids_nonzero :: "tree \<Rightarrow> bool" where
  "ids_nonzero t \<longleftrightarrow> (\<forall>n \<in> set (t_nodes t). t_ID n \<noteq> 0)"

lemma Get_nonzero: "ids_nonzero t \<Longrightarrow> Get t i = Some n \<Longrightarrow> i \<noteq> 0"
  by (auto simp: ids_nonzero_def Get_def dest: node_at_Some)

lemma chain_loop_up:
  assumes "wf_tree t" and "Get t i = Some n" and "ids_nonzero t"
  shows "chain_loop t i out = Some (out @ map t_ID (up_of t i))"
  using assms(1,2)
proof (induction i n arbitrary: out rule: tree_view.climb_induct)
  case (root i n)
  then have "i \<noteq> 0" "t_ID n = i" using Get_nonzero [OF assms(3)] tree_view.get_ID [OF assms(1)] by blast+
  then show ?case using root by (subst chain_loop.simps) simp
next
  case (parent i n p m)
  then have "i \<noteq> 0" "t_ID n = i" using Get_nonzero [OF assms(3)] tree_view.get_ID [OF assms(1)] by blast+
  then show ?case using parent by (subst chain_loop.simps) simp
qed

lemma scope_chain_up:
  assumes "wf_tree (sc_tr sc)" and "ids_nonzero (sc_tr sc)"
  shows "scope_chain sc i = rev (map t_ID (up_of (sc_tr sc) i))"
proof (cases "Get (sc_tr sc) i")
  case None
  then have "chain_loop (sc_tr sc) i [] = Some []" by (subst chain_loop.simps) simp
  then show ?thesis using None by (simp add: scope_chain_def up_of_def)
next
  case (Some n)
  then show ?thesis using chain_loop_up [OF assms(1) Some assms(2)] by (simp add: scope_chain_def)
qed

text \<open>The rank of the role on a node is the largest of the global one and those granted on its chain.\<close>

lemma fold_rank:
  "rank (fold (\<lambda>anc role. case g anc of Some r \<Rightarrow> role_Max role r | None \<Rightarrow> role) xs role) =
    fold (\<lambda>anc k. case g anc of Some r \<Rightarrow> max k (rank r) | None \<Rightarrow> k) xs (rank role)"
  by (induction xs arbitrary: role) (simp_all split: option.split)

lemma rank_fold_ge:
  "k \<le> rank (fold (\<lambda>anc role. case g anc of Some r \<Rightarrow> role_Max role r | None \<Rightarrow> role) xs role) \<longleftrightarrow>
    k \<le> rank role \<or> (\<exists>anc \<in> set xs. \<exists>r. g anc = Some r \<and> k \<le> rank r)"
  by (induction xs arbitrary: role) (auto split: option.split)

lemma RoleOn_ge:
  assumes "wf_tree (sc_tr sc)" and "ids_nonzero (sc_tr sc)"
  shows "k \<le> rank (RoleOn sc i) \<longleftrightarrow> k \<le> rank (sc_global sc) \<or> (IsGlobalAdmin sc \<and> k \<le> 3) \<or>
    (\<exists>m \<in> set (up_of (sc_tr sc) i). \<exists>r. sc_roots sc (t_ID m) = Some r \<and> k \<le> rank r)"
  using rank_le order_trans
  by (auto simp: RoleOn_def rank_fold_ge IsGlobalAdmin_def AtLeast_def scope_chain_up [OF assms])

section \<open>The grants table\<close>

text \<open>\<open>internal/store/grants.go\<close>: rows with a unique pair of group and target; a new row's id is the database's.\<close>

datatype grant_error = NeedsGroup | BadGrantRole | NeedsTarget | NoGrant | AdminGrant

definition grant_validate :: "grant \<Rightarrow> grant_error + unit" where
  "grant_validate g =
     rbind (check (trim_space (gr_Group g) = '''') NeedsGroup) (\<lambda>_.
     rbind (check (gr_Role g \<noteq> ''viewer'' \<and> gr_Role g \<noteq> ''editor'') BadGrantRole) (\<lambda>_.
     check (gr_TargetID g \<le> 0) NeedsTarget))"

definition put_grant :: "int \<Rightarrow> grant \<Rightarrow> grant list \<Rightarrow> grant list" where
  "put_grant fresh g table =
     (if \<exists>x \<in> set table. gr_Group x = gr_Group g \<and> gr_TargetID x = gr_TargetID g
      then map (\<lambda>x. if gr_Group x = gr_Group g \<and> gr_TargetID x = gr_TargetID g then x\<lparr>gr_Role := gr_Role g\<rparr> else x) table
      else table @ [g\<lparr>gr_ID := fresh\<rparr>])"

definition UpsertGrant :: "int \<Rightarrow> grant \<Rightarrow> grant list \<Rightarrow> grant_error + grant list" where
  "UpsertGrant fresh g table =
     (let g = g\<lparr>gr_Group := trim_space (gr_Group g)\<rparr>
      in rbind (grant_validate g) (\<lambda>_. Inr (put_grant fresh g table)))"

definition DeleteGrant :: "int \<Rightarrow> grant list \<Rightarrow> grant_error + grant list" where
  "DeleteGrant i table =
     (if \<exists>g \<in> set table. gr_ID g = i then Inr (filter (\<lambda>g. gr_ID g \<noteq> i) table) else Inl NoGrant)"

text \<open>The handler: an administrator's role is never granted.\<close>

definition handleUpsertGrant :: "int \<Rightarrow> grant \<Rightarrow> grant list \<Rightarrow> grant_error + grant list" where
  "handleUpsertGrant fresh g table =
     (if gr_Role g = RoleAdmin then Inl AdminGrant else UpsertGrant fresh g table)"

definition grants_ok :: "grant list \<Rightarrow> bool" where
  "grants_ok table \<longleftrightarrow> distinct (map (\<lambda>g. (gr_Group g, gr_TargetID g)) table) \<and>
     (\<forall>g \<in> set table. gr_Role g = RoleViewer \<or> gr_Role g = RoleEditor)"

lemma put_grant_keys:
  "map (\<lambda>g. (gr_Group g, gr_TargetID g)) (put_grant fresh g table) =
    (if (gr_Group g, gr_TargetID g) \<in> (\<lambda>g. (gr_Group g, gr_TargetID g)) ` set table
     then map (\<lambda>g. (gr_Group g, gr_TargetID g)) table
     else map (\<lambda>g. (gr_Group g, gr_TargetID g)) table @ [(gr_Group g, gr_TargetID g)])"
  by (auto simp: put_grant_def comp_def image_iff) metis

lemma grants_ok_put [invariants]:
  assumes "grants_ok table" and "handleUpsertGrant fresh g table = Inr table'"
  shows "grants_ok table'"
proof -
  let ?g = "g\<lparr>gr_Group := trim_space (gr_Group g)\<rparr>"
  have t: "table' = put_grant fresh ?g table" and r: "gr_Role ?g = RoleViewer \<or> gr_Role ?g = RoleEditor"
    using assms(2) by (auto simp: handleUpsertGrant_def UpsertGrant_def grant_validate_def rbind_Inr_iff Let_def
        role_defs split: if_split_asm)
  have "distinct (map (\<lambda>g. (gr_Group g, gr_TargetID g)) table')"
    using assms(1) by (simp add: t put_grant_keys grants_ok_def)
  moreover have "\<forall>x \<in> set table'. gr_Role x = RoleViewer \<or> gr_Role x = RoleEditor"
    using assms(1) r by (auto simp: t put_grant_def grants_ok_def split: if_split_asm)
  ultimately show ?thesis by (simp add: grants_ok_def)
qed

lemma grants_ok_delete [invariants]: "grants_ok table \<Longrightarrow> DeleteGrant i table = Inr table' \<Longrightarrow> grants_ok table'"
  by (auto simp: DeleteGrant_def grants_ok_def distinct_map inj_on_def split: if_split_asm)

section \<open>What a scope allows\<close>

lemma fold_grants:
  "(case fold (add_grant held) gs f i of None \<Rightarrow> 0 | Some r \<Rightarrow> rank r) =
    fold (\<lambda>g k. if gr_Group g \<in> set held \<and> gr_TargetID g = i then max k (rank (gr_Role g)) else k) gs
      (case f i of None \<Rightarrow> 0 | Some r \<Rightarrow> rank r)"
  by (induction gs arbitrary: f) (auto simp: add_grant_def split: option.split)

lemma fold_max_ge:
  "(k :: nat) \<le> fold (\<lambda>g j. if P g then max j (h g) else j) gs z \<longleftrightarrow> k \<le> z \<or> (\<exists>g \<in> set gs. P g \<and> k \<le> h g)"
  by (induction gs arbitrary: z) auto

lemma granted_ge:
  assumes "0 < k"
  shows "(\<exists>r. fold (add_grant held) gs (\<lambda>_. None) i = Some r \<and> k \<le> rank r) \<longleftrightarrow>
    (\<exists>g \<in> set gs. gr_Group g \<in> set held \<and> gr_TargetID g = i \<and> k \<le> rank (gr_Role g))"
proof -
  have "(\<exists>r. fold (add_grant held) gs (\<lambda>_. None) i = Some r \<and> k \<le> rank r) \<longleftrightarrow>
      k \<le> (case fold (add_grant held) gs (\<lambda>_. None) i of None \<Rightarrow> 0 | Some r \<Rightarrow> rank r)"
    using assms by (auto split: option.split)
  then show ?thesis using assms by (simp add: fold_grants fold_max_ge conj_assoc)
qed

text \<open>The declarative reading: held over the whole installation, or granted on the node or above it.\<close>

definition permitted :: "role \<Rightarrow> session \<Rightarrow> grant list \<Rightarrow> tree \<Rightarrow> nat \<Rightarrow> int \<Rightarrow> bool" where
  "permitted dr se gs t k i \<longleftrightarrow>
     k \<le> (if se_Role se = RoleAdmin then 3 else rank dr) \<or>
     (se_Role se \<noteq> RoleAdmin \<and> (\<exists>g \<in> set gs. gr_Group g \<in> set (se_Groups se) \<and> k \<le> rank (gr_Role g) \<and>
        (\<exists>m \<in> set (up_of t i). t_ID m = gr_TargetID g)))"

text \<open>
  Property C27. Who may do what: with authentication on and the grants read, a session sees a node
  exactly when it is an administrator's, or the default role sees everything, or one of its
  groups holds a grant on the node or on a node above it, and may change it exactly when the
  same holds with write access; administration of the installation never comes from a grant;
  no session sees nothing at all, and an instance without authentication allows everything.
\<close>

theorem access_iff:
  assumes "New ts = Inr t" and "ids_nonzero t"
  shows "(scopeFor True dr (Some se) (Inr gs) t = Inr sc \<longrightarrow>
      (Visible sc i \<longleftrightarrow> permitted dr se gs t 1 i) \<and> (CanWrite sc i \<longleftrightarrow> permitted dr se gs t 2 i) \<and>
      (IsGlobalAdmin sc \<longleftrightarrow> se_Role se = RoleAdmin \<or> dr = RoleAdmin)) \<and>
    (\<exists>sc0. scopeFor True dr None (Inr gs) t = Inr sc0 \<and> \<not> Visible sc0 i \<and> \<not> CanWrite sc0 i \<and> \<not> IsGlobalAdmin sc0) \<and>
    (\<exists>sc1. scopeFor False dr s (Inl e) t = Inr sc1 \<and> Visible sc1 i \<and> CanWrite sc1 i \<and> IsGlobalAdmin sc1)"
proof -
  have wf: "wf_tree t" using assms(1) by (simp add: New_iff)
  have role: "(k \<le> rank (RoleOn sc i) \<longleftrightarrow> permitted dr se gs t k i) \<and> (IsGlobalAdmin sc \<longleftrightarrow> se_Role se = RoleAdmin \<or> dr = RoleAdmin)"
    if sc: "scopeFor True dr (Some se) (Inr gs) t = Inr sc" and k: "0 < k" "k \<le> 3" for k
  proof -
    have tr: "sc_tr sc = t" using sc by (auto simp: scopeFor_def split: if_split_asm)
    have adm: "IsGlobalAdmin sc \<longleftrightarrow> se_Role se = RoleAdmin \<or> dr = RoleAdmin"
      using sc by (auto simp: scopeFor_def IsGlobalAdmin_def AtLeast_def rank_admin split: if_split_asm)
    have gl: "rank (sc_global sc) = (if se_Role se = RoleAdmin then 3 else rank dr)"
      using sc by (auto simp: scopeFor_def split: if_split_asm)
    have roots: "(\<exists>r. sc_roots sc j = Some r \<and> k \<le> rank r) \<longleftrightarrow>
        se_Role se \<noteq> RoleAdmin \<and> (\<exists>g \<in> set gs. gr_Group g \<in> set (se_Groups se) \<and> gr_TargetID g = j \<and> k \<le> rank (gr_Role g))" for j
    proof (cases "se_Role se = RoleAdmin \<or> se_Groups se = []")
      case True
      then show ?thesis using sc by (auto simp: scopeFor_def split: if_split_asm)
    next
      case False
      then have "sc_roots sc = fold (add_grant (se_Groups se)) gs (\<lambda>_. None)" using sc by (auto simp: scopeFor_def)
      then show ?thesis using granted_ge [OF k(1), of "se_Groups se" gs j] False by simp
    qed
    have "(\<exists>m \<in> set (up_of t i). \<exists>r. sc_roots sc (t_ID m) = Some r \<and> k \<le> rank r) \<longleftrightarrow>
        se_Role se \<noteq> RoleAdmin \<and> (\<exists>g \<in> set gs. gr_Group g \<in> set (se_Groups se) \<and> k \<le> rank (gr_Role g) \<and>
          (\<exists>m \<in> set (up_of t i). t_ID m = gr_TargetID g))"
      unfolding roots by metis
    moreover have "k \<le> 3 \<and> dr = RoleAdmin \<longrightarrow> k \<le> rank dr" by simp
    ultimately have "k \<le> rank (RoleOn sc i) \<longleftrightarrow> permitted dr se gs t k i"
      using RoleOn_ge [of sc k i] wf assms(2) k(2) unfolding tr gl adm permitted_def by auto
    then show ?thesis using adm by blast
  qed
  have none: "\<not> AtLeast (RoleOn \<lparr>sc_global = '''', sc_roots = (\<lambda>_. None), sc_tr = t\<rparr> i) r" if "0 < rank r" for r
    using RoleOn_ge [of "\<lparr>sc_global = '''', sc_roots = (\<lambda>_. None), sc_tr = t\<rparr>" "rank r" i] wf assms(2) that
    by (simp add: AtLeast_def IsGlobalAdmin_def)
  have "\<exists>sc0. scopeFor True dr None (Inr gs) t = Inr sc0 \<and> \<not> Visible sc0 i \<and> \<not> CanWrite sc0 i \<and> \<not> IsGlobalAdmin sc0"
    using none by (simp add: scopeFor_def Visible_def CanWrite_def IsGlobalAdmin_def) (simp add: AtLeast_def)
  moreover have "\<exists>sc1. scopeFor False dr s (Inl e) t = Inr sc1 \<and> Visible sc1 i \<and> CanWrite sc1 i \<and> IsGlobalAdmin sc1"
    by (simp add: scopeFor_def Unrestricted_def Visible_def CanWrite_def IsGlobalAdmin_def RoleOn_def AtLeast_def)
  ultimately show ?thesis using role [of 1] role [of 2] by (auto simp: Visible_def CanWrite_def AtLeast_def)
qed

section \<open>What is outside does not show\<close>

definition names_of :: "target list \<Rightarrow> string list" where
  "names_of c = rev (map t_Name c)"

text \<open>A caller whose access comes only from grants, each of which gives at least a view.\<close>

definition grant_scope :: "scope \<Rightarrow> bool" where
  "grant_scope sc \<longleftrightarrow> wf_tree (sc_tr sc) \<and> ids_nonzero (sc_tr sc) \<and> rank (sc_global sc) = 0 \<and>
     (\<forall>i r. sc_roots sc i = Some r \<longrightarrow> 1 \<le> rank r)"

lemma grant_visible:
  assumes "grant_scope sc"
  shows "Visible sc i \<longleftrightarrow> (\<exists>m \<in> set (up_of (sc_tr sc) i). sc_roots sc (t_ID m) \<noteq> None)"
proof -
  have "Visible sc i \<longleftrightarrow> 1 \<le> rank (RoleOn sc i)" by (simp add: Visible_def AtLeast_def)
  also have "\<dots> \<longleftrightarrow> (\<exists>m \<in> set (up_of (sc_tr sc) i). \<exists>r. sc_roots sc (t_ID m) = Some r \<and> 1 \<le> rank r)"
    using RoleOn_ge [of sc 1 i] assms by (auto simp: grant_scope_def IsGlobalAdmin_def AtLeast_def)
  finally show ?thesis using assms by (fastforce simp: grant_scope_def)
qed

text \<open>The part of the chain a caller sees: from the node up to the highest grant.\<close>

definition seen_chain :: "scope \<Rightarrow> int \<Rightarrow> target list" where
  "seen_chain sc i = takeWhile (\<lambda>m. Visible sc (t_ID m)) (up_of (sc_tr sc) i)"

lemma visible_down:
  assumes "grant_scope sc" and "Get (sc_tr sc) i = Some n" and "t_ParentID n = Some p" and "Visible sc p"
  shows "Visible sc i"
  using assms tree_view.up_parent [of "sc_tr sc" i n p] by (auto simp: grant_visible grant_scope_def)

lemma not_visible_up:
  assumes "grant_scope sc" and "Get (sc_tr sc) i = Some n" and "\<not> Visible sc i" and "m \<in> set (up_of (sc_tr sc) i)"
  shows "\<not> Visible sc (t_ID m) \<and> sc_roots sc (t_ID m) = None"
proof -
  have wf: "wf_tree (sc_tr sc)" using assms(1) by (simp add: grant_scope_def)
  show ?thesis using wf assms(2-)
  proof (induction i n rule: tree_view.climb_induct)
    case (root i n)
    then have "t_ID n = i" using tree_view.get_ID [OF wf] by blast
    then show ?case using root assms(1) by (auto simp: grant_visible)
  next
    case (parent i n p m')
    then have "\<not> Visible sc p" using visible_down [OF assms(1)] by blast
    moreover have "t_ID n = i" using parent tree_view.get_ID [OF wf] by blast
    moreover have "sc_roots sc i = None" using parent assms(1) \<open>t_ID n = i\<close> by (auto simp: grant_visible)
    ultimately show ?case using parent by auto
  qed
qed

lemma seen_split:
  assumes "grant_scope sc" and "Get (sc_tr sc) i = Some n" and "Visible sc i"
  shows "\<exists>hid. up_of (sc_tr sc) i = seen_chain sc i @ hid \<and> seen_chain sc i \<noteq> [] \<and>
    sc_roots sc (t_ID (last (seen_chain sc i))) \<noteq> None \<and>
    (\<forall>m \<in> set hid. \<not> Visible sc (t_ID m) \<and> sc_roots sc (t_ID m) = None)"
proof -
  have wf: "wf_tree (sc_tr sc)" using assms(1) by (simp add: grant_scope_def)
  show ?thesis using wf assms(2-)
  proof (induction i n rule: tree_view.climb_induct)
    case (root i n)
    then have "t_ID n = i" using tree_view.get_ID [OF wf] by blast
    then show ?case using root assms(1) by (auto simp: seen_chain_def grant_visible)
  next
    case (parent i n p m)
    then have n: "t_ID n = i" using tree_view.get_ID [OF wf] by blast
    show ?case
    proof (cases "Visible sc p")
      case True
      then show ?thesis using parent n by (auto simp: seen_chain_def)
    next
      case False
      have hid: "\<forall>m \<in> set (up_of (sc_tr sc) p). \<not> Visible sc (t_ID m) \<and> sc_roots sc (t_ID m) = None"
        using not_visible_up [OF assms(1) parent(3) False] by blast
      have p: "up_of (sc_tr sc) p \<noteq> []" using tree_view.up_hd [OF wf parent(3)] by auto
      have "seen_chain sc i = [n]"
        using parent(4,6) n hid p by (cases "up_of (sc_tr sc) p") (simp_all add: seen_chain_def)
      moreover have "sc_roots sc i \<noteq> None" using parent(4,6) n hid assms(1) by (auto simp: grant_visible)
      ultimately show ?thesis using parent(4) n hid by auto
    qed
  qed
qed

lemma RootOf_seen:
  assumes "grant_scope sc" and "Get (sc_tr sc) i = Some n" and "Visible sc i"
  shows "RootOf sc i = t_ID (last (seen_chain sc i))"
proof -
  obtain hid where h: "up_of (sc_tr sc) i = seen_chain sc i @ hid" "seen_chain sc i \<noteq> []"
    "sc_roots sc (t_ID (last (seen_chain sc i))) \<noteq> None" "\<forall>m \<in> set hid. sc_roots sc (t_ID m) = None"
    using seen_split [OF assms] by blast
  have "find P (rev (map f xs) @ ys) = find P ys" if "\<forall>x \<in> set xs. \<not> P (f x)" for P :: "int \<Rightarrow> bool" and f :: "target \<Rightarrow> int" and xs ys
    using that by (induction xs arbitrary: ys) simp_all
  moreover have "rev (map t_ID (seen_chain sc i)) = t_ID (last (seen_chain sc i)) # rev (map t_ID (butlast (seen_chain sc i)))"
    using h(2) by (cases "seen_chain sc i" rule: rev_cases) simp_all
  ultimately have "find (\<lambda>anc. sc_roots sc anc \<noteq> None) (rev (map t_ID (up_of (sc_tr sc) i))) = Some (t_ID (last (seen_chain sc i)))"
    using h(3,4) unfolding h(1) by simp
  then show ?thesis
    using scope_chain_up [of sc i] assms(1) by (simp add: RootOf_def grant_scope_def AtLeast_def)
qed

lemma up_chain:
  assumes "wf_tree t" and "Get t i = Some n"
  shows "is_chain (t_nodes t) (up_of t i)" and "set (up_of t i) \<subseteq> set (t_nodes t)"
    and "Path (t_nodes t) i = Inr (path_string (up_of t i))"
    and "Resolve (t_nodes t) i = Inr (resolve_all (t_nodes t) (up_of t i))"
proof -
  have n: "node_at (t_nodes t) i = Some n" using assms(2) by (simp add: Get_def)
  from wf_chain [OF assms(1) n] obtain c where c: "is_chain (t_nodes t) (n # c)" "ancestryOf (t_nodes t) n = Inr (n # c)"
    "set (n # c) \<subseteq> set (t_nodes t)" by blast
  then have "up_of t i = n # c" using assms(2) by (simp add: up_of_def)
  then show "is_chain (t_nodes t) (up_of t i)" "set (up_of t i) \<subseteq> set (t_nodes t)"
    "Path (t_nodes t) i = Inr (path_string (up_of t i))"
    "Resolve (t_nodes t) i = Inr (resolve_all (t_nodes t) (up_of t i))"
    using c n by (simp_all add: Path_def Resolve_def)
qed

lemma up_suffix:
  assumes "wf_tree t" and "Get t i = Some n" and "up_of t i = xs @ m # ys"
  shows "Get t (t_ID m) = Some m" and "up_of t (t_ID m) = m # ys"
proof -
  show g: "Get t (t_ID m) = Some m" using tree_view.up_nodes [OF assms(1,2)] assms(3) by simp
  have "is_chain (t_nodes t) (m # ys)" using up_chain(1) [OF assms(1,2)] chain_suffix unfolding assms(3) by blast
  moreover obtain c where c: "up_of t (t_ID m) = m # c" using tree_view.up_hd [OF assms(1) g] by blast
  moreover have "is_chain (t_nodes t) (m # c)" using up_chain(1) [OF assms(1) g] c by simp
  ultimately show "up_of t (t_ID m) = m # ys" using chain_unique by blast
qed

lemma join_append: "xs \<noteq> [] \<Longrightarrow> ys \<noteq> [] \<Longrightarrow> join sep (xs @ ys) = join sep xs @ sep @ join sep ys"
  by (induction sep xs rule: join.induct) (auto simp: neq_Nil_conv)

lemma before_last_slash: "slash_free v \<Longrightarrow> before_last_slash (a @ CHR ''/'' # v) = Some a"
proof -
  assume "slash_free v"
  then have "dropWhile (\<lambda>c. c \<noteq> CHR ''/'') (rev v @ CHR ''/'' # rev a) = CHR ''/'' # rev a"
    by (subst dropWhile_append2) (auto simp: slash_free_def)
  then show ?thesis by (simp add: before_last_slash_def)
qed

text \<open>A path is rendered from the names that are seen, and from nothing else.\<close>

lemma PathIn_seen:
  assumes "grant_scope sc" and "Get (sc_tr sc) i = Some n" and "Visible sc i"
  shows "PathIn sc i = Inr (''/'' @ join ''/'' (names_of
    (if t_ParentID (last (seen_chain sc i)) = None then butlast (seen_chain sc i) else seen_chain sc i)))"
proof -
  let ?t = "sc_tr sc"
  have wf: "wf_tree ?t" and nz: "ids_nonzero ?t" using assms(1) by (simp_all add: grant_scope_def)
  obtain hid where h: "up_of ?t i = seen_chain sc i @ hid" "seen_chain sc i \<noteq> []" using seen_split [OF assms] by blast
  define seen v where "seen = butlast (seen_chain sc i)" and "v = last (seen_chain sc i)"
  have sv: "seen_chain sc i = seen @ [v]" using h(2) by (simp add: seen_def v_def)
  have up: "up_of ?t i = seen @ v # hid" using h(1) sv by simp
  note suf = up_suffix [OF wf assms(2) up]
  have r: "RootOf sc i = t_ID v" "t_ID v \<noteq> 0" using RootOf_seen [OF assms] Get_nonzero [OF nz suf(1)] v_def by auto
  have full: "Path (t_nodes ?t) i = Inr (path_string (seen @ v # hid))" using up_chain(3) [OF wf assms(2)] up by simp
  have rp: "Path (t_nodes ?t) (t_ID v) = Inr (path_string (v # hid))" using up_chain(3) [OF wf suf(1)] suf(2) by simp
  have ch: "is_chain (t_nodes ?t) (v # hid)" using up_chain(1) [OF wf suf(1)] suf(2) by simp
  show ?thesis
  proof (cases "hid = []")
    case True
    then have "t_ParentID v = None" using ch by simp
    moreover have "before_last_slash (path_string [v]) = Some ''''"
      using before_last_slash [of "''''" "''''"] by (simp add: path_string_def slash_free_def)
    ultimately show ?thesis using full rp r True v_def [symmetric] seen_def [symmetric]
      by (simp add: PathIn_def path_result_def Let_def) (simp add: path_string_def names_of_def)
  next
    case False
    then have par: "t_ParentID v \<noteq> None" using ch by (cases hid) (auto split: if_splits)
    have "v \<in> set (t_nodes ?t)" using suf(1) by (simp add: Get_def node_at_Some)
    then have sf: "slash_free (t_Name v)" using wf_treeD(3) [OF wf] par valid_name by blast
    let ?hs = "rev (map t_Name (butlast hid))"
    have p1: "path_string (v # hid) = ''/'' @ join ''/'' (?hs @ [t_Name v])"
      and p2: "path_string (seen @ v # hid) = ''/'' @ join ''/'' (?hs @ names_of (seen @ [v]))"
      using False by (simp_all add: path_string_def names_of_def butlast_append)
    show ?thesis
    proof (cases "?hs = []")
      case True
      have "before_last_slash (path_string (v # hid)) = Some ''''"
        using before_last_slash [OF sf, of "''''"] True p1 by simp
      then show ?thesis using full rp r par True v_def [symmetric] sv p2
        by (auto simp: PathIn_def path_result_def Let_def)
    next
      case hs: False
      have "path_string (v # hid) = (''/'' @ join ''/'' ?hs) @ CHR ''/'' # t_Name v"
        using hs by (simp add: p1 join_append)
      then have b: "before_last_slash (path_string (v # hid)) = Some (''/'' @ join ''/'' ?hs)"
        using before_last_slash [OF sf, of "''/'' @ join ''/'' ?hs"] by simp
      have "path_string (seen @ v # hid) = (''/'' @ join ''/'' ?hs) @ ''/'' @ join ''/'' (names_of (seen @ [v]))"
        using hs by (simp add: p2 join_append names_of_def)
      then have "TrimPrefix (path_string (seen @ v # hid)) (''/'' @ join ''/'' ?hs) = ''/'' @ join ''/'' (names_of (seen @ [v]))"
        by (simp add: TrimPrefix_def)
      then show ?thesis using full rp r par v_def [symmetric] sv b
        by (auto simp: PathIn_def path_result_def Let_def)
    qed
  qed
qed

section \<open>Two installations a caller cannot tell apart\<close>

definition visible_nodes :: "scope \<Rightarrow> target list" where
  "visible_nodes sc = filter (\<lambda>t. Visible sc (t_ID t)) (t_nodes (sc_tr sc))"

text \<open>The values that reach a node, without where they come from.\<close>

definition effective :: "resolved \<Rightarrow> settings" where
  "effective r = \<lparr>IntervalS = Some (v_Effective (res_IntervalS r)), PingsPerInterval = Some (v_Effective (res_PingsPerInterval r)),
     ProbeMode = Some (v_Effective (res_ProbeMode r)), BurstGapMS = Some (v_Effective (res_BurstGapMS r)),
     TimeoutMS = Some (v_Effective (res_TimeoutMS r)), PacketSize = Some (v_Effective (res_PacketSize r)),
     DSCP = Some (v_Effective (res_DSCP r)), Agents = Some (v_Effective (res_Agents r)),
     ProbeType = Some (v_Effective (res_ProbeType r)), ProbePort = Some (v_Effective (res_ProbePort r)),
     DNSQuery = Some (v_Effective (res_DNSQuery r)), DNSRRType = Some (v_Effective (res_DNSRRType r)),
     HTTPPath = Some (v_Effective (res_HTTPPath r)), TLSSkipVerify = Some (v_Effective (res_TLSSkipVerify r)),
     TraceIntervalS = Some (v_Effective (res_TraceIntervalS r)), RetentionS = Some (v_Effective (res_RetentionS r)),
     GraphSeries = Some (v_Effective (res_GraphSeries r))\<rparr>"

definition same_for_caller :: "scope \<Rightarrow> scope \<Rightarrow> bool" where
  "same_for_caller a b \<longleftrightarrow> grant_scope a \<and> grant_scope b \<and> sc_roots a = sc_roots b \<and> visible_nodes a = visible_nodes b \<and>
     (\<forall>n \<in> set (visible_nodes a). effective (resolve_all (t_nodes (sc_tr a)) (up_of (sc_tr a) (t_ID n))) =
        effective (resolve_all (t_nodes (sc_tr b)) (up_of (sc_tr b) (t_ID n))))"

lemma visible_Get:
  assumes "grant_scope sc"
  shows "Visible sc i \<Longrightarrow> \<exists>n. Get (sc_tr sc) i = Some n \<and> n \<in> set (visible_nodes sc)"
    and "n \<in> set (visible_nodes sc) \<Longrightarrow> Get (sc_tr sc) (t_ID n) = Some n \<and> Visible sc (t_ID n)"
proof -
  have wf: "wf_tree (sc_tr sc)" using assms by (simp add: grant_scope_def)
  show "\<exists>n. Get (sc_tr sc) i = Some n \<and> n \<in> set (visible_nodes sc)" if v: "Visible sc i"
  proof (cases "Get (sc_tr sc) i")
    case None
    then show ?thesis using v assms by (simp add: grant_visible up_of_def)
  next
    case (Some n)
    then have "t_ID n = i" "n \<in> set (t_nodes (sc_tr sc))" by (simp_all add: Get_def node_at_Some)
    then show ?thesis using Some v by (auto simp: visible_nodes_def)
  qed
  show "Get (sc_tr sc) (t_ID n) = Some n \<and> Visible sc (t_ID n)" if "n \<in> set (visible_nodes sc)"
    using that wf_treeD(1) [OF wf] by (auto simp: visible_nodes_def Get_def node_at_mem)
qed

lemma same_visible:
  assumes "same_for_caller a b"
  shows "Visible a i \<longleftrightarrow> Visible b i" and "Visible a i \<Longrightarrow> Get (sc_tr a) i = Get (sc_tr b) i"
proof -
  have g: "grant_scope a" "grant_scope b" and v: "visible_nodes a = visible_nodes b"
    using assms by (simp_all add: same_for_caller_def)
  have ab: "Visible x i \<Longrightarrow> Visible y i \<and> Get (sc_tr x) i = Get (sc_tr y) i"
    if x: "grant_scope x" and y: "grant_scope y" and xy: "visible_nodes x = visible_nodes y" for x y
  proof -
    assume "Visible x i"
    then obtain n where n: "Get (sc_tr x) i = Some n" "n \<in> set (visible_nodes x)" using visible_Get(1) [OF x] by blast
    moreover have "t_ID n = i" using n(1) by (simp add: Get_def node_at_Some)
    ultimately show ?thesis using visible_Get(2) [OF y, of n] xy by simp
  qed
  show "Visible a i \<longleftrightarrow> Visible b i" using ab [OF g v] ab [OF g(2,1) v [symmetric]] by blast
  show "Visible a i \<Longrightarrow> Get (sc_tr a) i = Get (sc_tr b) i" using ab [OF g v] by blast
qed

lemma same_seen:
  assumes "same_for_caller a b" and "Get (sc_tr a) i = Some n" and "Visible a i"
  shows "seen_chain a i = seen_chain b i"
proof -
  have g: "grant_scope a" "grant_scope b" using assms(1) by (simp_all add: same_for_caller_def)
  then have wf: "wf_tree (sc_tr a)" "wf_tree (sc_tr b)" by (simp_all add: grant_scope_def)
  show ?thesis using wf(1) assms(2,3)
  proof (induction i n rule: tree_view.climb_induct)
    case (root i n)
    then have "Get (sc_tr b) i = Some n" using same_visible(2) [OF assms(1)] by simp
    then show ?case using root tree_view.up_root [OF wf(2)] same_visible(1) [OF assms(1)] by (simp add: seen_chain_def)
  next
    case (parent i n p m)
    then have b: "Get (sc_tr b) i = Some n" using same_visible(2) [OF assms(1)] by simp
    then have up_b: "up_of (sc_tr b) i = n # up_of (sc_tr b) p" using tree_view.up_parent [OF wf(2) _ parent(2)] by blast
    obtain m' where m': "Get (sc_tr b) p = Some m'" using tree_view.up_parent [OF wf(2) b parent(2)] by blast
    have n: "t_ID n = i" using tree_view.get_ID [OF wf(1) parent(1)] .
    show ?case
    proof (cases "Visible a p")
      case True
      then show ?thesis using parent up_b n same_visible(1) [OF assms(1)] by (simp add: seen_chain_def)
    next
      case False
      obtain c d where "up_of (sc_tr a) p = m # c" "up_of (sc_tr b) p = m' # d"
        using tree_view.up_hd [OF wf(1) parent(3)] tree_view.up_hd [OF wf(2) m'] by blast
      moreover have "t_ID m = p" "t_ID m' = p" using tree_view.get_ID [OF wf(1) parent(3)] tree_view.get_ID [OF wf(2) m'] .
      ultimately show ?thesis
        using parent(4,6) up_b n False same_visible(1) [OF assms(1)] by (simp add: seen_chain_def)
    qed
  qed
qed

lemma resolve_source:
  "case find (\<lambda>n. get (t_Settings n) \<noteq> None) xs of
     Some m \<Rightarrow> m \<in> set xs \<and> src_ID (v_Source (resolve_loop ns lo get z (xs @ ys))) = t_ID m \<and>
       src_Name (v_Source (resolve_loop ns lo get z (xs @ ys))) = t_Name m
   | None \<Rightarrow> src_ID (v_Source (resolve_loop ns lo get z (xs @ ys))) \<in> insert 0 (t_ID ` set ys)"
proof (induction xs)
  case Nil
  show ?case by (induction ys) (auto split: option.split)
qed (auto split: option.splits)

lemma same_PathIn:
  assumes "same_for_caller a b" and "Visible a i"
  shows "PathIn a i = PathIn b i" and "\<exists>p. PathIn a i = Inr p"
proof -
  have g: "grant_scope a" "grant_scope b" using assms(1) by (simp_all add: same_for_caller_def)
  obtain n where n: "Get (sc_tr a) i = Some n" using visible_Get(1) [OF g(1) assms(2)] by blast
  then have "Get (sc_tr b) i = Some n" "Visible b i" using same_visible [OF assms(1)] assms(2) by auto
  then show "PathIn a i = PathIn b i"
    using PathIn_seen [OF g(1) n assms(2)] PathIn_seen [OF g(2)] same_seen [OF assms(1) n assms(2)] by simp
  show "\<exists>p. PathIn a i = Inr p" using PathIn_seen [OF g(1) n assms(2)] by blast
qed

lemma same_setting:
  assumes "same_for_caller a b" and "Visible a i"
    and "v_Effective (resolve (t_nodes (sc_tr a)) (up_of (sc_tr a) i) get z) =
      v_Effective (resolve (t_nodes (sc_tr b)) (up_of (sc_tr b) i) get z)"
  shows "settingJSON a i (resolve (t_nodes (sc_tr a)) (up_of (sc_tr a) i) get z) =
    settingJSON b i (resolve (t_nodes (sc_tr b)) (up_of (sc_tr b) i) get z)"
proof -
  have g: "grant_scope a" "grant_scope b" using assms(1) by (simp_all add: same_for_caller_def)
  note vis = same_visible(1) [OF assms(1)]
  obtain n where n: "Get (sc_tr a) i = Some n" using visible_Get(1) [OF g(1) assms(2)] by blast
  then have nb: "Get (sc_tr b) i = Some n" "Visible b i" using same_visible [OF assms(1)] assms(2) by auto
  obtain ha hb where h: "up_of (sc_tr a) i = seen_chain a i @ ha" "up_of (sc_tr b) i = seen_chain a i @ hb" "seen_chain a i \<noteq> []"
    and hid: "\<forall>m \<in> set ha. \<not> Visible a (t_ID m)" "\<forall>m \<in> set hb. \<not> Visible b (t_ID m)"
    using seen_split [OF g(1) n assms(2)] seen_split [OF g(2) nb] same_seen [OF assms(1) n assms(2)] by auto
  have zero: "\<not> Visible x 0" if "grant_scope x" for x
  proof -
    have "Get (sc_tr x) 0 = None" using Get_nonzero [of "sc_tr x" 0] that by (cases "Get (sc_tr x) 0") (auto simp: grant_scope_def)
    then show ?thesis using that by (simp add: grant_visible up_of_def)
  qed
  let ?ra = "resolve (t_nodes (sc_tr a)) (up_of (sc_tr a) i) get z"
  let ?rb = "resolve (t_nodes (sc_tr b)) (up_of (sc_tr b) i) get z"
  have lo: "v_Local (resolve_loop ns lo g z ch) = lo" for ns lo and g :: "settings \<Rightarrow> 'a option" and z ch
    by (induction ch) (auto split: option.split)
  have loc: "v_Local ?ra = v_Local ?rb" using h by (simp add: resolve_def lo)
  show ?thesis
  proof (cases "find (\<lambda>n. get (t_Settings n) \<noteq> None) (seen_chain a i)")
    case None
    have "src_ID (v_Source ?ra) \<in> insert 0 (t_ID ` set ha)" "src_ID (v_Source ?rb) \<in> insert 0 (t_ID ` set hb)"
      using resolve_source [where get = get and xs = "seen_chain a i"] None unfolding resolve_def h(1,2) by auto
    then have "\<not> Visible a (src_ID (v_Source ?ra))" "\<not> Visible b (src_ID (v_Source ?rb))"
      using hid zero g by auto
    moreover from this have "src_ID (v_Source ?ra) \<noteq> i" "src_ID (v_Source ?rb) \<noteq> i" using assms(2) nb(2) by auto
    ultimately show ?thesis using loc assms(3) by (simp add: settingJSON_def)
  next
    case (Some m)
    have src: "src_ID (v_Source ?ra) = t_ID m" "src_Name (v_Source ?ra) = t_Name m"
      "src_ID (v_Source ?rb) = t_ID m" "src_Name (v_Source ?rb) = t_Name m" "m \<in> set (seen_chain a i)"
      using resolve_source [where get = get and xs = "seen_chain a i"] Some unfolding resolve_def h(1,2) by auto
    have "Visible a (t_ID m)" using src(5) by (auto simp: seen_chain_def dest: set_takeWhileD)
    then show ?thesis using src loc assms(3) vis same_PathIn [OF assms(1)] by (simp add: settingJSON_def)
  qed
qed

text \<open>
  Property C28. What lies outside a caller's grants does not show. Take any two installations whose
  trees are valid and in which the caller (with access from grants only) has the same grants,
  sees the same nodes and gets the same effective values on them; everything else may differ:
  which other nodes exist, their names, hosts, ids, order and depth, and which node above the
  grant a value comes from. Then the listing of targets is the same in every field, it
  lists exactly the nodes the caller sees and names no parent they do not see.
\<close>

theorem listing_noninterference:
  assumes "same_for_caller a b"
  shows "handleTargets a (t_nodes (sc_tr a)) = handleTargets b (t_nodes (sc_tr b)) \<and>
    (\<exists>out. handleTargets a (t_nodes (sc_tr a)) = Inr out \<and> map w_id out = map t_ID (visible_nodes a) \<and>
      (\<forall>v \<in> set out. case w_parent_id v of None \<Rightarrow> True | Some p \<Rightarrow> Visible a p))"
proof -
  have g: "grant_scope a" "grant_scope b" and v: "visible_nodes a = visible_nodes b"
    using assms by (simp_all add: same_for_caller_def)
  then have wf: "wf_tree (sc_tr a)" "wf_tree (sc_tr b)" by (simp_all add: grant_scope_def)
  have one: "targetJSON a n = targetJSON b n \<and>
      (\<exists>w. targetJSON a n = Inr w \<and> w_id w = t_ID n \<and> (case w_parent_id w of None \<Rightarrow> True | Some p \<Rightarrow> Visible a p))"
    if n: "n \<in> set (visible_nodes a)" for n
  proof -
    have a: "Get (sc_tr a) (t_ID n) = Some n" "Visible a (t_ID n)" using visible_Get(2) [OF g(1) n] by simp_all
    then have b: "Get (sc_tr b) (t_ID n) = Some n" using same_visible(2) [OF assms] by simp
    have eff: "effective (resolve_all (t_nodes (sc_tr a)) (up_of (sc_tr a) (t_ID n))) =
        effective (resolve_all (t_nodes (sc_tr b)) (up_of (sc_tr b) (t_ID n)))"
      using assms n by (simp add: same_for_caller_def)
    have set: "settings_json a (t_ID n) (resolve_all (t_nodes (sc_tr a)) (up_of (sc_tr a) (t_ID n))) =
        settings_json b (t_ID n) (resolve_all (t_nodes (sc_tr b)) (up_of (sc_tr b) (t_ID n)))"
      using eff by (simp add: settings_json_def resolve_all_def effective_def same_setting [OF assms a(2)])
    show ?thesis
      using up_chain(4) [OF wf(1) a(1)] up_chain(4) [OF wf(2) b] set same_PathIn [OF assms a(2)] same_visible(1) [OF assms]
      by (auto simp: targetJSON_def path_result_def Let_def split: option.split)
  qed
  have "rmap (targetJSON a) ns = rmap (targetJSON b) ns \<and>
      (\<exists>out. rmap (targetJSON a) ns = Inr out \<and> map w_id out = map t_ID ns \<and>
        (\<forall>v \<in> set out. case w_parent_id v of None \<Rightarrow> True | Some p \<Rightarrow> Visible a p))"
    if "set ns \<subseteq> set (visible_nodes a)" for ns
    using that
  proof (induction ns)
    case (Cons n ns)
    then obtain out where out: "rmap (targetJSON b) ns = Inr out" "rmap (targetJSON a) ns = Inr out"
      "map w_id out = map t_ID ns" "\<forall>v \<in> set out. case w_parent_id v of None \<Rightarrow> True | Some p \<Rightarrow> Visible a p"
      by force
    obtain w where "targetJSON b n = Inr w" "targetJSON a n = Inr w" "w_id w = t_ID n"
      "case w_parent_id w of None \<Rightarrow> True | Some p \<Rightarrow> Visible a p"
      using one [of n] Cons.prems by force
    then show ?case using out by simp
  qed simp
  note all = this [of "visible_nodes a", OF order_refl]
  have "handleTargets a (t_nodes (sc_tr a)) = rmap (targetJSON a) (visible_nodes a)"
    "handleTargets b (t_nodes (sc_tr b)) = rmap (targetJSON b) (visible_nodes a)"
    using v by (simp_all add: handleTargets_def visible_nodes_def)
  then show ?thesis using all by metis
qed

section \<open>The properties on small trees\<close>

definition example_scope :: "tree \<Rightarrow> scope" where
  "example_scope t = \<lparr>sc_global = '''', sc_roots = [2 \<mapsto> RoleEditor], sc_tr = t\<rparr>"

text \<open>The same installation with another customer, and the root under another title.\<close>

definition other_nodes :: "target list" where
  "other_nodes = [(group_node 1 None '''' example_settings)\<lparr>t_Title := Some ''operator''\<rparr>,
     group_node 9 (Some 1) ''secret'' no_settings] @ tl example_nodes"

definition other_tree :: tree where
  "other_tree = \<lparr>t_nodes = other_nodes, t_root = (group_node 1 None '''' example_settings)\<lparr>t_Title := Some ''operator''\<rparr>\<rparr>"

lemma other_New: "New other_nodes = Inr other_tree"
  by code_simp

lemma example_grant_scope: "grant_scope (example_scope example_tree)" "grant_scope (example_scope other_tree)"
proof -
  have "wf_tree example_tree" "wf_tree other_tree" using example_New other_New by (simp_all add: New_iff)
  moreover have "ids_nonzero example_tree" "ids_nonzero other_tree" by code_simp+
  ultimately show "grant_scope (example_scope example_tree)" "grant_scope (example_scope other_tree)"
    by (simp_all add: grant_scope_def example_scope_def split: if_split)
qed

theorem listing_noninterference_witness:
  "handleTargets (example_scope example_tree) example_nodes = handleTargets (example_scope other_tree) other_nodes"
proof -
  have "visible_nodes (example_scope example_tree) = visible_nodes (example_scope other_tree)" by code_simp
  moreover have "list_all (\<lambda>n. effective (resolve_all example_nodes (up_of example_tree (t_ID n))) =
      effective (resolve_all other_nodes (up_of other_tree (t_ID n)))) (visible_nodes (example_scope example_tree))"
    by code_simp
  ultimately have "same_for_caller (example_scope example_tree) (example_scope other_tree)"
    using example_grant_scope
    by (simp add: same_for_caller_def list_all_iff) (simp add: example_scope_def example_tree_def other_tree_def)
  then show ?thesis
    using listing_noninterference [of "example_scope example_tree" "example_scope other_tree"]
    by (simp add: example_scope_def example_tree_def other_tree_def)
qed

definition example_editor :: session where
  "example_editor = \<lparr>se_Subject = ''u'', se_Email = '''', se_Name = '''', se_Role = RoleViewer, se_Groups = [''dc-team''], se_Expires = 0\<rparr>"

theorem access_iff_witness:
  "\<exists>sc. scopeFor True RoleNone (Some example_editor) (Inr [\<lparr>gr_ID = 1, gr_Group = ''dc-team'', gr_TargetID = 2, gr_Role = RoleEditor\<rparr>] :: unit + grant list)
      example_tree = Inr sc \<and> CanWrite sc 3 \<and> \<not> Visible sc 1"
proof -
  let ?g = "[\<lparr>gr_ID = 1, gr_Group = ''dc-team'', gr_TargetID = 2, gr_Role = RoleEditor\<rparr>]"
  obtain sc where sc: "scopeFor True RoleNone (Some example_editor) (Inr ?g :: unit + grant list) example_tree = Inr sc"
    by (simp add: scopeFor_def example_editor_def role_defs)
  have nz: "ids_nonzero example_tree" by code_simp
  have "permitted RoleNone example_editor ?g example_tree 2 3" "\<not> permitted RoleNone example_editor ?g example_tree 1 1"
    by code_simp+
  moreover have "Visible sc 1 \<longleftrightarrow> permitted RoleNone example_editor ?g example_tree 1 1"
    "CanWrite sc 3 \<longleftrightarrow> permitted RoleNone example_editor ?g example_tree 2 3"
    using access_iff [OF example_New nz, THEN conjunct1, THEN mp, OF sc] by blast+
  ultimately have "CanWrite sc 3 \<and> \<not> Visible sc 1" by simp
  then show ?thesis using sc by blast
qed

end
