(* ===== verification/WriteLimits.thy ===== *)
theory WriteLimits
  imports TargetTree Utf8
begin

text \<open>
  What smokeng will run, as opposed to what it will merely store, \<open>internal/tree/limits.go\<close>:
  \<open>CheckLimits\<close> on the changed fields of one node and \<open>CheckTreeLimits\<close> on a whole proposed tree.
  The lemmas show that what a write leaves alone is never refused, and what an accepted write
  guarantees. Rates are exact quotients of integers.
\<close>

definition MaxNameRunes :: nat where "MaxNameRunes = 128"
definition MaxTitleRunes :: nat where "MaxTitleRunes = 500"
definition MaxNotesRunes :: nat where "MaxNotesRunes = 16384"
definition MaxHostLen :: nat where "MaxHostLen = 253"
definition MaxDNSQueryLen :: nat where "MaxDNSQueryLen = 253"
definition MaxHTTPPathLen :: nat where "MaxHTTPPathLen = 2048"
definition MaxAgentsLen :: nat where "MaxAgentsLen = 1024"
definition MaxDepth :: nat where "MaxDepth = 16"
definition MaxTargets :: nat where "MaxTargets = 10000"
definition MaxIntervalS :: int where "MaxIntervalS = 86400"
definition MaxPings :: int where "MaxPings = 1000"
definition MaxBurstGapMS :: int where "MaxBurstGapMS = 600000"
definition MaxPacketSize :: int where "MaxPacketSize = 9000"
definition MinTraceS :: int where "MinTraceS = 30"
definition MaxTraceS :: int where "MaxTraceS = 604800"
definition MinRetentionS :: int where "MinRetentionS = 3600"
definition MaxRetentionS :: int where "MaxRetentionS = 315360000"
definition MaxProbeRate :: real where "MaxProbeRate = 100"
definition MaxProbeBytesPerSec :: real where "MaxProbeBytesPerSec = 500000"
definition MaxTotalProbeRate :: real where "MaxTotalProbeRate = 5000"

lemmas limit_defs = MaxNameRunes_def MaxTitleRunes_def MaxNotesRunes_def MaxHostLen_def
  MaxDNSQueryLen_def MaxHTTPPathLen_def MaxAgentsLen_def MaxDepth_def MaxTargets_def
  MaxIntervalS_def MaxPings_def MaxBurstGapMS_def MaxPacketSize_def MinTraceS_def MaxTraceS_def
  MinRetentionS_def MaxRetentionS_def MaxProbeRate_def MaxProbeBytesPerSec_def MaxTotalProbeRate_def

datatype limit_error =
    BadUtf8 string | TooLong string nat | ControlChar string nat | InvisibleChar string nat
  | NameSpace | HostEmpty | TooManyBytes string | DNSEmpty string | DNSEmptyLabel string
  | DNSLongLabel string | DNSBadRune string nat | HTTPPathRune nat
  | OutOfRange string int | TreeInvalid tree_error | TooManyTargets nat | TooDeep string nat
  | TimeoutOverInterval int int | RateTooHigh int int | BytesTooHigh int int
  | LoadOf int string limit_error | TotalRate real

section \<open>Fields\<close>

definition rune_check :: "string \<Rightarrow> bool \<Rightarrow> nat \<Rightarrow> limit_error + unit" where
  "rune_check field prose r =
     (if prose \<and> r \<in> {0x0A, 0x09, 0x0D} then Inr ()
      else if IsControl r then Inl (ControlChar field r)
      else if IsCf r \<or> r = 0x2028 \<or> r = 0x2029 then Inl (InvisibleChar field r)
      else Inr ())"

definition checkText :: "string \<Rightarrow> string \<Rightarrow> nat \<Rightarrow> bool \<Rightarrow> limit_error + unit" where
  "checkText field s maxRunes prose =
     (case runes s of
        None \<Rightarrow> Inl (BadUtf8 field)
      | Some rs \<Rightarrow>
          rbind (check (length rs > maxRunes) (TooLong field (length rs))) (\<lambda>_.
            reach (rune_check field prose) rs))"

definition dns_rune_check :: "golib \<Rightarrow> string \<Rightarrow> nat \<Rightarrow> limit_error + unit" where
  "dns_rune_check g field r = check (\<not> (gl_letter g r \<or> gl_digit g r \<or> r = 0x2D \<or> r = 0x5F)) (DNSBadRune field r)"

definition label_check :: "golib \<Rightarrow> string \<Rightarrow> string \<Rightarrow> limit_error + unit" where
  "label_check g field label =
     rbind (check (label = []) (DNSEmptyLabel field)) (\<lambda>_.
     rbind (check (length label > 63) (DNSLongLabel field)) (\<lambda>_.
       case runes label of None \<Rightarrow> Inl (BadUtf8 field) | Some rs \<Rightarrow> reach (dns_rune_check g field) rs))"

text \<open>
  The text is valid UTF-8 and a dot is a byte of its own, so every label is valid UTF-8 as well and
  the first branch of \<open>label_check\<close> on \<open>runes\<close> is not taken.
\<close>

definition checkDNSName :: "golib \<Rightarrow> string \<Rightarrow> string \<Rightarrow> nat \<Rightarrow> limit_error + unit" where
  "checkDNSName g field name maxLen =
     rbind (check (length name > maxLen) (TooManyBytes field)) (\<lambda>_.
     rbind (check (runes name = None) (BadUtf8 field)) (\<lambda>_.
       let trimmed = trim_suffix_char (CHR 0x2E) name
       in rbind (check (trimmed = [] \<and> name \<noteq> [CHR 0x2E]) (DNSEmpty field)) (\<lambda>_.
          if name = [CHR 0x2E] then Inr ()
          else reach (label_check g field) (split_at (CHR 0x2E) trimmed))))"

definition checkHost :: "golib \<Rightarrow> string \<Rightarrow> limit_error + unit" where
  "checkHost g h =
     rbind (check (h = []) HostEmpty) (\<lambda>_.
     rbind (check (length h > MaxHostLen) (TooManyBytes ''host'')) (\<lambda>_.
       if gl_addr g h then Inr () else checkDNSName g ''host'' h MaxHostLen))"

definition checkHTTPPath :: "string \<Rightarrow> limit_error + unit" where
  "checkHTTPPath p =
     rbind (check (length p > MaxHTTPPathLen) (TooManyBytes ''http_path'')) (\<lambda>_.
       case runes p of
         None \<Rightarrow> Inl (BadUtf8 ''http_path'')
       | Some rs \<Rightarrow> reach (\<lambda>r. check (IsControl r \<or> r = 0x20 \<or> IsCf r) (HTTPPathRune r)) rs)"

section \<open>One node\<close>

text \<open>\<open>differs\<close>: a field changed; a node being created (\<open>None\<close>) has changed in every field.\<close>

definition differs :: "target option \<Rightarrow> target \<Rightarrow> (target \<Rightarrow> 'a option) \<Rightarrow> bool" where
  "differs before after get = (case before of None \<Rightarrow> True | Some b \<Rightarrow> get b \<noteq> get after)"

text \<open>A check that applies to a field that is set and changed.\<close>

definition changed :: "target option \<Rightarrow> target \<Rightarrow> (target \<Rightarrow> 'a option) \<Rightarrow> ('a \<Rightarrow> limit_error + unit) \<Rightarrow> limit_error + unit" where
  "changed before after get chk =
     (case get after of None \<Rightarrow> Inr () | Some v \<Rightarrow> if differs before after get then chk v else Inr ())"

definition bound :: "string \<Rightarrow> int \<Rightarrow> int \<Rightarrow> int \<Rightarrow> limit_error + unit" where
  "bound name lo hi v = check (v < lo \<or> v > hi) (OutOfRange name v)"

definition zeroOr :: "string \<Rightarrow> int \<Rightarrow> int \<Rightarrow> int \<Rightarrow> limit_error + unit" where
  "zeroOr name lo hi v = (if v = 0 then Inr () else bound name lo hi v)"

definition name_check :: "string \<Rightarrow> limit_error + unit" where
  "name_check s =
     rbind (checkText ''name'' s MaxNameRunes False) (\<lambda>_. check (s \<noteq> trim_space s) NameSpace)"

definition name_changed :: "target option \<Rightarrow> target \<Rightarrow> bool" where
  "name_changed before after = (case before of None \<Rightarrow> True | Some b \<Rightarrow> t_Name b \<noteq> t_Name after)"

definition CheckLimits :: "golib \<Rightarrow> target option \<Rightarrow> target \<Rightarrow> limit_error + unit" where
  "CheckLimits g before after =
     rbind (if name_changed before after then name_check (t_Name after) else Inr ()) (\<lambda>_.
     rbind (changed before after t_Host (checkHost g)) (\<lambda>_.
     rbind (changed before after t_Title (\<lambda>s. checkText ''title'' s MaxTitleRunes False)) (\<lambda>_.
     rbind (changed before after t_Notes (\<lambda>s. checkText ''notes'' s MaxNotesRunes True)) (\<lambda>_.
     rbind (changed before after (\<lambda>t. IntervalS (t_Settings t)) (bound ''interval_s'' 1 MaxIntervalS)) (\<lambda>_.
     rbind (changed before after (\<lambda>t. PingsPerInterval (t_Settings t)) (bound ''pings_per_interval'' 1 MaxPings)) (\<lambda>_.
     rbind (changed before after (\<lambda>t. BurstGapMS (t_Settings t)) (bound ''burst_gap_ms'' 0 MaxBurstGapMS)) (\<lambda>_.
     rbind (changed before after (\<lambda>t. PacketSize (t_Settings t)) (bound ''packet_size'' 12 MaxPacketSize)) (\<lambda>_.
     rbind (changed before after (\<lambda>t. TraceIntervalS (t_Settings t)) (zeroOr ''trace_interval_s'' MinTraceS MaxTraceS)) (\<lambda>_.
     rbind (changed before after (\<lambda>t. RetentionS (t_Settings t)) (zeroOr ''retention_s'' MinRetentionS MaxRetentionS)) (\<lambda>_.
     rbind (changed before after (\<lambda>t. DNSQuery (t_Settings t)) (\<lambda>q. checkDNSName g ''dns_query'' q MaxDNSQueryLen)) (\<lambda>_.
     rbind (changed before after (\<lambda>t. HTTPPath (t_Settings t)) checkHTTPPath) (\<lambda>_.
       changed before after (\<lambda>t. Agents (t_Settings t)) (\<lambda>s. checkText ''agents'' s MaxAgentsLen False)))))))))))))"

section \<open>The whole tree\<close>

definition probeRate :: "resolved \<Rightarrow> real" where
  "probeRate r = real_of_int (v_Effective (res_PingsPerInterval r)) / real_of_int (v_Effective (res_IntervalS r))"

definition byteRate :: "resolved \<Rightarrow> real" where
  "byteRate r = probeRate r * real_of_int (v_Effective (res_PacketSize r))"

definition waiting :: "resolved \<Rightarrow> real" where
  "waiting r = real_of_int (v_Effective (res_TimeoutMS r)) / real_of_int (v_Effective (res_IntervalS r) * 1000)"

definition notWorse :: "resolved \<Rightarrow> resolved \<Rightarrow> bool" where
  "notWorse before after \<longleftrightarrow>
     probeRate after \<le> probeRate before \<and> byteRate after \<le> byteRate before \<and> waiting after \<le> waiting before"

definition resolvedLimits :: "resolved \<Rightarrow> limit_error + unit" where
  "resolvedLimits r =
     (let interval = v_Effective (res_IntervalS r); pings = v_Effective (res_PingsPerInterval r)
      in rbind (check (v_Effective (res_TimeoutMS r) > interval * 1000)
           (TimeoutOverInterval (v_Effective (res_TimeoutMS r)) interval)) (\<lambda>_.
         rbind (check (probeRate r > MaxProbeRate) (RateTooHigh pings interval)) (\<lambda>_.
           check (byteRate r > MaxProbeBytesPerSec) (BytesTooHigh pings interval))))"

text \<open>
  \<open>depth\<close> climbs the parents; the fuel is the number of nodes, which is enough on a tree \<open>New\<close>
  accepted (lemma \<open>depth_chain\<close>).
\<close>

fun depth_loop :: "target list \<Rightarrow> nat \<Rightarrow> nat \<Rightarrow> target \<Rightarrow> nat" where
  "depth_loop ns 0 d cur = d"
| "depth_loop ns (Suc fuel) d cur =
     (case t_ParentID cur of
        None \<Rightarrow> d
      | Some p \<Rightarrow> (case node_at ns p of None \<Rightarrow> d | Some nxt \<Rightarrow> depth_loop ns fuel (Suc d) nxt))"

definition depth :: "tree \<Rightarrow> target \<Rightarrow> nat" where
  "depth t n = depth_loop (t_nodes t) (length (t_nodes t)) 0 n"

text \<open>\<open>prior\<close>: the stored node of an id, the last one where ids repeat.\<close>

definition prior :: "target list \<Rightarrow> int \<Rightarrow> target option" where
  "prior before i = node_at (rev before) i"

definition depth_check :: "target list \<Rightarrow> tree option \<Rightarrow> tree \<Rightarrow> target \<Rightarrow> limit_error + unit" where
  "depth_check before beforeT afterT n =
     (let d = depth afterT n
      in if d \<le> MaxDepth then Inr ()
      else case (prior before (t_ID n), beforeT) of
        (Some old, Some bt) \<Rightarrow> if depth bt old \<ge> d then Inr () else Inl (TooDeep (t_Name n) d)
      | _ \<Rightarrow> Inl (TooDeep (t_Name n) d))"

definition runs :: "target \<Rightarrow> bool" where
  "runs n \<longleftrightarrow> t_Host n \<noteq> None \<and> t_Enabled n"

text \<open>Whether the stored target was running and its load was no smaller: then nothing is checked.\<close>

definition excused :: "target list \<Rightarrow> tree option \<Rightarrow> target \<Rightarrow> resolved \<Rightarrow> bool" where
  "excused before beforeT n res =
     (case (beforeT, prior before (t_ID n)) of
        (Some bt, Some old) \<Rightarrow>
          t_Host old \<noteq> None \<and> (t_Enabled old \<or> \<not> t_Enabled n) \<and>
          (case Resolve (t_nodes bt) (t_ID old) of Inr rb \<Rightarrow> notWorse rb res | Inl _ \<Rightarrow> False)
      | _ \<Rightarrow> False)"

fun load_loop :: "target list \<Rightarrow> tree option \<Rightarrow> tree \<Rightarrow> real \<Rightarrow> target list \<Rightarrow> limit_error + real" where
  "load_loop before beforeT afterT rate [] = Inr rate"
| "load_loop before beforeT afterT rate (n # ns) =
     (if \<not> runs n then load_loop before beforeT afterT rate ns
      else case Resolve (t_nodes afterT) (t_ID n) of
        Inl e \<Rightarrow> Inl (TreeInvalid e)
      | Inr res \<Rightarrow>
        let rate = rate + probeRate res
        in if excused before beforeT n res then load_loop before beforeT afterT rate ns
        else case resolvedLimits res of
          Inl e \<Rightarrow> Inl (LoadOf (t_ID n) (t_Name n) e)
        | Inr _ \<Rightarrow> load_loop before beforeT afterT rate ns)"

fun rate_loop :: "tree \<Rightarrow> real \<Rightarrow> target list \<Rightarrow> real" where
  "rate_loop bt rate [] = rate"
| "rate_loop bt rate (n # ns) =
     (if \<not> runs n then rate_loop bt rate ns
      else case Resolve (t_nodes bt) (t_ID n) of
        Inr rb \<Rightarrow> rate_loop bt (rate + probeRate rb) ns
      | Inl _ \<Rightarrow> rate_loop bt rate ns)"

definition CheckTreeLimits :: "target list \<Rightarrow> target list \<Rightarrow> limit_error + unit" where
  "CheckTreeLimits before after =
     (case New after of
        Inl e \<Rightarrow> Inl (TreeInvalid e)
      | Inr afterT \<Rightarrow>
        let beforeT = (case New before of Inr bt \<Rightarrow> Some bt | Inl _ \<Rightarrow> None)
        in rbind (check (length after > MaxTargets \<and> length after > length before) (TooManyTargets (length after))) (\<lambda>_.
           rbind (reach (depth_check before beforeT afterT) after) (\<lambda>_.
           rbind (load_loop before beforeT afterT 0 after) (\<lambda>rateAfter.
             let rateBefore = (case beforeT of None \<Rightarrow> 0 | Some bt \<Rightarrow> rate_loop bt 0 before)
             in check (rateAfter > MaxTotalProbeRate \<and> rateAfter > rateBefore) (TotalRate rateAfter)))))"

section \<open>Depth and load on an accepted tree\<close>

lemma depth_loop_chain:
  "is_chain ns (n # c) \<Longrightarrow> length c \<le> fuel \<Longrightarrow> depth_loop ns fuel d n = d + length c"
proof (induction c arbitrary: n fuel d)
  case Nil
  then show ?case by (cases fuel) auto
next
  case (Cons m c)
  then show ?case by (cases fuel) auto
qed

lemma depth_chain: "is_chain (t_nodes t) (n # c) \<Longrightarrow> depth t n = length c"
  by (simp add: depth_def depth_loop_chain chain_length)

lemma load_loop_Inr:
  "load_loop before bt t rate ns = Inr tot \<Longrightarrow>
    tot = rate_loop t rate ns \<and>
    (\<forall>n \<in> set ns. runs n \<longrightarrow> (\<exists>res. Resolve (t_nodes t) (t_ID n) = Inr res \<and>
       (excused before bt n res \<or> resolvedLimits res = Inr ())))"
  by (induction before bt t rate ns rule: load_loop.induct)
    (auto simp: Let_def split: if_splits sum.splits)

lemma load_loop_ok:
  "(\<forall>n \<in> set ns. runs n \<longrightarrow> (\<exists>res. Resolve (t_nodes t) (t_ID n) = Inr res \<and> excused before bt n res)) \<Longrightarrow>
    load_loop before bt t rate ns = Inr (rate_loop t rate ns)"
  by (induction ns arbitrary: rate) auto

lemma prior_eq: "distinct (map t_ID ns) \<Longrightarrow> prior ns i = node_at ns i"
proof -
  assume d: "distinct (map t_ID ns)"
  then have d': "distinct (map t_ID (rev ns))" by (simp flip: rev_map)
  show ?thesis
  proof (cases "node_at ns i")
    case None
    then have "\<forall>n \<in> set ns. t_ID n \<noteq> i" using node_at_mem [OF d] by auto
    then have "node_at (rev ns) i = None" using node_at_Some [of "rev ns" i] by (cases "node_at (rev ns) i") auto
    with None show ?thesis by (simp add: prior_def)
  next
    case (Some n)
    then show ?thesis using node_at_Some [OF Some] node_at_mem [OF d', of n] by (simp add: prior_def)
  qed
qed

lemma CheckTreeLimits_D:
  assumes "CheckTreeLimits before after = Inr ()"
  obtains t bt where "New after = Inr t"
    "bt = (case New before of Inr b \<Rightarrow> Some b | Inl _ \<Rightarrow> None)"
    "length after \<le> MaxTargets \<or> length after \<le> length before"
    "\<forall>n \<in> set after. depth_check before bt t n = Inr ()"
    "\<forall>n \<in> set after. runs n \<longrightarrow> (\<exists>res. Resolve (t_nodes t) (t_ID n) = Inr res \<and>
       (excused before bt n res \<or> resolvedLimits res = Inr ()))"
    "rate_loop t 0 after \<le> MaxTotalProbeRate \<or>
     rate_loop t 0 after \<le> (case bt of None \<Rightarrow> 0 | Some b \<Rightarrow> rate_loop b 0 before)"
proof -
  define bt where "bt = (case New before of Inr b \<Rightarrow> Some b | Inl _ \<Rightarrow> None)"
  from assms obtain t total where t: "New after = Inr t"
    "\<not> (length after > MaxTargets \<and> length after > length before)"
    "\<forall>n \<in> set after. depth_check before bt t n = Inr ()"
    "load_loop before bt t 0 after = Inr total"
    "\<not> (total > MaxTotalProbeRate \<and> total > (case bt of None \<Rightarrow> 0 | Some b \<Rightarrow> rate_loop b 0 before))"
    by (auto simp: CheckTreeLimits_def Let_def bt_def [symmetric] result_simps split: sum.splits)
  show ?thesis
    using that [OF t(1) bt_def _ t(3)] load_loop_Inr [OF t(4)] t(2,5) by (auto simp: not_less)
qed

lemma resolvedLimits_iff:
  "resolvedLimits r = Inr () \<longleftrightarrow>
    v_Effective (res_TimeoutMS r) \<le> v_Effective (res_IntervalS r) * 1000 \<and>
    probeRate r \<le> MaxProbeRate \<and> byteRate r \<le> MaxProbeBytesPerSec"
  by (auto simp: resolvedLimits_def Let_def result_simps not_less)

section \<open>Host names\<close>

lemma split_aux_prefix: "\<exists>x \<in> set (split_aux sep v s). set v \<subseteq> set x"
  by (induction sep v s rule: split_aux.induct) auto

lemma split_aux_mem:
  "c \<in> set s \<Longrightarrow> c \<noteq> sep \<Longrightarrow> \<exists>w \<in> set (split_aux sep u s). c \<in> set w"
proof (induction sep u s rule: split_aux.induct)
  case (2 sep w d cs)
  show ?case
  proof (cases "c = d")
    case True
    obtain x where "x \<in> set (split_aux sep (c # w) cs)" "set (c # w) \<subseteq> set x"
      using split_aux_prefix by blast
    then show ?thesis using True 2(4) by auto
  next
    case False
    with 2 show ?thesis by (cases "d = sep") auto
  qed
qed simp

lemma trim_suffix_mem: "c \<in> set s \<Longrightarrow> c \<noteq> d \<Longrightarrow> c \<in> set (trim_suffix_char d s)"
  by (cases s rule: rev_cases) (auto simp: trim_suffix_char_def)

lemma checkDNSName_chars:
  assumes ok: "checkDNSName g field name maxLen = Inr ()" and c: "c \<in> set name" and ascii: "of_char c < (0x80 :: nat)"
  shows "c = CHR 0x2E \<or> gl_letter g (of_char c) \<or> gl_digit g (of_char c) \<or> of_char c = (0x2D :: nat) \<or> of_char c = (0x5F :: nat)"
proof (cases "c = CHR 0x2E \<or> name = [CHR 0x2E]")
  case True
  then show ?thesis using c by auto
next
  case False
  with ok have labels: "\<forall>l \<in> set (split_at (CHR 0x2E) (trim_suffix_char (CHR 0x2E) name)). label_check g field l = Inr ()"
    by (auto simp: checkDNSName_def Let_def result_simps)
  have "c \<in> set (trim_suffix_char (CHR 0x2E) name)"
    using c False by (intro trim_suffix_mem) auto
  then obtain l where l: "l \<in> set (split_at (CHR 0x2E) (trim_suffix_char (CHR 0x2E) name))" "c \<in> set l"
    using split_aux_mem False unfolding split_at_def by metis
  with labels have "label_check g field l = Inr ()" by blast
  then obtain rs where rs: "runes l = Some rs" "\<forall>r \<in> set rs. dns_rune_check g field r = Inr ()"
    by (auto simp: label_check_def result_simps split: option.splits)
  have "of_char c \<in> set rs"
    using rune_of_ascii [of "map of_char l" rs "of_char c"] rs(1) l(2) ascii by (simp add: runes_def)
  then show ?thesis using rs(2) by (auto simp: dns_rune_check_def)
qed

lemma checkHost_iff:
  "checkHost g h = Inr () \<longleftrightarrow>
    h \<noteq> [] \<and> length h \<le> MaxHostLen \<and> (gl_addr g h \<or> checkDNSName g ''host'' h MaxHostLen = Inr ())"
  by (auto simp: checkHost_def result_simps not_less split: if_splits)

text \<open>The bytes that would let a host be read as something other than a host inside a URL.\<close>

definition url_delims :: "char list" where
  "url_delims = ''/@#?'' @ [CHR 0x5C, CHR 0x20, CHR 0x0A, CHR 0x0D, CHR 0x00]"

definition before_zone :: "string \<Rightarrow> string" where
  "before_zone h = takeWhile (\<lambda>c. c \<noteq> CHR 0x25) h"

section \<open>Bursts that fit\<close>

lemma wrap64_id: "- 9223372036854775808 \<le> i \<Longrightarrow> i \<le> 9223372036854775807 \<Longrightarrow> wrap64 i = i"
  by (simp add: wrap64_def signed_of_int signed_take_bit_int_eq_self)

definition in_range :: "int \<Rightarrow> int \<Rightarrow> int option \<Rightarrow> bool" where
  "in_range lo hi v = (case v of None \<Rightarrow> True | Some x \<Rightarrow> lo \<le> x \<and> x \<le> hi)"

lemma Settings_Validate_bounds:
  "Settings_Validate s = Inr () \<Longrightarrow> in_range 1 65535 (PingsPerInterval s) \<and> (\<forall>i. IntervalS s = Some i \<longrightarrow> 0 < i)"
  by (auto simp: Settings_Validate_def result_simps in_range_def bad_def split: option.splits)

lemma resolve_within:
  assumes "is_chain ns (n # c)" and "\<forall>m \<in> set (n # c). in_range lo hi (get (t_Settings m))"
    and "get (t_Settings (last (n # c))) \<noteq> None"
  shows "lo \<le> v_Effective (resolve ns (n # c) get zero) \<and> v_Effective (resolve ns (n # c) get zero) \<le> hi"
proof -
  obtain m where m: "find (\<lambda>m. get (t_Settings m) \<noteq> None) (n # c) = Some m"
    using assms(3) find_last [of "\<lambda>m. get (t_Settings m) \<noteq> None" "n # c"] by auto
  then have "m \<in> set (n # c)" by (metis find_Some_iff nth_mem)
  then have "in_range lo hi (get (t_Settings m))" using assms(2) by blast
  moreover have "get (t_Settings m) = Some (v_Effective (resolve ns (n # c) get zero))"
    unfolding resolve_def using resolve_loop_found [where chain = "n # c" and get = get, OF m] by blast
  ultimately show ?thesis by (simp add: in_range_def)
qed

lemma timing_check_burst:
  assumes "timing_check ns n = Inr ()" and "t_Host n \<noteq> None" and "Resolve ns (t_ID n) = Inr res"
    and "v_Effective (res_ProbeMode res) = ''burst''"
  shows "wrap64 (v_Effective (res_PingsPerInterval res) * v_Effective (res_BurstGapMS res)) <
    wrap64 (v_Effective (res_IntervalS res) * 1000)"
  using assms by (auto simp: timing_check_def validateTiming_def Let_def result_simps split: sum.splits)

lemma resolve_positive:
  assumes "\<forall>m \<in> set (n # c). \<forall>v. get (t_Settings m) = Some v \<longrightarrow> (0 :: int) < v"
    and "get (t_Settings (last (n # c))) \<noteq> None"
  shows "0 < v_Effective (resolve ns (n # c) get zero)"
proof -
  obtain m where m: "find (\<lambda>m. get (t_Settings m) \<noteq> None) (n # c) = Some m"
    using assms(2) find_last [of "\<lambda>m. get (t_Settings m) \<noteq> None" "n # c"] by auto
  then have "m \<in> set (n # c)" by (metis find_Some_iff nth_mem)
  moreover have "get (t_Settings m) = Some (v_Effective (resolve ns (n # c) get zero))"
    unfolding resolve_def using resolve_loop_found [where chain = "n # c" and get = get, OF m] by blast
  ultimately show ?thesis using assms(1) by blast
qed

section \<open>Edits that keep the shape of the tree\<close>

text \<open>An edit that leaves identity and place alone.\<close>

definition keeps_place :: "(target \<Rightarrow> target) \<Rightarrow> target list \<Rightarrow> bool" where
  "keeps_place f ns \<longleftrightarrow> (\<forall>n \<in> set ns. t_ID (f n) = t_ID n \<and> t_ParentID (f n) = t_ParentID n)"

lemma node_at_place: "keeps_place f ns \<Longrightarrow> node_at (map f ns) i = map_option f (node_at ns i)"
  by (induction ns) (auto simp: keeps_place_def node_at_def)

lemma is_chain_place: "keeps_place f ns \<Longrightarrow> is_chain ns c \<Longrightarrow> set c \<subseteq> set ns \<Longrightarrow> is_chain (map f ns) (map f c)"
proof (induction ns c rule: is_chain.induct)
  case (3 ns n m c)
  then show ?case by (auto simp: node_at_place) (auto simp: keeps_place_def)
qed (auto simp: keeps_place_def)

lemma place_prior:
  assumes "wf_tree t" and "t_nodes t = ts" and "keeps_place f ts" and "n \<in> set ts"
  shows "prior ts (t_ID (f n)) = Some n" and "t_ID (f n) = t_ID n"
  using assms node_at_mem [of ts n] prior_eq [of ts] wf_treeD(1) [OF assms(1)] by (auto simp: keeps_place_def)

lemma place_depth:
  assumes "wf_tree t" and "t_nodes t = ts" and "keeps_place f ts" and "t_nodes t' = map f ts" and "n \<in> set ts"
  shows "depth_check ts (Some t) t' (f n) = Inr ()"
proof -
  have "node_at (t_nodes t) (t_ID n) = Some n"
    using node_at_mem [OF wf_treeD(1) [OF assms(1)]] assms(2,5) by simp
  from wf_chain [OF assms(1) this] obtain c where c: "is_chain (t_nodes t) (n # c)" "set (n # c) \<subseteq> set (t_nodes t)" .
  have "is_chain (t_nodes t') (map f (n # c))"
    using is_chain_place [OF assms(3), of "n # c"] c unfolding assms(2,4) by blast
  then have "depth t' (f n) = depth t n" using depth_chain [OF c(1)] depth_chain [of t'] by simp
  then show ?thesis using place_prior [OF assms(1-3,5)] by (simp add: depth_check_def Let_def)
qed

lemma wf_resolves:
  assumes "wf_tree t" and "n \<in> set (t_nodes t)"
  obtains c where "is_chain (t_nodes t) (n # c)" "last (n # c) = t_root t" "set (n # c) \<subseteq> set (t_nodes t)"
    "Resolve (t_nodes t) (t_ID n) = Inr (resolve_all (t_nodes t) (n # c))"
proof -
  have n: "node_at (t_nodes t) (t_ID n) = Some n" by (rule node_at_mem [OF wf_treeD(1) [OF assms(1)] assms(2)])
  from wf_chain [OF assms(1) n] obtain c where c: "is_chain (t_nodes t) (n # c)"
    "ancestryOf (t_nodes t) n = Inr (n # c)" "last (n # c) = t_root t" "set (n # c) \<subseteq> set (t_nodes t)" .
  have "Resolve (t_nodes t) (t_ID n) = Inr (resolve_all (t_nodes t) (n # c))"
    by (simp only: Resolve_def n option.case c(2) rbind.simps)
  then show ?thesis using that [OF c(1,3,4)] by blast
qed

lemma wf_rate_nonneg:
  assumes "wf_tree t" and "n \<in> set (t_nodes t)" and "Resolve (t_nodes t) (t_ID n) = Inr r"
  shows "0 \<le> probeRate r"
proof -
  from wf_resolves [OF assms(1,2)] obtain c where c: "is_chain (t_nodes t) (n # c)" "last (n # c) = t_root t"
    "set (n # c) \<subseteq> set (t_nodes t)" "Resolve (t_nodes t) (t_ID n) = Inr (resolve_all (t_nodes t) (n # c))" .
  have r: "r = resolve_all (t_nodes t) (n # c)" using assms(3) c(4) by simp
  have valid: "Settings_Validate (t_Settings m) = Inr ()" if "m \<in> set (n # c)" for m
    using wf_treeD(3) [OF assms(1)] that c(3) by (auto simp: Target_Validate_def result_simps)
  have full: "complete (t_Settings (last (n # c)))" using wf_treeD(7) [OF assms(1)] c(2) by simp
  have pings: "0 < v" if "m \<in> set (n # c)" "PingsPerInterval (t_Settings m) = Some v" for m v
    using Settings_Validate_bounds [OF valid [OF that(1)]] that(2) by (simp add: in_range_def)
  have interval: "0 < v" if "m \<in> set (n # c)" "IntervalS (t_Settings m) = Some v" for m v
    using Settings_Validate_bounds [OF valid [OF that(1)]] that(2) by blast
  have "0 < v_Effective (resolve (t_nodes t) (n # c) PingsPerInterval 0)"
    using pings full by (intro resolve_positive) (auto simp only: complete_def)
  moreover have "0 < v_Effective (resolve (t_nodes t) (n # c) IntervalS 0)"
    using interval full by (intro resolve_positive) (auto simp only: complete_def)
  ultimately show ?thesis by (simp add: r probeRate_def resolve_all_def)
qed

text \<open>What the edit runs, it ran before and no heavier.\<close>

definition no_heavier :: "(target \<Rightarrow> target) \<Rightarrow> target list \<Rightarrow> target \<Rightarrow> bool" where
  "no_heavier f ts n \<longleftrightarrow> (runs (f n) \<longrightarrow> runs n \<and>
      (\<forall>r r'. Resolve ts (t_ID n) = Inr r \<and> Resolve (map f ts) (t_ID n) = Inr r' \<longrightarrow> notWorse r r'))"

lemma place_resolves:
  assumes "wf_tree t" and "t_nodes t = ts" and "keeps_place f ts" and "wf_tree t'" and "t_nodes t' = map f ts"
    and "n \<in> set ts"
  obtains r r' where "Resolve ts (t_ID n) = Inr r" "Resolve (map f ts) (t_ID n) = Inr r'"
proof -
  have n: "n \<in> set (t_nodes t)" and n': "f n \<in> set (t_nodes t')" using assms(2,5,6) by simp_all
  from wf_resolves [OF assms(1) n] obtain c where c: "Resolve (t_nodes t) (t_ID n) = Inr (resolve_all (t_nodes t) (n # c))" .
  from wf_resolves [OF assms(4) n'] obtain c' where
    c': "Resolve (t_nodes t') (t_ID (f n)) = Inr (resolve_all (t_nodes t') (f n # c'))" .
  show ?thesis
    using that c c' unfolding assms(2,5) place_prior(2) [OF assms(1-3,6)] by blast
qed

lemma place_excused:
  assumes "wf_tree t" and "t_nodes t = ts" and "keeps_place f ts" and "wf_tree t'" and "t_nodes t' = map f ts"
    and "n \<in> set ts" and "runs (f n)" and "no_heavier f ts n"
  shows "\<exists>res. Resolve (map f ts) (t_ID (f n)) = Inr res \<and> excused ts (Some t) (f n) res"
proof -
  note pr = place_prior [OF assms(1-3,6)]
  from place_resolves [OF assms(1-6)] obtain r r' where r: "Resolve ts (t_ID n) = Inr r"
    and r': "Resolve (map f ts) (t_ID n) = Inr r'" .
  have "notWorse r r'" "runs n" using assms(7,8) r r' unfolding no_heavier_def by blast+
  then show ?thesis using pr r r' assms(2,7) by (auto simp: excused_def runs_def)
qed

lemma place_rate:
  assumes "wf_tree t" and "t_nodes t = ts" and "keeps_place f ts" and "wf_tree t'" and "t_nodes t' = map f ts"
    and "\<forall>n \<in> set ts. no_heavier f ts n"
  shows "set ns \<subseteq> set ts \<Longrightarrow> rate' \<le> rate \<Longrightarrow> rate_loop t' rate' (map f ns) \<le> rate_loop t rate ns"
proof (induction ns arbitrary: rate rate')
  case (Cons n ns)
  then have n: "n \<in> set ts" by simp
  have id: "t_ID (f n) = t_ID n" by (rule place_prior [OF assms(1-3) n])
  from place_resolves [OF assms(1-5) n] obtain r r' where r: "Resolve ts (t_ID n) = Inr r"
    and r': "Resolve (map f ts) (t_ID n) = Inr r'" .
  have pos: "0 \<le> probeRate r" using wf_rate_nonneg [OF assms(1), of n r] assms(2) n r by simp
  have h: "runs (f n) \<longrightarrow> runs n \<and> probeRate r' \<le> probeRate r"
    using assms(6) n r r' unfolding no_heavier_def notWorse_def by blast
  have IH: "rate_loop t' x' (map f ns) \<le> rate_loop t x ns" if "x' \<le> x" for x x' using Cons.IH Cons.prems(1) that by simp
  show ?case
  proof (cases "runs (f n)")
    case True
    then show ?thesis using h r r' id Cons.prems(2) assms(2,5) IH by simp
  next
    case False
    then show ?thesis using pos r id Cons.prems(2) assms(2,5) IH by (cases "runs n") simp_all
  qed
qed simp

text \<open>The fields \<open>CheckLimits\<close> bounds.\<close>

definition limited_fields :: "target \<Rightarrow> _" where
  "limited_fields n = (t_Name n, t_Host n, t_Title n, t_Notes n,
     (IntervalS (t_Settings n), PingsPerInterval (t_Settings n), BurstGapMS (t_Settings n), PacketSize (t_Settings n)),
     (TraceIntervalS (t_Settings n), RetentionS (t_Settings n)), DNSQuery (t_Settings n), HTTPPath (t_Settings n), Agents (t_Settings n))"

section \<open>Properties\<close>

text \<open>
  Property C5. A write is refused only for what it makes worse. Take an accepted tree, however far beyond the limits it
  already is, and any edit of it that the tree itself accepts and that keeps every node's id and parent: if each target that
  will run was running before, and with it neither the probe rate, nor the byte rate, nor the share of the interval
  spent waiting has grown, then the tree limits pass. And a node passes the node limits if its name, host, title, notes and the
  nine limited settings are what they were, whatever these are and whatever else was changed.
\<close>

theorem not_worse_accepted:
  assumes "New ts = Inr t" and "keeps_place f ts" and "New (map f ts) = Inr t'"
    and "\<forall>n \<in> set ts. runs (f n) \<longrightarrow> runs n \<and>
      (\<forall>r r'. Resolve ts (t_ID n) = Inr r \<and> Resolve (map f ts) (t_ID n) = Inr r' \<longrightarrow> notWorse r r')"
  shows "CheckTreeLimits ts (map f ts) = Inr () \<and>
    (\<forall>g b a. limited_fields a = limited_fields b \<longrightarrow> CheckLimits g (Some b) a = Inr ())"
proof -
  have wf: "wf_tree t" and ns: "t_nodes t = ts" and wf': "wf_tree t'" and ns': "t_nodes t' = map f ts"
    using assms(1,3) by (auto simp: New_iff)
  have light: "\<forall>n \<in> set ts. no_heavier f ts n" using assms(4) unfolding no_heavier_def by blast
  have "reach (depth_check ts (Some t) t') (map f ts) = Inr ()"
    using place_depth [OF wf ns assms(2) ns'] by (auto simp: reach_Inr_iff)
  moreover have "load_loop ts (Some t) t' 0 (map f ts) = Inr (rate_loop t' 0 (map f ts))"
    using place_excused [OF wf ns assms(2) wf' ns'] light by (intro load_loop_ok) (auto simp: ns')
  moreover have "rate_loop t' 0 (map f ts) \<le> rate_loop t 0 ts"
    using place_rate [OF wf ns assms(2) wf' ns' light subset_refl order_refl] .
  moreover have "CheckLimits g (Some b) a = Inr ()" if "limited_fields a = limited_fields b" for g b a
    using that by (simp add: CheckLimits_def changed_def differs_def name_changed_def limited_fields_def split: option.split)
  ultimately show ?thesis using assms(1,3) by (simp add: CheckTreeLimits_def Let_def)
qed

text \<open>A root that asks for a thousand probes a second, ten times what a target may, lowered to six hundred.\<close>

definition heavy_nodes :: "target list" where
  "heavy_nodes = [group_node 1 None '''' (example_settings\<lparr>IntervalS := Some 1, PingsPerInterval := Some 1000, BurstGapMS := Some 0\<rparr>),
     (group_node 2 (Some 1) ''dns'' no_settings)\<lparr>t_Host := Some ''1.1.1.1'', t_AddressFamily := Some ''v4''\<rparr>]"

definition lighten :: "target \<Rightarrow> target" where
  "lighten n = (if t_ID n = 1 then n\<lparr>t_Settings := (t_Settings n)\<lparr>PingsPerInterval := Some 600\<rparr>\<rparr> else n\<lparr>t_Title := Some ''x''\<rparr>)"

lemma heavy_over: "CheckTreeLimits [] heavy_nodes \<noteq> Inr ()" "CheckTreeLimits heavy_nodes (map lighten heavy_nodes @ [(group_node 3 (Some 1) ''new'' no_settings)\<lparr>t_Host := Some ''1.1.1.2'', t_AddressFamily := Some ''v4''\<rparr>]) \<noteq> Inr ()"
  by code_simp+

definition slow_root :: target where
  "slow_root = group_node 1 None '''' (example_settings\<lparr>IntervalS := Some 100000\<rparr>)"

lemma slow_over: "CheckLimits g None slow_root \<noteq> Inr ()"
  by (auto simp: CheckLimits_def changed_def differs_def name_changed_def bound_def slow_root_def group_node_def example_settings_def
      limit_defs check_def result_simps)

theorem not_worse_accepted_witness:
  "CheckTreeLimits heavy_nodes (map lighten heavy_nodes) = Inr () \<and> CheckTreeLimits [] (map lighten heavy_nodes) \<noteq> Inr () \<and>
   (\<forall>g. CheckLimits g (Some slow_root) (slow_root\<lparr>t_Enabled := False, t_SortOrder := 7\<rparr>) = Inr () \<and>
     CheckLimits g None slow_root \<noteq> Inr ())"
proof -
  have n: "New heavy_nodes = Inr \<lparr>t_nodes = heavy_nodes, t_root = hd heavy_nodes\<rparr>"
    and n': "New (map lighten heavy_nodes) = Inr \<lparr>t_nodes = map lighten heavy_nodes, t_root = lighten (hd heavy_nodes)\<rparr>"
    by code_simp+
  have place: "keeps_place lighten heavy_nodes" by (simp add: keeps_place_def lighten_def heavy_nodes_def)
  have light: "\<forall>n \<in> set heavy_nodes. runs (lighten n) \<longrightarrow> runs n \<and>
      (\<forall>r r'. Resolve heavy_nodes (t_ID n) = Inr r \<and> Resolve (map lighten heavy_nodes) (t_ID n) = Inr r' \<longrightarrow> notWorse r r')"
  proof -
    have "list_all (\<lambda>n. runs (lighten n) \<longrightarrow> runs n \<and> (case (Resolve heavy_nodes (t_ID n), Resolve (map lighten heavy_nodes) (t_ID n)) of
        (Inr r, Inr r') \<Rightarrow> notWorse r r' | _ \<Rightarrow> False)) heavy_nodes" by code_simp
    then show ?thesis by (fastforce simp: list_all_iff)
  qed
  have "CheckTreeLimits [] (map lighten heavy_nodes) \<noteq> Inr ()" by code_simp
  moreover have "limited_fields (slow_root\<lparr>t_Enabled := False, t_SortOrder := 7\<rparr>) = limited_fields slow_root"
    by (simp add: limited_fields_def)
  ultimately show ?thesis using not_worse_accepted [OF n place n' light] slow_over by blast
qed

text \<open>
  Property C6. What an accepted tree write guarantees: the proposed tree is a valid one, and each
  target that will run is either within the limits of one target (timeout no longer than the
  interval, at most 100 probes and 500000 bytes a second) or was already running with no smaller
  a load; each node is at most 16 deep or no deeper than it was; and the total rate is at most 5000
  probes a second or no greater than before. Written into an empty store all of it is within limits.
\<close>

theorem accepted_tree_load:
  assumes "CheckTreeLimits before after = Inr ()"
  shows "\<exists>t. New after = Inr t \<and>
    (\<forall>n \<in> set after. runs n \<longrightarrow> (\<exists>r. Resolve (t_nodes t) (t_ID n) = Inr r \<and>
       (v_Effective (res_TimeoutMS r) \<le> v_Effective (res_IntervalS r) * 1000 \<and>
          probeRate r \<le> 100 \<and> byteRate r \<le> 500000 \<or>
        (\<exists>old rb. old \<in> set before \<and> t_ID old = t_ID n \<and> runs old \<and>
           Resolve before (t_ID n) = Inr rb \<and> notWorse rb r)))) \<and>
    (\<forall>n \<in> set after. depth t n \<le> 16 \<or>
       (\<exists>bt old. New before = Inr bt \<and> old \<in> set before \<and> t_ID old = t_ID n \<and> depth t n \<le> depth bt old)) \<and>
    (rate_loop t 0 after \<le> 5000 \<or>
       (\<exists>bt. New before = Inr bt \<and> rate_loop t 0 after \<le> rate_loop bt 0 before) \<or> rate_loop t 0 after \<le> 0)"
proof -
  from CheckTreeLimits_D [OF assms] obtain t bt where t: "New after = Inr t"
    and bt: "bt = (case New before of Inr b \<Rightarrow> Some b | Inl _ \<Rightarrow> None)"
    and d: "\<forall>n \<in> set after. depth_check before bt t n = Inr ()"
    and l: "\<forall>n \<in> set after. runs n \<longrightarrow> (\<exists>res. Resolve (t_nodes t) (t_ID n) = Inr res \<and>
       (excused before bt n res \<or> resolvedLimits res = Inr ()))"
    and r: "rate_loop t 0 after \<le> MaxTotalProbeRate \<or>
     rate_loop t 0 after \<le> (case bt of None \<Rightarrow> 0 | Some b \<Rightarrow> rate_loop b 0 before)" .
  have btD: "New before = Inr b \<and> t_nodes b = before" if "bt = Some b" for b
    using that bt New_iff by (auto split: sum.splits)
  have priorD: "old \<in> set before \<and> t_ID old = i" if "prior before i = Some old" for old i
    using that node_at_Some [of "rev before" i old] by (simp add: prior_def)
  have run: "\<exists>old rb. old \<in> set before \<and> t_ID old = t_ID n \<and> runs old \<and>
      Resolve before (t_ID n) = Inr rb \<and> notWorse rb res" if "runs n" "excused before bt n res" for n res
    using that btD priorD by (fastforce simp: excused_def runs_def split: option.splits sum.splits)
  have deep: "\<exists>b old. New before = Inr b \<and> old \<in> set before \<and> t_ID old = t_ID n \<and> depth t n \<le> depth b old"
    if "depth_check before bt t n = Inr ()" "\<not> depth t n \<le> 16" for n
    using that btD priorD by (fastforce simp: depth_check_def Let_def MaxDepth_def split: option.splits if_splits)
  have rate: "rate_loop t 0 after \<le> 5000 \<or>
       (\<exists>bt. New before = Inr bt \<and> rate_loop t 0 after \<le> rate_loop bt 0 before) \<or> rate_loop t 0 after \<le> 0"
    using r btD by (auto simp: MaxTotalProbeRate_def split: option.splits)
  show ?thesis
  proof (intro exI [of _ t] conjI ballI impI)
    fix n assume n: "n \<in> set after" and "runs n"
    with l obtain res where res: "Resolve (t_nodes t) (t_ID n) = Inr res"
      "excused before bt n res \<or> resolvedLimits res = Inr ()" by blast
    then show "\<exists>r. Resolve (t_nodes t) (t_ID n) = Inr r \<and>
       (v_Effective (res_TimeoutMS r) \<le> v_Effective (res_IntervalS r) * 1000 \<and>
          probeRate r \<le> 100 \<and> byteRate r \<le> 500000 \<or>
        (\<exists>old rb. old \<in> set before \<and> t_ID old = t_ID n \<and> runs old \<and>
           Resolve before (t_ID n) = Inr rb \<and> notWorse rb r))"
      using run [OF \<open>runs n\<close>, of res]
      by (intro exI [of _ res]) (auto simp: resolvedLimits_iff MaxProbeRate_def MaxProbeBytesPerSec_def)
  next
    fix n assume "n \<in> set after"
    then show "depth t n \<le> 16 \<or> (\<exists>bt old. New before = Inr bt \<and> old \<in> set before \<and>
        t_ID old = t_ID n \<and> depth t n \<le> depth bt old)"
      using d deep by blast
  qed (use t rate in auto)
qed

theorem accepted_tree_load_witness:
  "CheckTreeLimits [] example_nodes = Inr () \<and> (\<exists>t. New example_nodes = Inr t \<and> rate_loop t 0 example_nodes \<le> 5000)"
proof -
  have "CheckTreeLimits [] example_nodes = Inr ()" by code_simp
  with accepted_tree_load [OF this] show ?thesis by auto
qed

text \<open>
  Further property. A host that is accepted can be joined into a URL: if the library reads as addresses
  only texts without such characters before a zone, and its letters and digits are none of them,
  then an accepted host is not empty, at most 253 bytes long, and holds no slash, at-sign, hash,
  question mark, backslash, space, line break or NUL in front of a zone.
\<close>

theorem checkHost_no_delimiters:
  assumes "checkHost g h = Inr ()"
    and "\<forall>a. gl_addr g a \<longrightarrow> list_all (\<lambda>c. c \<notin> set url_delims) (before_zone a)"
    and "list_all (\<lambda>c. \<not> gl_letter g (of_char c) \<and> \<not> gl_digit g (of_char c)) url_delims"
  shows "h \<noteq> [] \<and> length h \<le> 253 \<and> list_all (\<lambda>c. c \<notin> set url_delims) (before_zone h)"
proof -
  have h: "h \<noteq> []" "length h \<le> 253" "gl_addr g h \<or> checkDNSName g ''host'' h MaxHostLen = Inr ()"
    using assms(1) by (auto simp: checkHost_iff MaxHostLen_def)
  have "c \<notin> set url_delims" if dns: "checkDNSName g ''host'' h MaxHostLen = Inr ()" and c: "c \<in> set h" for c
  proof
    assume d: "c \<in> set url_delims"
    then have "of_char c < (0x80 :: nat)" by (auto simp: url_delims_def)
    from checkDNSName_chars [OF dns c this] d assms(3) show False
      by (auto simp: url_delims_def)
  qed
  then have "list_all (\<lambda>c. c \<notin> set url_delims) (before_zone h)"
    if "checkDNSName g ''host'' h MaxHostLen = Inr ()"
    using that by (auto simp: list_all_iff before_zone_def dest: set_takeWhileD)
  with h assms(2) show ?thesis by blast
qed

definition example_lib :: golib where
  "example_lib = \<lparr>gl_letter = (\<lambda>r. 97 \<le> r \<and> r \<le> 122), gl_digit = (\<lambda>r. 48 \<le> r \<and> r \<le> 57),
     gl_addr = (\<lambda>s. s = ''::1'')\<rparr>"

theorem checkHost_no_delimiters_witness:
  "checkHost example_lib ''a-b.example'' = Inr () \<and> CHR 0x2F \<notin> set (before_zone ''a-b.example'')"
proof -
  have ok: "checkHost example_lib ''a-b.example'' = Inr ()" by code_simp
  have lib: "\<forall>a. gl_addr example_lib a \<longrightarrow> list_all (\<lambda>c. c \<notin> set url_delims) (before_zone a)"
    by (auto simp: example_lib_def before_zone_def url_delims_def)
  have letters: "list_all (\<lambda>c. \<not> gl_letter example_lib (of_char c) \<and> \<not> gl_digit example_lib (of_char c)) url_delims"
    by code_simp
  from checkHost_no_delimiters [OF ok lib letters] ok show ?thesis
    by (auto simp: list_all_iff url_delims_def)
qed

text \<open>
  Further property. Bursts fit their interval in the integers, not only at 64 bits: on an accepted tree
  whose gaps and intervals are within the write limits, a bursting target's probes times their gap
  take less than its interval; the 64-bit products of the check cannot have wrapped.
\<close>

theorem burst_fits:
  assumes "New ts = Inr t" and "n \<in> set ts" and "t_Host n \<noteq> None"
    and "\<forall>m \<in> set ts. in_range 0 MaxBurstGapMS (BurstGapMS (t_Settings m)) \<and>
      in_range 1 MaxIntervalS (IntervalS (t_Settings m))"
    and "Resolve ts (t_ID n) = Inr res" and "v_Effective (res_ProbeMode res) = ''burst''"
  shows "v_Effective (res_PingsPerInterval res) * v_Effective (res_BurstGapMS res) <
    v_Effective (res_IntervalS res) * 1000"
proof -
  have wf: "wf_tree t" and ns: "t_nodes t = ts" using assms(1) by (auto simp: New_iff)
  have n: "node_at ts (t_ID n) = Some n" using node_at_mem wf_treeD(1) [OF wf] assms(2) ns by simp
  from wf_chain [OF wf, of "t_ID n" n] n ns obtain c where c: "is_chain ts (n # c)"
    "ancestryOf ts n = Inr (n # c)" "last (n # c) = t_root t" "set (n # c) \<subseteq> set ts" by auto
  have res: "res = resolve_all ts (n # c)" using assms(5) n c(2) by (simp add: Resolve_def)
  have root: "complete (t_Settings (last (n # c)))" using wf_treeD(7) [OF wf] c(3) by simp
  have valid: "Settings_Validate (t_Settings m) = Inr ()" if "m \<in> set ts" for m
    using wf_treeD(3) [OF wf, of m] that ns by (simp add: Target_Validate_def result_simps)
  have p: "1 \<le> v_Effective (res_PingsPerInterval res) \<and> v_Effective (res_PingsPerInterval res) \<le> 65535"
    unfolding res resolve_all_def resolved.simps using c(4) valid Settings_Validate_bounds root
    by (intro resolve_within [OF c(1)]) (auto simp: complete_def)
  have g: "0 \<le> v_Effective (res_BurstGapMS res) \<and> v_Effective (res_BurstGapMS res) \<le> MaxBurstGapMS"
    unfolding res resolve_all_def resolved.simps using c(4) assms(4) root
    by (intro resolve_within [OF c(1)]) (auto simp: complete_def)
  have i: "1 \<le> v_Effective (res_IntervalS res) \<and> v_Effective (res_IntervalS res) \<le> MaxIntervalS"
    unfolding res resolve_all_def resolved.simps using c(4) assms(4) root
    by (intro resolve_within [OF c(1)]) (auto simp: complete_def)
  have "v_Effective (res_PingsPerInterval res) * v_Effective (res_BurstGapMS res) \<le> 65535 * 600000"
    using p g by (intro mult_mono) (auto simp: MaxBurstGapMS_def)
  moreover have "0 \<le> v_Effective (res_PingsPerInterval res) * v_Effective (res_BurstGapMS res)"
    using p g by simp
  ultimately show ?thesis
    using timing_check_burst [of ts n res] wf_treeD(4) [OF wf, of n] assms(2,3,5,6) ns i
    by (simp add: wrap64_id MaxIntervalS_def)
qed

theorem burst_fits_witness: "20 * 50 < (30 :: int) * 1000 \<and>
  (\<exists>res. Resolve example_nodes 3 = Inr res \<and>
    v_Effective (res_PingsPerInterval res) * v_Effective (res_BurstGapMS res) < v_Effective (res_IntervalS res) * 1000)"
proof -
  let ?n = "(group_node 3 (Some 2) ''dns'' (no_settings\<lparr>IntervalS := Some 30\<rparr>))
       \<lparr>t_Host := Some ''1.1.1.1'', t_AddressFamily := Some ''v4''\<rparr>"
  have range: "\<forall>m \<in> set example_nodes. in_range 0 MaxBurstGapMS (BurstGapMS (t_Settings m)) \<and>
      in_range 1 MaxIntervalS (IntervalS (t_Settings m))"
    by (simp add: example_nodes_def group_node_def example_settings_def no_settings_def in_range_def limit_defs)
  have n: "?n \<in> set example_nodes" "t_Host ?n \<noteq> None" by (simp_all add: example_nodes_def group_node_def)
  obtain res where r: "Resolve example_nodes 3 = Inr res" "v_Effective (res_ProbeMode res) = ''burst''"
  proof -
    have "(case Resolve example_nodes 3 of Inr res \<Rightarrow> v_Effective (res_ProbeMode res) = ''burst'' | Inl _ \<Rightarrow> False)"
      by code_simp
    then show ?thesis using that by (auto split: sum.splits)
  qed
  from burst_fits [OF example_New n range _ r(2)] r(1) show ?thesis by (auto simp: group_node_def)
qed

end
