(* ===== verification/TreeWrite.thy ===== *)
theory TreeWrite
  imports Scope WriteLimits Alert
begin

text \<open>
  Writes to the tree: the handlers of \<open>internal/api/targets.go\<close>, the transaction of
  \<open>internal/store/targets_tx.go\<close> they run in, the upsert of \<open>internal/store/sqlite.go\<close> and the id
  counter of \<open>internal/store/ids.go\<close>. A request body is parsed JSON; the tables are the rows the
  statements touch, with the foreign keys of the schema.
\<close>

section \<open>The payload\<close>

text \<open>A parsed value; \<open>JNum\<close> is a number that is not an integer. An object lists its keys once each, in the
  order Go's map iteration visits them.\<close>

datatype json = JNull | JBool bool | JInt int | JNum | JString string | JArray "json list" | JObject "(string \<times> json) list"

type_synonym body = "(string \<times> json) list"

text \<open>\<open>json.Unmarshal\<close> into a Go type: \<open>null\<close> leaves the zero value, another type is an error.\<close>

fun dec_int :: "json \<Rightarrow> int option" where
  "dec_int JNull = Some 0"
| "dec_int (JInt i) = (if - (2 ^ 63) \<le> i \<and> i < 2 ^ 63 then Some i else None)"
| "dec_int _ = None"

fun dec_bool :: "json \<Rightarrow> bool option" where
  "dec_bool JNull = Some False"
| "dec_bool (JBool b) = Some b"
| "dec_bool _ = None"

fun dec_string :: "json \<Rightarrow> string option" where
  "dec_string JNull = Some ''''"
| "dec_string (JString s) = Some s"
| "dec_string _ = None"

fun dec_items :: "json list \<Rightarrow> string list option" where
  "dec_items [] = Some []"
| "dec_items (x # xs) = (case dec_string x of None \<Rightarrow> None
     | Some s \<Rightarrow> (case dec_items xs of None \<Rightarrow> None | Some ss \<Rightarrow> Some (s # ss)))"

fun dec_strings :: "json \<Rightarrow> string list option" where
  "dec_strings JNull = Some []"
| "dec_strings (JArray xs) = dec_items xs"
| "dec_strings _ = None"

fun dec_object :: "json \<Rightarrow> body option" where
  "dec_object JNull = Some []"
| "dec_object (JObject kvs) = Some kvs"
| "dec_object _ = None"

datatype patch_error = NullParent | NullName | BadField string | UnknownSetting string

text \<open>\<open>patch\<close>: \<open>null\<close> clears the field, anything else is decoded into it.\<close>

definition patch :: "string \<Rightarrow> (json \<Rightarrow> 'a option) \<Rightarrow> json \<Rightarrow> patch_error + 'a option" where
  "patch key dec raw =
     (if raw = JNull then Inr None
      else case dec raw of None \<Rightarrow> Inl (BadField key) | Some v \<Rightarrow> Inr (Some v))"

text \<open>A field that is absent from the body is left alone.\<close>

definition field :: "body \<Rightarrow> string \<Rightarrow> (json \<Rightarrow> 't \<Rightarrow> patch_error + 't) \<Rightarrow> 't \<Rightarrow> patch_error + 't" where
  "field b key f n = (case map_of b key of None \<Rightarrow> Inr n | Some raw \<Rightarrow> f raw n)"

definition patch_parent :: "json \<Rightarrow> target \<Rightarrow> patch_error + target" where
  "patch_parent raw n =
     (if raw = JNull then Inl NullParent
      else case dec_int raw of None \<Rightarrow> Inl (BadField ''parent_id'') | Some v \<Rightarrow> Inr (n\<lparr>t_ParentID := Some v\<rparr>))"

definition patch_name :: "json \<Rightarrow> target \<Rightarrow> patch_error + target" where
  "patch_name raw n =
     (if raw = JNull then Inl NullName
      else case dec_string raw of None \<Rightarrow> Inl (BadField ''name'') | Some v \<Rightarrow> Inr (n\<lparr>t_Name := v\<rparr>))"

definition patch_flag :: "string \<Rightarrow> (bool \<Rightarrow> target \<Rightarrow> target) \<Rightarrow> json \<Rightarrow> target \<Rightarrow> patch_error + target" where
  "patch_flag key put raw n = (case dec_bool raw of None \<Rightarrow> Inl (BadField key) | Some v \<Rightarrow> Inr (put v n))"

definition patch_order :: "json \<Rightarrow> target \<Rightarrow> patch_error + target" where
  "patch_order raw n = (case dec_int raw of None \<Rightarrow> Inl (BadField ''sort_order'') | Some v \<Rightarrow> Inr (n\<lparr>t_SortOrder := v\<rparr>))"

text \<open>The three tables of settings, as the update each entry makes.\<close>

definition int_settings :: "(string \<times> (int option \<Rightarrow> settings \<Rightarrow> settings)) list" where
  "int_settings =
     [(''interval_s'', \<lambda>v s. s\<lparr>IntervalS := v\<rparr>), (''pings_per_interval'', \<lambda>v s. s\<lparr>PingsPerInterval := v\<rparr>),
      (''burst_gap_ms'', \<lambda>v s. s\<lparr>BurstGapMS := v\<rparr>), (''timeout_ms'', \<lambda>v s. s\<lparr>TimeoutMS := v\<rparr>),
      (''packet_size'', \<lambda>v s. s\<lparr>PacketSize := v\<rparr>), (''dscp'', \<lambda>v s. s\<lparr>DSCP := v\<rparr>),
      (''trace_interval_s'', \<lambda>v s. s\<lparr>TraceIntervalS := v\<rparr>), (''retention_s'', \<lambda>v s. s\<lparr>RetentionS := v\<rparr>),
      (''probe_port'', \<lambda>v s. s\<lparr>ProbePort := v\<rparr>)]"

definition bool_settings :: "(string \<times> (bool option \<Rightarrow> settings \<Rightarrow> settings)) list" where
  "bool_settings = [(''tls_skip_verify'', \<lambda>v s. s\<lparr>TLSSkipVerify := v\<rparr>)]"

definition str_settings :: "(string \<times> (string option \<Rightarrow> settings \<Rightarrow> settings)) list" where
  "str_settings =
     [(''probe_mode'', \<lambda>v s. s\<lparr>ProbeMode := v\<rparr>), (''agents'', \<lambda>v s. s\<lparr>Agents := v\<rparr>),
      (''probe_type'', \<lambda>v s. s\<lparr>ProbeType := v\<rparr>), (''dns_query'', \<lambda>v s. s\<lparr>DNSQuery := v\<rparr>),
      (''dns_rr_type'', \<lambda>v s. s\<lparr>DNSRRType := v\<rparr>), (''http_path'', \<lambda>v s. s\<lparr>HTTPPath := v\<rparr>),
      (''graph_series'', \<lambda>v s. s\<lparr>GraphSeries := v\<rparr>)]"

text \<open>The lists of names that may come as an array: series and agents, joined with spaces.\<close>

definition patch_setting :: "string \<Rightarrow> json \<Rightarrow> settings \<Rightarrow> patch_error + settings" where
  "patch_setting key raw s =
     (if (key = ''graph_series'' \<or> key = ''agents'') \<and> raw \<noteq> JNull \<and> dec_strings raw \<noteq> None
      then (let joined = Some (join '' '' (the (dec_strings raw)))
            in Inr (if key = ''graph_series'' then s\<lparr>GraphSeries := joined\<rparr> else s\<lparr>Agents := joined\<rparr>))
      else case map_of int_settings key of
        Some put \<Rightarrow> rbind (patch (''settings.'' @ key) dec_int raw) (\<lambda>v. Inr (put v s))
      | None \<Rightarrow>
        (case map_of bool_settings key of
           Some put \<Rightarrow> rbind (patch (''settings.'' @ key) dec_bool raw) (\<lambda>v. Inr (put v s))
         | None \<Rightarrow>
           (case map_of str_settings key of
              Some put \<Rightarrow> rbind (patch (''settings.'' @ key) dec_string raw) (\<lambda>v. Inr (put v s))
            | None \<Rightarrow> Inl (UnknownSetting key))))"

fun patch_all :: "body \<Rightarrow> settings \<Rightarrow> patch_error + settings" where
  "patch_all [] s = Inr s"
| "patch_all ((key, raw) # kvs) s = rbind (patch_setting key raw s) (patch_all kvs)"

definition patch_settings :: "json \<Rightarrow> target \<Rightarrow> patch_error + target" where
  "patch_settings raw n =
     (case dec_object raw of
        None \<Rightarrow> Inl (BadField ''settings'')
      | Some kvs \<Rightarrow> rbind (patch_all kvs (t_Settings n)) (\<lambda>s. Inr (n\<lparr>t_Settings := s\<rparr>)))"

text \<open>\<open>hidden_first\<close> is the order in which the map of the two flags is visited.\<close>

definition patch_flags :: "bool \<Rightarrow> body \<Rightarrow> target \<Rightarrow> patch_error + target" where
  "patch_flags hidden_first b n =
     (let h = field b ''hidden'' (patch_flag ''hidden'' (\<lambda>v n. n\<lparr>t_Hidden := v\<rparr>));
          e = field b ''enabled'' (patch_flag ''enabled'' (\<lambda>v n. n\<lparr>t_Enabled := v\<rparr>))
      in if hidden_first then rbind (h n) e else rbind (e n) h)"

definition patch_text :: "string \<Rightarrow> (string option \<Rightarrow> target \<Rightarrow> target) \<Rightarrow> json \<Rightarrow> target \<Rightarrow> patch_error + target" where
  "patch_text key put raw n = rbind (patch key dec_string raw) (\<lambda>v. Inr (put v n))"

definition applyPatch :: "bool \<Rightarrow> body \<Rightarrow> target \<Rightarrow> patch_error + target" where
  "applyPatch hidden_first b n =
     rbind (field b ''parent_id'' patch_parent n) (\<lambda>n.
     rbind (field b ''name'' patch_name n) (\<lambda>n.
     rbind (field b ''host'' (patch_text ''host'' (\<lambda>v n. n\<lparr>t_Host := v\<rparr>)) n) (\<lambda>n.
     rbind (field b ''address_family'' (patch_text ''address_family'' (\<lambda>v n. n\<lparr>t_AddressFamily := v\<rparr>)) n) (\<lambda>n.
     rbind (field b ''title'' (patch_text ''title'' (\<lambda>v n. n\<lparr>t_Title := v\<rparr>)) n) (\<lambda>n.
     rbind (field b ''notes'' (patch_text ''notes'' (\<lambda>v n. n\<lparr>t_Notes := v\<rparr>)) n) (\<lambda>n.
     rbind (patch_flags hidden_first b n) (\<lambda>n.
     rbind (field b ''sort_order'' patch_order n) (\<lambda>n.
     rbind (field b ''settings'' patch_settings n) (\<lambda>n.
       Inr (if t_Name n \<noteq> '''' then n\<lparr>t_Name := trim_space (t_Name n)\<rparr> else n))))))))))"

definition touchesSetting :: "body \<Rightarrow> string \<Rightarrow> bool" where
  "touchesSetting b name =
     (case map_of b ''settings'' of
        None \<Rightarrow> False
      | Some raw \<Rightarrow> (case dec_object raw of None \<Rightarrow> False | Some kvs \<Rightarrow> map_of kvs name \<noteq> None))"

definition touchesAgents :: "body \<Rightarrow> bool" where
  "touchesAgents b = touchesSetting b ''agents''"

definition adminOnlySettings :: "string list" where
  "adminOnlySettings = [''dscp'', ''retention_s'']"

definition refuseAdminOnly :: "scope \<Rightarrow> body \<Rightarrow> string option" where
  "refuseAdminOnly sc b = (if IsGlobalAdmin sc then None else find (touchesSetting b) adminOnlySettings)"

section \<open>The tables\<close>

record treedb =
  td_targets :: "target list" \<comment> \<open>in the order of their ids, as they are listed\<close>
  td_seq :: int \<comment> \<open>the high-water mark of \<open>target_ids\<close>\<close>
  td_rules :: "rule list"
  td_states :: "alert_state list"
  td_baselines :: "int list" \<comment> \<open>the rule ids that have one\<close>
  td_grants :: "grant list"
  td_silences :: "silence list"

datatype db_error = NoUnusedID | ForeignKey | Constraint

text \<open>
  \<open>alloc\<close>: sixteen tries. Each takes the next value of the counter and succeeds if no row holds it.
\<close>

fun alloc_loop :: "nat \<Rightarrow> (int \<Rightarrow> bool) \<Rightarrow> int \<Rightarrow> db_error + int" where
  "alloc_loop 0 taken seq = Inl NoUnusedID"
| "alloc_loop (Suc k) taken seq = (if taken (seq + 1) then alloc_loop k taken (seq + 1) else Inr (seq + 1))"

definition allocTargetID :: "treedb \<Rightarrow> db_error + int" where
  "allocTargetID db = alloc_loop 16 (\<lambda>i. i \<in> t_ID ` set (td_targets db)) (td_seq db)"

text \<open>
  The insert with its \<open>ON CONFLICT(id) DO UPDATE\<close>, under the constraints of the table: the two
  \<open>CHECK\<close>s, \<open>UNIQUE (parent_id, name)\<close> (a null parent equals nothing) and the foreign key on the parent.
\<close>

definition constraints_ok :: "target \<Rightarrow> bool" where
  "constraints_ok t \<longleftrightarrow> (t_AddressFamily t = None \<or> t_AddressFamily t = Some ''v4'' \<or> t_AddressFamily t = Some ''v6'') \<and>
     (ProbeMode (t_Settings t) = None \<or> ProbeMode (t_Settings t) = Some ''burst'' \<or> ProbeMode (t_Settings t) = Some ''spread'')"

definition put_target :: "target \<Rightarrow> treedb \<Rightarrow> db_error + treedb" where
  "put_target t db =
     (let ts = (if t_ID t \<in> t_ID ` set (td_targets db)
                then map (\<lambda>x. if t_ID x = t_ID t then t else x) (td_targets db)
                else insort_key t_ID t (td_targets db))
      in if \<not> constraints_ok t \<or> \<not> distinct (sibling_keys ts) then Inl Constraint
         else if t_ParentID t \<noteq> None \<and> the (t_ParentID t) \<notin> t_ID ` set ts then Inl ForeignKey
         else Inr (db\<lparr>td_targets := ts\<rparr>))"

text \<open>\<open>upsertTarget\<close>; it stores the id it allocated in the target it was given, so that is returned.\<close>

definition upsertTarget :: "target \<Rightarrow> treedb \<Rightarrow> db_error + (treedb \<times> target)" where
  "upsertTarget t db =
     (if t_ID t = 0
      then rbind (allocTargetID db) (\<lambda>i.
        rbind (put_target (t\<lparr>t_ID := i\<rparr>) (db\<lparr>td_seq := i\<rparr>)) (\<lambda>db. Inr (db, t\<lparr>t_ID := i\<rparr>)))
      else rbind (put_target t db) (\<lambda>db. Inr (db, t)))"

text \<open>
  The four statements of \<open>deleteTarget\<close>. Deleting rules takes their baselines with it, deleting the
  target its grants and silences; a child that still names the target stops the last one.
\<close>

definition deleteTarget :: "int \<Rightarrow> treedb \<Rightarrow> db_error + treedb" where
  "deleteTarget i db =
     (let mine = r_ID ` set (filter (\<lambda>r. r_TargetID r = i) (td_rules db));
          db = db\<lparr>td_states := filter (\<lambda>s. s_RuleID s \<notin> mine \<and> s_TargetID s \<noteq> i) (td_states db),
                  td_rules := filter (\<lambda>r. r_TargetID r \<noteq> i) (td_rules db),
                  td_baselines := filter (\<lambda>r. r \<notin> mine) (td_baselines db)\<rparr>
      in if \<exists>t \<in> set (td_targets db). t_ParentID t = Some i \<and> t_ID t \<noteq> i then Inl ForeignKey
         else Inr (db\<lparr>td_targets := filter (\<lambda>t. t_ID t \<noteq> i) (td_targets db),
                      td_grants := filter (\<lambda>g. gr_TargetID g \<noteq> i) (td_grants db),
                      td_silences := filter (\<lambda>s. sil_TargetID s \<noteq> Some i) (td_silences db)\<rparr>))"

record change =
  ch_Upsert :: "target list"
  ch_Delete :: "int list"

fun upsert_all :: "target list \<Rightarrow> treedb \<Rightarrow> db_error + (treedb \<times> target list)" where
  "upsert_all [] db = Inr (db, [])"
| "upsert_all (t # ts) db =
     rbind (upsertTarget t db) (\<lambda>(db, t). rbind (upsert_all ts db) (\<lambda>(db, ts). Inr (db, t # ts)))"

fun delete_all :: "int list \<Rightarrow> treedb \<Rightarrow> db_error + treedb" where
  "delete_all [] db = Inr db"
| "delete_all (i # is) db = rbind (deleteTarget i db) (delete_all is)"

text \<open>
  \<open>ChangeTargets\<close>: one transaction, so an error of \<open>fn\<close> (\<open>Inl (Inl e)\<close>) or of a write leaves the tables
  as they were. The targets written come back, since \<open>fn\<close>'s caller reads the id from them.
\<close>

definition ChangeTargets :: "(target list \<Rightarrow> 'e + change) \<Rightarrow> treedb \<Rightarrow> treedb \<times> (('e + db_error) + (target list \<times> int list))" where
  "ChangeTargets fn db =
     (case fn (td_targets db) of
        Inl e \<Rightarrow> (db, Inl (Inl e))
      | Inr ch \<Rightarrow>
          (case rbind (upsert_all (ch_Upsert ch) db) (\<lambda>(db', ts). rbind (delete_all (ch_Delete ch) db') (\<lambda>db''. Inr (db'', ts))) of
             Inl e \<Rightarrow> (db, Inl (Inr e))
           | Inr (db', ts) \<Rightarrow> (db', Inr (ts, ch_Delete ch))))"

section \<open>The handlers\<close>

datatype agents_error = NotAvailable "string list" | NoSuchAgent "string list" | AgentsUnread

datatype refusal =
    Patch patch_error
  | NeedsParent
  | Denied response
  | AdminOnly string
  | Agents_bad agents_error
  | Limit limit_error
  | Tree tree_error
  | BadDest
  | Absent
  | RootReparented
  | RootDeleted
  | HasDescendants nat
  | Internal tree_error

text \<open>\<open>enrolled\<close> is what \<open>ListAgents\<close> answers: the names of the agents other than the local one.\<close>

definition checkAgentNames :: "string list option \<Rightarrow> agentSet \<Rightarrow> string option \<Rightarrow> agents_error + unit" where
  "checkAgentNames enrolled names agents =
     (case agents of
        None \<Rightarrow> Inr ()
      | Some a \<Rightarrow>
          if \<not> as_all names then
            (let unavailable = filter (\<lambda>w. \<not> as_has names w) (Prelude.fields a)
             in if unavailable \<noteq> [] then Inl (NotAvailable unavailable) else Inr ())
          else (case enrolled of
              None \<Rightarrow> Inl AgentsUnread
            | Some known \<Rightarrow>
                let unknown = filter (\<lambda>w. w \<noteq> ''local'' \<and> w \<notin> set known) (Prelude.fields a)
                in if unknown \<noteq> [] then Inl (NoSuchAgent unknown) else Inr ()))"

definition synthID :: "target list \<Rightarrow> int" where
  "synthID targets = foldl (\<lambda>m t. max m (t_ID t)) 0 targets + 1"

text \<open>An error of a step as a refusal of the request.\<close>

definition refuse :: "('e \<Rightarrow> refusal) \<Rightarrow> 'e + 'a \<Rightarrow> refusal + 'a" where
  "refuse f r = (case r of Inl e \<Rightarrow> Inl (f e) | Inr x \<Rightarrow> Inr x)"

definition new_target :: target where
  "new_target = \<lparr>t_ID = 0, t_ParentID = None, t_Name = '''', t_Host = None, t_AddressFamily = None, t_Title = None,
     t_Notes = None, t_Hidden = False, t_Enabled = True, t_SortOrder = 0, t_Settings = no_settings\<rparr>"

text \<open>\<open>planned[idx] = updated\<close>, where \<open>idx\<close> is the first target with the id.\<close>

fun replace_first :: "int \<Rightarrow> target \<Rightarrow> target list \<Rightarrow> target list" where
  "replace_first i u [] = []"
| "replace_first i u (t # ts) = (if t_ID t = i then u # ts else t # replace_first i u ts)"

text \<open>What every write ends with: the limits of the node, the tree it leads to, the limits of that.\<close>

definition plan_checks :: "golib \<Rightarrow> target option \<Rightarrow> target \<Rightarrow> target list \<Rightarrow> target list \<Rightarrow> refusal + unit" where
  "plan_checks g before after targets planned =
     rbind (refuse Limit (CheckLimits g before after)) (\<lambda>_.
     rbind (refuse Tree (New planned)) (\<lambda>_.
       refuse Limit (CheckTreeLimits targets planned)))"

definition create_fn :: "golib \<Rightarrow> string list option \<Rightarrow> body \<Rightarrow> target \<Rightarrow> int \<Rightarrow> scope \<Rightarrow> target list \<Rightarrow> refusal + change" where
  "create_fn g enrolled b n parent sc targets =
     rbind (check (\<not> CanWrite sc parent) (Denied (deny sc parent))) (\<lambda>_.
     rbind (case refuseAdminOnly sc b of Some name \<Rightarrow> Inl (AdminOnly name) | None \<Rightarrow> Inr ()) (\<lambda>_.
     rbind (refuse Internal (agentsInScope sc targets)) (\<lambda>mayName.
     rbind (refuse Agents_bad (checkAgentNames enrolled mayName (Agents (t_Settings n)))) (\<lambda>_.
     rbind (plan_checks g None n targets (targets @ [n\<lparr>t_ID := synthID targets\<rparr>])) (\<lambda>_.
       Inr \<lparr>ch_Upsert = [n], ch_Delete = []\<rparr>)))))"

definition update_fn :: "golib \<Rightarrow> string list option \<Rightarrow> bool \<Rightarrow> body \<Rightarrow> int \<Rightarrow> scope \<Rightarrow> target list \<Rightarrow> refusal + change" where
  "update_fn g enrolled hidden_first b i sc targets =
     rbind (check (\<not> CanWrite sc i) (Denied (deny sc i))) (\<lambda>_.
     rbind (case refuseAdminOnly sc b of Some name \<Rightarrow> Inl (AdminOnly name) | None \<Rightarrow> Inr ()) (\<lambda>_.
     rbind (case map_of b ''parent_id'' of
              None \<Rightarrow> Inr ()
            | Some raw \<Rightarrow>
                if raw = JNull then Inr ()
                else (case dec_int raw of
                    None \<Rightarrow> Inl BadDest
                  | Some dest \<Rightarrow> check (\<not> CanWrite sc dest) (Denied (deny sc dest)))) (\<lambda>_.
       case find (\<lambda>t. t_ID t = i) targets of
         None \<Rightarrow> Inl Absent
       | Some cur \<Rightarrow>
           rbind (check (t_ParentID cur = None \<and> map_of b ''parent_id'' \<noteq> None) RootReparented) (\<lambda>_.
           rbind (refuse Patch (applyPatch hidden_first b cur)) (\<lambda>updated.
           rbind (if \<not> touchesAgents b then Inr ()
                  else rbind (refuse Internal (agentsInScope sc targets)) (\<lambda>mayName.
                    refuse Agents_bad (checkAgentNames enrolled mayName (Agents (t_Settings updated))))) (\<lambda>_.
           rbind (plan_checks g (Some cur) updated targets (replace_first i updated targets)) (\<lambda>_.
             Inr \<lparr>ch_Upsert = [updated], ch_Delete = []\<rparr>)))))))"

text \<open>
  The walk over the subtree, children before the node. It would not end on a cycle; the fuel is the
  number of targets and one more, which is enough on any tree (\<open>walk_total\<close>), so \<open>None\<close> is never
  the answer where \<open>New\<close> has accepted the targets.
\<close>

definition children_of :: "target list \<Rightarrow> int \<Rightarrow> int list" where
  "children_of targets p = map t_ID (filter (\<lambda>t. t_ParentID t = Some p) targets)"

fun walk :: "nat \<Rightarrow> target list \<Rightarrow> int \<Rightarrow> int list option" where
  "walk 0 targets cur = None"
| "walk (Suc k) targets cur =
     (case those (map (walk k targets) (children_of targets cur)) of
        None \<Rightarrow> None
      | Some below \<Rightarrow> Some (concat below @ [cur]))"

definition subtree_order :: "target list \<Rightarrow> int \<Rightarrow> int list" where
  "subtree_order targets i = (case walk (Suc (length targets)) targets i of Some is \<Rightarrow> is | None \<Rightarrow> [])"

definition delete_fn :: "bool \<Rightarrow> int \<Rightarrow> scope \<Rightarrow> target list \<Rightarrow> refusal + change" where
  "delete_fn recursive i sc targets =
     rbind (check (\<not> CanWrite sc i) (Denied (deny sc i))) (\<lambda>_.
       case find (\<lambda>t. t_ID t = i) targets of
         None \<Rightarrow> Inl Absent
       | Some n \<Rightarrow>
           rbind (check (t_ParentID n = None) RootDeleted) (\<lambda>_.
             let order = subtree_order targets i
             in rbind (case find (\<lambda>v. \<not> CanWrite sc v) order of Some v \<Rightarrow> Inl (Denied (deny sc v)) | None \<Rightarrow> Inr ()) (\<lambda>_.
                rbind (check (length order > 1 \<and> \<not> recursive) (HasDescendants (length order - 1))) (\<lambda>_.
                  Inr \<lparr>ch_Upsert = [], ch_Delete = order\<rparr>))))"

text \<open>
  \<open>changeTargets\<close>: the scope is worked out inside the transaction, against the tree it read. The
  grants are read from the same database.
\<close>

record caller =
  ca_configured :: bool
  ca_default :: role
  ca_session :: "session option"

definition changeTargets :: "caller \<Rightarrow> (scope \<Rightarrow> target list \<Rightarrow> refusal + change) \<Rightarrow> treedb \<Rightarrow>
    treedb \<times> ((refusal + db_error) + (target list \<times> int list))" where
  "changeTargets ca fn db =
     ChangeTargets (\<lambda>current.
       rbind (refuse Internal (New current)) (\<lambda>tr.
       rbind (refuse Internal (scopeFor (ca_configured ca) (ca_default ca) (ca_session ca) (Inr (td_grants db)) tr)) (\<lambda>sc.
         fn sc current))) db"

datatype request = Create body | Update int body | Delete int bool

definition handleCreateTarget :: "golib \<Rightarrow> string list option \<Rightarrow> bool \<Rightarrow> caller \<Rightarrow> body \<Rightarrow> treedb \<Rightarrow>
    treedb \<times> ((refusal + db_error) + (target list \<times> int list))" where
  "handleCreateTarget g enrolled hidden_first ca b db =
     (case applyPatch hidden_first b new_target of
        Inl e \<Rightarrow> (db, Inl (Inl (Patch e)))
      | Inr n \<Rightarrow>
          (case t_ParentID n of
             None \<Rightarrow> (db, Inl (Inl NeedsParent))
           | Some parent \<Rightarrow> changeTargets ca (create_fn g enrolled b n parent) db))"

definition handleUpdateTarget :: "golib \<Rightarrow> string list option \<Rightarrow> bool \<Rightarrow> caller \<Rightarrow> int \<Rightarrow> body \<Rightarrow> treedb \<Rightarrow>
    treedb \<times> ((refusal + db_error) + (target list \<times> int list))" where
  "handleUpdateTarget g enrolled hidden_first ca i b db = changeTargets ca (update_fn g enrolled hidden_first b i) db"

definition handleDeleteTarget :: "caller \<Rightarrow> int \<Rightarrow> bool \<Rightarrow> treedb \<Rightarrow>
    treedb \<times> ((refusal + db_error) + (target list \<times> int list))" where
  "handleDeleteTarget ca i recursive db = changeTargets ca (delete_fn recursive i) db"

fun handle :: "golib \<Rightarrow> string list option \<Rightarrow> bool \<Rightarrow> caller \<Rightarrow> request \<Rightarrow> treedb \<Rightarrow>
    treedb \<times> ((refusal + db_error) + (target list \<times> int list))" where
  "handle g enrolled hf ca (Create b) db = handleCreateTarget g enrolled hf ca b db"
| "handle g enrolled hf ca (Update i b) db = handleUpdateTarget g enrolled hf ca i b db"
| "handle g enrolled hf ca (Delete i recursive) db = handleDeleteTarget ca i recursive db"

section \<open>The same tree under other ids\<close>

text \<open>
  A new target is validated under a synthetic id and stored under one from the counter; renaming ids
  by an injection keeps everything \<open>New\<close> looks at.
\<close>

definition rename :: "(int \<Rightarrow> int) \<Rightarrow> target \<Rightarrow> target" where
  "rename f t = t\<lparr>t_ID := f (t_ID t), t_ParentID := map_option f (t_ParentID t)\<rparr>"

lemma rename_simps [simp]:
  "t_ID (rename f t) = f (t_ID t)" "t_ParentID (rename f t) = map_option f (t_ParentID t)" "t_Name (rename f t) = t_Name t"
  "t_Host (rename f t) = t_Host t" "t_Settings (rename f t) = t_Settings t" "t_AddressFamily (rename f t) = t_AddressFamily t"
  by (simp_all add: rename_def)

lemma node_at_rename: "inj f \<Longrightarrow> node_at (map (rename f) ns) (f i) = map_option (rename f) (node_at ns i)"
  by (induction ns) (auto simp: node_at_def inj_eq)

lemma is_chain_rename: "inj f \<Longrightarrow> is_chain ns c \<Longrightarrow> is_chain (map (rename f) ns) (map (rename f) c)"
proof (induction ns c rule: is_chain.induct)
  case (3 ns n m c)
  then show ?case by (auto simp: node_at_rename)
qed simp_all

lemma Validate_rename [simp]: "Target_Validate (rename f t) = Target_Validate t"
  by (simp add: Target_Validate_def)

lemma sibling_keys_rename:
  "sibling_keys (map (rename f) ns) = map (\<lambda>(p, n). (f p, n)) (sibling_keys ns)"
  by (induction ns) (auto simp: sibling_keys_def)

lemma resolve_loop_rename:
  "v_Effective (resolve_loop (map (rename f) ns) lo get zero (map (rename f) c)) = v_Effective (resolve_loop ns lo' get zero c)"
  by (induction c) (auto split: option.split)

lemma validateTiming_effective:
  assumes "v_Effective (res_IntervalS r) = v_Effective (res_IntervalS r')"
    and "v_Effective (res_PingsPerInterval r) = v_Effective (res_PingsPerInterval r')"
    and "v_Effective (res_ProbeMode r) = v_Effective (res_ProbeMode r')"
    and "v_Effective (res_BurstGapMS r) = v_Effective (res_BurstGapMS r')"
    and "v_Effective (res_TimeoutMS r) = v_Effective (res_TimeoutMS r')"
  shows "validateTiming r = validateTiming r'"
  using assms by (simp add: validateTiming_def)

lemma timing_rename:
  assumes "inj f" and "\<exists>c. is_chain ns (n # c)" and "node_at ns (t_ID n) = Some n" and "timing_check ns n = Inr ()"
  shows "timing_check (map (rename f) ns) (rename f n) = Inr ()"
proof -
  obtain c where c: "is_chain ns (n # c)" using assms(2) by blast
  then have anc: "ancestryOf ns n = Inr (n # c)"
    "ancestryOf (map (rename f) ns) (rename f n) = Inr (map (rename f) (n # c))"
    using is_chain_rename [OF assms(1) c] by (auto simp: ancestryOf_iff)
  let ?r = "resolve_all ns (n # c)" and ?r' = "resolve_all (map (rename f) ns) (map (rename f) (n # c))"
  have eff': "v_Effective (resolve (map (rename f) ns) (map (rename f) (n # c)) get z) = v_Effective (resolve ns (n # c) get z)"
    for get and z :: string
    unfolding resolve_def by (rule resolve_loop_rename)
  have effi: "v_Effective (resolve (map (rename f) ns) (map (rename f) (n # c)) get z) = v_Effective (resolve ns (n # c) get z)"
    for get and z :: int
    unfolding resolve_def by (rule resolve_loop_rename)
  have "validateTiming ?r' = validateTiming ?r"
    by (rule validateTiming_effective) (simp_all only: resolve_all_def resolved.simps effi eff')
  moreover have "Resolve ns (t_ID n) = Inr ?r" "Resolve (map (rename f) ns) (f (t_ID n)) = Inr ?r'"
    using anc assms(3) by (simp_all add: Resolve_def node_at_rename [OF assms(1)])
  ultimately show ?thesis using assms(4) by (auto simp: timing_check_def split: sum.split_asm)
qed

lemma wf_tree_rename:
  assumes "inj f" and "wf_tree t"
  shows "wf_tree \<lparr>t_nodes = map (rename f) (t_nodes t), t_root = rename f (t_root t)\<rparr>"
proof -
  have d: "distinct (map t_ID (t_nodes t))" using assms(2) by (rule wf_treeD)
  have "distinct (map t_ID (map (rename f) (t_nodes t)))"
  proof -
    have "map t_ID (map (rename f) (t_nodes t)) = map f (map t_ID (t_nodes t))" by simp
    moreover have "inj_on f (set (map t_ID (t_nodes t)))" by (rule inj_on_subset [OF assms(1) subset_UNIV])
    then have "distinct (map f (map t_ID (t_nodes t)))" by (rule distinct_map [THEN iffD2, OF conjI, OF d])
    ultimately show ?thesis by (rule ssubst)
  qed
  moreover have "roots (map (rename f) (t_nodes t)) = [rename f (t_root t)]"
    using assms(2) by (simp add: wf_tree_def roots_def filter_map comp_def)
  moreover have "distinct (sibling_keys (map (rename f) (t_nodes t)))"
  proof -
    have "inj_on (\<lambda>(p, n). (f p, n)) (set (sibling_keys (t_nodes t)))"
      using injD [OF assms(1)] by (auto intro!: inj_onI)
    then show ?thesis using assms(2) by (simp add: wf_tree_def sibling_keys_rename distinct_map)
  qed
  moreover have "\<exists>c. is_chain (map (rename f) (t_nodes t)) (rename f n # c)"
    "timing_check (map (rename f) (t_nodes t)) (rename f n) = Inr ()" "Target_Validate n = Inr ()"
    if n: "n \<in> set (t_nodes t)" for n
  proof -
    have c: "\<exists>c. is_chain (t_nodes t) (n # c)" and tm: "timing_check (t_nodes t) n = Inr ()"
      and v: "Target_Validate n = Inr ()" using wf_treeD [OF assms(2)] n by blast+
    show "Target_Validate n = Inr ()" by (rule v)
    show "timing_check (map (rename f) (t_nodes t)) (rename f n) = Inr ()"
      by (rule timing_rename [OF assms(1) c node_at_mem [OF d n] tm])
    from c obtain c' where "is_chain (t_nodes t) (n # c')" by blast
    from is_chain_rename [OF assms(1) this] show "\<exists>c. is_chain (map (rename f) (t_nodes t)) (rename f n # c)" by auto
  qed
  ultimately show ?thesis using assms(2) by (auto simp: wf_tree_def)
qed

definition swap_id :: "int \<Rightarrow> int \<Rightarrow> int \<Rightarrow> int" where
  "swap_id a b i = (if i = a then b else if i = b then a else i)"

lemma inj_swap_id: "inj (swap_id a b)"
  by (auto simp: inj_on_def swap_id_def split: if_split_asm)

lemma wf_parent:
  assumes "wf_tree t" and "n \<in> set (t_nodes t)" and "t_ParentID n = Some p"
  shows "\<exists>m \<in> set (t_nodes t). t_ID m = p" and "p \<noteq> t_ID n"
proof -
  obtain c where c: "is_chain (t_nodes t) (n # c)" using wf_treeD(2) [OF assms(1,2)] by blast
  then obtain m c' where m: "c = m # c'" "node_at (t_nodes t) p = Some m" using assms(3) by (cases c) auto
  then show "\<exists>m \<in> set (t_nodes t). t_ID m = p" using node_at_Some by blast
  have "n \<noteq> m" using chain_distinct [OF c] m(1) by auto
  moreover have "node_at (t_nodes t) (t_ID n) = Some n" using node_at_mem [OF wf_treeD(1) [OF assms(1)] assms(2)] .
  ultimately show "p \<noteq> t_ID n" using m(2) by auto
qed

lemma New_new_id:
  assumes "New ts = Inr t0" and "New (ts @ [n\<lparr>t_ID := a\<rparr>]) = Inr t" and "b \<notin> t_ID ` set ts"
  shows "\<exists>t'. New (ts @ [n\<lparr>t_ID := b\<rparr>]) = Inr t'"
proof -
  let ?f = "swap_id a b" and ?n = "n\<lparr>t_ID := a\<rparr>"
  have wf0: "wf_tree t0" "t_nodes t0 = ts" and wf: "wf_tree t" "t_nodes t = ts @ [?n]"
    using assms(1,2) by (simp_all add: New_iff)
  have a: "a \<notin> t_ID ` set ts" using wf_treeD(1) [OF wf(1)] wf(2) by auto
  have "rename ?f x = x" if x: "x \<in> set ts" for x
  proof -
    have "t_ID x \<noteq> a" "t_ID x \<noteq> b" using x a assms(3) by auto
    moreover have "map_option ?f (t_ParentID x) = t_ParentID x"
    proof (cases "t_ParentID x")
      case (Some p)
      then obtain m where "m \<in> set ts" "t_ID m = p" using wf_parent(1) [OF wf0(1), of x p] x wf0(2) by auto
      then have "p \<noteq> a" "p \<noteq> b" using a assms(3) by auto
      then show ?thesis using Some by (simp add: swap_id_def)
    qed simp
    ultimately show ?thesis by (simp add: rename_def swap_id_def)
  qed
  then have ts: "map (rename ?f) ts = ts" by (simp add: map_idI)
  have "map_option ?f (t_ParentID n) = t_ParentID n"
  proof (cases "t_ParentID n")
    case (Some p)
    then have "p \<noteq> a" "\<exists>m \<in> set ts. t_ID m = p" using wf_parent [OF wf(1), of ?n p] wf(2) by auto
    then have "p \<noteq> b" using assms(3) by auto
    then show ?thesis using Some \<open>p \<noteq> a\<close> by (simp add: swap_id_def)
  qed simp
  then have "rename ?f ?n = n\<lparr>t_ID := b\<rparr>" by (simp add: rename_def swap_id_def)
  then have "map (rename ?f) (t_nodes t) = ts @ [n\<lparr>t_ID := b\<rparr>]" using wf(2) ts by simp
  then show ?thesis using wf_tree_rename [OF inj_swap_id wf(1), of a b] New_iff by (metis tree.select_convs(1))
qed

section \<open>Removing a subtree\<close>

text \<open>Who lies under a node: those on whose chain it is, the node included.\<close>

definition under :: "tree \<Rightarrow> int \<Rightarrow> int set" where
  "under t i = {t_ID n | n. n \<in> set (t_nodes t) \<and> i \<in> t_ID ` set (up_of t (t_ID n))}"

lemma under_parent:
  assumes "wf_tree t" and "n \<in> set (t_nodes t)" and "t_ParentID n = Some p"
  shows "t_ID n \<in> under t i \<longleftrightarrow> t_ID n = i \<or> p \<in> under t i"
proof -
  have n: "Get t (t_ID n) = Some n" using assms(2) wf_treeD(1) [OF assms(1)] by (simp add: Get_def node_at_mem)
  then obtain m where m: "Get t p = Some m" "up_of t (t_ID n) = n # up_of t p"
    using tree_view.up_parent [OF assms(1) n assms(3)] by blast
  have mp: "m \<in> set (t_nodes t)" "t_ID m = p" using m(1) by (simp_all add: Get_def node_at_Some)
  have uniq: "x = n" if "x \<in> set (t_nodes t)" "t_ID x = t_ID n" for x
    using that assms(2) wf_treeD(1) [OF assms(1)] by (auto simp: distinct_map dest: inj_onD)
  have "t_ID n \<in> under t i \<longleftrightarrow> i \<in> t_ID ` set (up_of t (t_ID n))"
    using assms(2) by (auto simp: under_def)
  moreover have "p \<in> under t i \<longleftrightarrow> i \<in> t_ID ` set (up_of t p)" using mp by (auto simp: under_def)
  ultimately show ?thesis using m(2) by auto
qed

lemma under_root:
  assumes "wf_tree t" and "n \<in> set (t_nodes t)" and "t_ParentID n = None"
  shows "t_ID n \<in> under t i \<longleftrightarrow> t_ID n = i"
proof -
  have n: "Get t (t_ID n) = Some n" using assms(2) wf_treeD(1) [OF assms(1)] by (simp add: Get_def node_at_mem)
  have "up_of t (t_ID n) = [n]" using tree_view.up_root [OF assms(1) n assms(3)] .
  then show ?thesis using assms(2) by (auto simp: under_def)
qed

lemma node_at_filter:
  "node_at (filter (\<lambda>n. t_ID n \<notin> A) ns) i = (if i \<in> A then None else node_at ns i)"
  by (induction ns) (auto simp: node_at_def)

lemma resolve_loop_nodes:
  "v_Effective (resolve_loop ns lo get z c) = v_Effective (resolve_loop ns' lo' get z c)"
  by (induction c) (auto split: option.split)

text \<open>What is left when whole subtrees go is a tree again.\<close>

lemma wf_tree_remove:
  assumes "wf_tree t" and closed: "\<And>n p. n \<in> set (t_nodes t) \<Longrightarrow> t_ParentID n = Some p \<Longrightarrow> p \<in> A \<Longrightarrow> t_ID n \<in> A"
    and "t_ID (t_root t) \<notin> A"
  shows "wf_tree \<lparr>t_nodes = filter (\<lambda>n. t_ID n \<notin> A) (t_nodes t), t_root = t_root t\<rparr>"
proof -
  let ?ns = "t_nodes t" and ?ms = "filter (\<lambda>n. t_ID n \<notin> A) (t_nodes t)"
  have chain: "is_chain ?ms c" if "is_chain ?ns c" "c \<noteq> []" "hd c \<in> set ?ns" "t_ID (hd c) \<notin> A" for c
    using that
  proof (induction ?ns c rule: is_chain.induct)
    case (3 n m c)
    then obtain p where p: "t_ParentID n = Some p" "node_at ?ns p = Some m" by auto
    then have m: "m \<in> set ?ns" "t_ID m = p" by (simp_all add: node_at_Some)
    have "p \<notin> A" using closed [of n p] 3(4,5) p(1) by auto
    then show ?case using 3 p m by (simp add: node_at_filter)
  qed simp_all
  have roots: "roots ?ns = [t_root t]" using assms(1) by (simp add: wf_tree_def)
  then have "roots ?ms = filter (\<lambda>n. t_ID n \<notin> A) [t_root t]"
    by (metis (no_types, lifting) filter_filter roots_def conj_commute filter_cong)
  moreover have "distinct (sibling_keys ?ms)"
  proof -
    have "inj_on (\<lambda>n. (the (t_ParentID n), t_Name n)) {n \<in> set ?ns. t_ParentID n \<noteq> None}"
      and "distinct ?ns"
      using assms(1) by (simp_all add: wf_tree_def sibling_keys_def distinct_map)
    then show ?thesis by (auto simp: sibling_keys_def distinct_map intro: inj_on_subset)
  qed
  moreover have "distinct (map t_ID ?ms)" using wf_treeD(1) [OF assms(1)] by (auto simp: distinct_map intro: inj_on_subset)
  moreover have "\<exists>c. is_chain ?ms (n # c)" "timing_check ?ms n = Inr ()" if n: "n \<in> set ?ms" for n
  proof -
    obtain c where c: "is_chain ?ns (n # c)" using wf_treeD(2) [OF assms(1), of n] n by auto
    then have c': "is_chain ?ms (n # c)" using chain [of "n # c"] n by simp
    then show "\<exists>c. is_chain ?ms (n # c)" by blast
    have at: "node_at ?ns (t_ID n) = Some n" using n wf_treeD(1) [OF assms(1)] by (simp add: node_at_mem)
    then have at': "node_at ?ms (t_ID n) = Some n" using n by (simp add: node_at_filter)
    have "validateTiming (resolve_all ?ms (n # c)) = validateTiming (resolve_all ?ns (n # c))"
      by (rule validateTiming_effective)
        (simp_all only: resolve_all_def resolved.simps resolve_def resolve_loop_nodes [of ?ms _ _ _ _ ?ns])
    moreover have "Resolve ?ns (t_ID n) = Inr (resolve_all ?ns (n # c))" "Resolve ?ms (t_ID n) = Inr (resolve_all ?ms (n # c))"
    proof -
      have "ancestryOf ?ns n = Inr (n # c)" "ancestryOf ?ms n = Inr (n # c)" using c c' by (simp_all add: ancestryOf_iff)
      then show "Resolve ?ns (t_ID n) = Inr (resolve_all ?ns (n # c))" "Resolve ?ms (t_ID n) = Inr (resolve_all ?ms (n # c))"
        using at at' by (simp_all add: Resolve_def)
    qed
    ultimately show "timing_check ?ms n = Inr ()"
      using wf_treeD(4) [OF assms(1), of n] n by (auto simp: timing_check_def split: sum.split_asm if_split_asm)
  qed
  ultimately show ?thesis using assms(1,3) wf_treeD(3) [OF assms(1)] by (auto simp: wf_tree_def)
qed

lemma node_Get: "wf_tree t \<Longrightarrow> n \<in> set (t_nodes t) \<Longrightarrow> Get t (t_ID n) = Some n"
  using wf_treeD(1) [of t] by (simp add: Get_def node_at_mem)

lemma Get_node: "Get t i = Some n \<Longrightarrow> n \<in> set (t_nodes t) \<and> t_ID n = i"
  by (simp add: Get_def node_at_Some)

lemma under_self: "wf_tree t \<Longrightarrow> n \<in> set (t_nodes t) \<Longrightarrow> t_ID n \<in> under t (t_ID n)"
  using under_parent [of t n] under_root [of t n] by (cases "t_ParentID n") auto

lemma under_children:
  assumes "wf_tree t" and "n \<in> set (t_nodes t)"
  shows "under t (t_ID n) = insert (t_ID n) (\<Union>c \<in> set (children_of (t_nodes t) (t_ID n)). under t c)"
proof
  have kids: "c \<in> set (children_of (t_nodes t) (t_ID n)) \<longleftrightarrow> (\<exists>m \<in> set (t_nodes t). t_ID m = c \<and> t_ParentID m = Some (t_ID n))" for c
    by (auto simp: children_of_def)
  have down: "j \<in> under t (t_ID n) \<longrightarrow> j = t_ID n \<or> (\<exists>c \<in> set (children_of (t_nodes t) (t_ID n)). j \<in> under t c)"
    if "Get t j = Some m" for j m
    using assms(1) that
  proof (induction j m rule: tree_view.climb_induct)
    case (root j m)
    then have "m \<in> set (t_nodes t)" "t_ID m = j" using Get_node by blast+
    then show ?case using under_root [OF assms(1), of m "t_ID n"] root by auto
  next
    case (parent j m p m')
    then have m: "m \<in> set (t_nodes t)" "t_ID m = j" using Get_node by blast+
    note u = under_parent [OF assms(1) m(1) parent(2)]
    show ?case
    proof (intro impI)
      assume "j \<in> under t (t_ID n)"
      then consider "j = t_ID n" | "p \<in> under t (t_ID n)" using u m(2) by auto
      then show "j = t_ID n \<or> (\<exists>c \<in> set (children_of (t_nodes t) (t_ID n)). j \<in> under t c)"
      proof cases
        case 2
        show ?thesis
        proof (cases "p = t_ID n")
          case True
          then have "j \<in> set (children_of (t_nodes t) (t_ID n))" using m parent(2) kids by blast
          moreover have "j \<in> under t j" using under_self [OF assms(1) m(1)] m(2) by simp
          ultimately show ?thesis by blast
        next
          case False
          then obtain c where "c \<in> set (children_of (t_nodes t) (t_ID n))" "p \<in> under t c" using parent(5) 2 by blast
          then show ?thesis using u m(2) by auto
        qed
      qed simp
    qed
  qed
  show "under t (t_ID n) \<subseteq> insert (t_ID n) (\<Union>c \<in> set (children_of (t_nodes t) (t_ID n)). under t c)"
  proof
    fix j
    assume j: "j \<in> under t (t_ID n)"
    then obtain m where "m \<in> set (t_nodes t)" "t_ID m = j" by (auto simp: under_def)
    then show "j \<in> insert (t_ID n) (\<Union>c \<in> set (children_of (t_nodes t) (t_ID n)). under t c)"
      using down [of j m] node_Get [OF assms(1), of m] j by auto
  qed
  have up: "j \<in> under t c \<longrightarrow> j \<in> under t (t_ID n)"
    if g: "Get t j = Some m" and ch: "c \<in> set (children_of (t_nodes t) (t_ID n))" for j m c
    using assms(1) g
  proof (induction j m rule: tree_view.climb_induct)
    case (root j m)
    then have m: "m \<in> set (t_nodes t)" "t_ID m = j" using Get_node by blast+
    obtain k where "k \<in> set (t_nodes t)" "t_ID k = c" "t_ParentID k = Some (t_ID n)" using ch kids by blast
    then have "j \<noteq> c" using root m node_Get [OF assms(1)] by (metis option.distinct(1) option.inject)
    then show ?case using under_root [OF assms(1) m(1) root(2)] m(2) by auto
  next
    case (parent j m p m')
    then have m: "m \<in> set (t_nodes t)" "t_ID m = j" using Get_node by blast+
    obtain k where k: "k \<in> set (t_nodes t)" "t_ID k = c" "t_ParentID k = Some (t_ID n)" using ch kids by blast
    have "p = t_ID n" if "j = c" using that k m parent(1,2) node_Get [OF assms(1), of k] by (metis option.inject)
    then show ?case
      using under_parent [OF assms(1) m(1) parent(2)] m(2) parent(5) under_self [OF assms(1,2)] by auto
  qed
  show "insert (t_ID n) (\<Union>c \<in> set (children_of (t_nodes t) (t_ID n)). under t c) \<subseteq> under t (t_ID n)"
  proof
    fix j
    assume "j \<in> insert (t_ID n) (\<Union>c \<in> set (children_of (t_nodes t) (t_ID n)). under t c)"
    then consider "j = t_ID n" | c where "c \<in> set (children_of (t_nodes t) (t_ID n))" "j \<in> under t c" by auto
    then show "j \<in> under t (t_ID n)"
    proof cases
      case (2 c)
      then obtain m where "m \<in> set (t_nodes t)" "t_ID m = j" by (auto simp: under_def)
      then show ?thesis using up [of j m c] node_Get [OF assms(1), of m] 2 by auto
    qed (use under_self [OF assms] in simp)
  qed
qed

text \<open>The walk ends, lists the subtree, and lists every child before its parent.\<close>

definition children_first :: "target list \<Rightarrow> int list \<Rightarrow> bool" where
  "children_first ns is \<longleftrightarrow> (\<forall>xs y ys. is = xs @ y # ys \<longrightarrow> set (children_of ns y) \<subseteq> set xs)"

lemma children_first_append:
  "children_first ns as \<Longrightarrow> children_first ns bs \<Longrightarrow> children_first ns (as @ bs)"
  unfolding children_first_def by (fastforce simp: append_eq_append_conv2 append_eq_Cons_conv Cons_eq_append_conv)

lemma children_first_snoc: "children_first ns as \<Longrightarrow> set (children_of ns y) \<subseteq> set as \<Longrightarrow> children_first ns (as @ [y])"
  unfolding children_first_def by (auto simp: append_eq_append_conv2 append_eq_Cons_conv Cons_eq_append_conv)

lemma children_first_concat: "\<forall>xs \<in> set xss. children_first ns xs \<Longrightarrow> children_first ns (concat xss)"
  by (induction xss) (simp_all add: children_first_append, simp add: children_first_def)

lemma those_Some: "\<forall>x \<in> set xs. \<exists>y. f x = Some y \<and> P x y \<Longrightarrow> \<exists>ys. those (map f xs) = Some ys \<and> list_all2 P xs ys"
  by (induction xs) force+

lemma up_length:
  assumes "wf_tree t" and "Get t i = Some n"
  shows "length (up_of t i) \<le> length (t_nodes t)"
proof -
  have "distinct (up_of t i)" by (rule chain_distinct [OF up_chain(1) [OF assms]])
  then have "length (up_of t i) = card (set (up_of t i))" by (simp add: distinct_card)
  also have "\<dots> \<le> card (set (t_nodes t))" by (rule card_mono [OF _ up_chain(2) [OF assms]]) simp
  also have "\<dots> \<le> length (t_nodes t)" by (rule card_length)
  finally show ?thesis .
qed

lemma walk_total:
  assumes "wf_tree t"
  shows "n \<in> set (t_nodes t) \<Longrightarrow> length (t_nodes t) < k + length (up_of t (t_ID n)) \<Longrightarrow>
    \<exists>is. walk k (t_nodes t) (t_ID n) = Some is \<and> set is = under t (t_ID n) \<and> children_first (t_nodes t) is \<and> is \<noteq> []"
proof (induction k arbitrary: n)
  case 0
  then show ?case using up_length [OF assms node_Get [OF assms 0(1)]] by simp
next
  case (Suc k)
  let ?ns = "t_nodes t" and ?P = "\<lambda>c xs. set xs = under t c \<and> children_first (t_nodes t) xs"
  have "\<exists>xs. walk k ?ns c = Some xs \<and> ?P c xs" if "c \<in> set (children_of ?ns (t_ID n))" for c
  proof -
    obtain m where m: "m \<in> set ?ns" "t_ID m = c" "t_ParentID m = Some (t_ID n)" using \<open>c \<in> _\<close> by (auto simp: children_of_def)
    have "up_of t c = m # up_of t (t_ID n)" using tree_view.up_parent [OF assms node_Get [OF assms m(1)] m(3)] m(2) by auto
    then show ?thesis using Suc.IH [OF m(1)] Suc.prems(2) m(2) by auto
  qed
  then obtain xss where xss: "those (map (walk k ?ns) (children_of ?ns (t_ID n))) = Some xss"
    "list_all2 ?P (children_of ?ns (t_ID n)) xss"
    using those_Some [of "children_of ?ns (t_ID n)" "walk k ?ns" ?P] by blast
  have sets: "set (concat xss) = (\<Union>c \<in> set (children_of ?ns (t_ID n)). under t c) \<and> (\<forall>xs \<in> set xss. children_first ?ns xs)"
    using xss(2) by (induction rule: list_all2_induct) auto
  have last: "children_first ?ns (concat xss @ [t_ID n])"
  proof -
    have cf: "children_first ?ns (concat xss)" using sets children_first_concat by blast
    have "set (children_of ?ns (t_ID n)) \<subseteq> set (concat xss)"
    proof
      fix c
      assume c: "c \<in> set (children_of ?ns (t_ID n))"
      then have "c \<in> under t c" using under_self [OF assms] by (auto simp: children_of_def)
      then show "c \<in> set (concat xss)" using sets c by blast
    qed
    then show ?thesis using cf by (rule children_first_snoc [rotated])
  qed
  show ?case using xss(1) sets last under_children [OF assms Suc.prems(1)] by auto
qed

section \<open>What the statements do\<close>

abbreviation ids_of :: "treedb \<Rightarrow> int set" where
  "ids_of db \<equiv> t_ID ` set (td_targets db)"

definition removed_rules :: "int set \<Rightarrow> treedb \<Rightarrow> int set" where
  "removed_rules D db = r_ID ` {r \<in> set (td_rules db). r_TargetID r \<in> D}"

text \<open>The tables after the targets in \<open>D\<close> are gone with everything defined on them.\<close>

definition without :: "int set \<Rightarrow> treedb \<Rightarrow> treedb" where
  "without D db = db\<lparr>td_targets := filter (\<lambda>t. t_ID t \<notin> D) (td_targets db),
     td_rules := filter (\<lambda>r. r_TargetID r \<notin> D) (td_rules db),
     td_states := filter (\<lambda>s. s_RuleID s \<notin> removed_rules D db \<and> s_TargetID s \<notin> D) (td_states db),
     td_baselines := filter (\<lambda>r. r \<notin> removed_rules D db) (td_baselines db),
     td_grants := filter (\<lambda>g. gr_TargetID g \<notin> D) (td_grants db),
     td_silences := filter (\<lambda>s. \<forall>i \<in> D. sil_TargetID s \<noteq> Some i) (td_silences db)\<rparr>"

lemma deleteTarget_without:
  assumes "\<not> (\<exists>t \<in> set (td_targets db). t_ParentID t = Some i \<and> t_ID t \<noteq> i)"
  shows "deleteTarget i db = Inr (without {i} db)"
  using assms by (auto simp: deleteTarget_def without_def removed_rules_def Let_def image_iff)

lemma without_sel [simp]:
  "td_targets (without D db) = filter (\<lambda>t. t_ID t \<notin> D) (td_targets db)" "td_seq (without D db) = td_seq db"
  "td_rules (without D db) = filter (\<lambda>r. r_TargetID r \<notin> D) (td_rules db)"
  "td_states (without D db) = filter (\<lambda>s. s_RuleID s \<notin> removed_rules D db \<and> s_TargetID s \<notin> D) (td_states db)"
  "td_baselines (without D db) = filter (\<lambda>r. r \<notin> removed_rules D db) (td_baselines db)"
  "td_grants (without D db) = filter (\<lambda>g. gr_TargetID g \<notin> D) (td_grants db)"
  "td_silences (without D db) = filter (\<lambda>s. \<forall>i \<in> D. sil_TargetID s \<noteq> Some i) (td_silences db)"
  by (simp_all add: without_def)

lemma without_without: "without B (without A db) = without (A \<union> B) db"
proof -
  have "removed_rules (A \<union> B) db = removed_rules A db \<union> removed_rules B (without A db)"
    by (auto simp: removed_rules_def)
  then show ?thesis by (intro treedb.equality) (auto intro: filter_cong simp: without_def)
qed

lemma delete_all_without:
  assumes "\<And>xs y ys. is = xs @ y # ys \<Longrightarrow>
      \<not> (\<exists>t \<in> set (td_targets db). t_ParentID t = Some y \<and> t_ID t \<noteq> y \<and> t_ID t \<notin> set xs)"
  shows "delete_all is db = Inr (without (set is) db)"
  using assms
proof (induction "is" arbitrary: db)
  case Nil
  then show ?case by (simp add: without_def removed_rules_def)
next
  case (Cons i "is")
  have one: "deleteTarget i db = Inr (without {i} db)"
    using Cons.prems [of "[]" i "is"] by (intro deleteTarget_without) simp
  have "delete_all is (without {i} db) = Inr (without (set is) (without {i} db))"
  proof (rule Cons.IH)
    fix xs y ys
    assume "is = xs @ y # ys"
    then have "i # is = (i # xs) @ y # ys" by simp
    from Cons.prems [OF this]
    show "\<not> (\<exists>t \<in> set (td_targets (without {i} db)). t_ParentID t = Some y \<and> t_ID t \<noteq> y \<and> t_ID t \<notin> set xs)"
      by (auto simp: without_def)
  qed
  then show ?case using one by (simp add: without_without)
qed

lemma insort_key_last: "\<forall>x \<in> set xs. f x < f a \<Longrightarrow> insort_key f a xs = xs @ [a :: 'a]" for f :: "'a \<Rightarrow> int"
  by (induction xs) auto

lemma replace_first_map:
  "distinct (map t_ID ts) \<Longrightarrow> replace_first i u ts = map (\<lambda>x. if t_ID x = i then u else x) ts"
proof (induction ts)
  case (Cons t ts)
  show ?case
  proof (cases "t_ID t = i")
    case True
    then have "\<forall>x \<in> set ts. t_ID x \<noteq> i" using Cons.prems by (auto simp: image_iff)
    then show ?thesis using True by (simp add: map_idI)
  qed (use Cons in simp)
qed simp

text \<open>Consistent tables: a valid tree, ids below the counter, nothing that refers to what is not there.\<close>

definition treedb_ok :: "treedb \<Rightarrow> bool" where
  "treedb_ok db \<longleftrightarrow> (\<exists>t. New (td_targets db) = Inr t) \<and> sorted (map t_ID (td_targets db)) \<and> 0 \<le> td_seq db \<and>
     (\<forall>n \<in> set (td_targets db). 0 < t_ID n \<and> t_ID n \<le> td_seq db) \<and>
     (\<forall>r \<in> set (td_rules db). r_TargetID r \<in> ids_of db) \<and>
     (\<forall>s \<in> set (td_states db). s_RuleID s \<in> r_ID ` set (td_rules db)) \<and>
     (\<forall>b \<in> set (td_baselines db). b \<in> r_ID ` set (td_rules db)) \<and>
     (\<forall>g \<in> set (td_grants db). gr_TargetID g \<in> ids_of db) \<and>
     (\<forall>s \<in> set (td_silences db). \<forall>i. sil_TargetID s = Some i \<longrightarrow> i \<in> ids_of db)"

lemma constraints_okI:
  assumes "Target_Validate n = Inr ()"
  shows "constraints_ok n"
proof -
  have f: "\<not> bad (\<lambda>f. f \<noteq> ''v4'' \<and> f \<noteq> ''v6'') (t_AddressFamily n)" and s: "Settings_Validate (t_Settings n) = Inr ()"
    using assms unfolding Target_Validate_def rbind_Inr_iff check_simps by blast+
  have m: "\<not> bad (\<lambda>m. m \<noteq> ''burst'' \<and> m \<noteq> ''spread'') (ProbeMode (t_Settings n))"
    using s unfolding Settings_Validate_def rbind_Inr_iff check_simps by blast
  show ?thesis using f m
    by (cases "t_AddressFamily n"; cases "ProbeMode (t_Settings n)") (auto simp: constraints_ok_def)
qed

lemma wf_row:
  assumes "wf_tree t" and "n \<in> set (t_nodes t)"
  shows "constraints_ok n" and "distinct (sibling_keys (t_nodes t))"
  using assms wf_treeD(3) [OF assms] by (simp_all add: wf_tree_def constraints_okI)

lemma treedb_okD:
  assumes "treedb_ok db"
  obtains t where "New (td_targets db) = Inr t" "wf_tree t" "t_nodes t = td_targets db"
    "distinct (map t_ID (td_targets db))" "ids_nonzero t"
proof -
  obtain t where t: "New (td_targets db) = Inr t" using assms by (auto simp: treedb_ok_def)
  then have w: "wf_tree t" "t_nodes t = td_targets db" by (simp_all add: New_iff)
  moreover have "ids_nonzero t" using assms w(2) by (auto simp: ids_nonzero_def treedb_ok_def)
  ultimately show ?thesis using that t wf_treeD(1) [OF w(1)] by simp
qed

lemma upsert_new:
  assumes ok: "treedb_ok db" and n: "t_ID n = 0" and new: "New (td_targets db @ [n\<lparr>t_ID := synthID (td_targets db)\<rparr>]) = Inr t'"
  shows "\<exists>db'. upsertTarget n db = Inr (db', n\<lparr>t_ID := td_seq db + 1\<rparr>) \<and>
    db' = db\<lparr>td_seq := td_seq db + 1, td_targets := td_targets db @ [n\<lparr>t_ID := td_seq db + 1\<rparr>]\<rparr> \<and> treedb_ok db'"
proof -
  let ?i = "td_seq db + 1"
  let ?ts = "td_targets db @ [n\<lparr>t_ID := ?i\<rparr>]"
  obtain t where t: "New (td_targets db) = Inr t" "t_nodes t = td_targets db" using treedb_okD [OF ok] by blast
  have below: "\<forall>x \<in> set (td_targets db). t_ID x < ?i" using ok by (auto simp: treedb_ok_def)
  then have fresh: "?i \<notin> ids_of db" by auto
  obtain t'' where t'': "New ?ts = Inr t''" using New_new_id [OF t(1) new fresh] by blast
  then have wf: "wf_tree t''" "t_nodes t'' = ?ts" by (simp_all add: New_iff)
  have parent: "p \<in> ids_of db" if "t_ParentID n = Some p" for p
    using wf_parent [OF wf(1), of "n\<lparr>t_ID := ?i\<rparr>" p] that wf(2) by auto
  have "allocTargetID db = Inr ?i" using fresh by (simp add: allocTargetID_def eval_nat_numeral)
  moreover have "put_target (n\<lparr>t_ID := ?i\<rparr>) (db\<lparr>td_seq := ?i\<rparr>) = Inr (db\<lparr>td_seq := ?i, td_targets := ?ts\<rparr>)"
    using fresh parent insort_key_last [of "td_targets db" t_ID "n\<lparr>t_ID := ?i\<rparr>"] below
      wf_row [OF wf(1), of "n\<lparr>t_ID := ?i\<rparr>", unfolded wf(2)]
    by (auto simp: put_target_def Let_def)
  ultimately have "upsertTarget n db = Inr (db\<lparr>td_seq := ?i, td_targets := ?ts\<rparr>, n\<lparr>t_ID := ?i\<rparr>)"
    using n by (simp add: upsertTarget_def)
  moreover have "treedb_ok (db\<lparr>td_seq := ?i, td_targets := ?ts\<rparr>)"
    using ok t'' below unfolding treedb_ok_def by (auto simp: sorted_append less_imp_le intro: order.trans)
  ultimately show ?thesis by blast
qed


lemma refuse_iff [result_simps]:
  "refuse f r = Inr x \<longleftrightarrow> r = Inr x" "refuse f r = Inl e \<longleftrightarrow> (\<exists>d. r = Inl d \<and> e = f d)"
  by (cases r; auto simp: refuse_def)+

section \<open>What a patch can reach\<close>

definition keeps :: "(target \<Rightarrow> 'a) \<Rightarrow> (target \<Rightarrow> patch_error + target) \<Rightarrow> bool" where
  "keeps get f \<longleftrightarrow> (\<forall>n n'. f n = Inr n' \<longrightarrow> get n' = get n)"

lemma keepsD: "keeps get f \<Longrightarrow> f n = Inr n' \<Longrightarrow> get n' = get n"
  by (simp add: keeps_def)

lemma keeps_field: "keeps get (f raw) \<Longrightarrow> map_of b key = Some raw \<Longrightarrow> keeps get (field b key f)"
  "map_of b key = None \<Longrightarrow> keeps get (field b key f)"
  by (simp_all add: keeps_def field_def)

lemma keeps_field_any: "(\<And>raw. map_of b key = Some raw \<Longrightarrow> keeps get (f raw)) \<Longrightarrow> keeps get (field b key f)"
  by (cases "map_of b key") (simp_all add: keeps_field)

lemma keeps_text: "(\<And>v n. get (put v n) = get n) \<Longrightarrow> keeps get (patch_text key put raw)"
  by (auto simp: keeps_def patch_text_def rbind_Inr_iff)

lemma keeps_flag: "(\<And>v n. get (put v n) = get n) \<Longrightarrow> keeps get (patch_flag key put raw)"
  by (auto simp: keeps_def patch_flag_def split: option.split)

lemma keeps_bind: "keeps get f \<Longrightarrow> keeps get h \<Longrightarrow> keeps get (\<lambda>n. rbind (f n) h)"
  by (auto simp: keeps_def rbind_Inr_iff)

lemma keeps_applyPatch:
  assumes "\<And>v n. map_of b ''parent_id'' \<noteq> None \<Longrightarrow> get (n\<lparr>t_ParentID := v\<rparr>) = get n" "\<And>v n. get (n\<lparr>t_Name := v\<rparr>) = get n"
    "\<And>v n. get (n\<lparr>t_Host := v\<rparr>) = get n" "\<And>v n. get (n\<lparr>t_AddressFamily := v\<rparr>) = get n"
    "\<And>v n. get (n\<lparr>t_Title := v\<rparr>) = get n" "\<And>v n. get (n\<lparr>t_Notes := v\<rparr>) = get n"
    "\<And>v n. get (n\<lparr>t_Hidden := v\<rparr>) = get n" "\<And>v n. get (n\<lparr>t_Enabled := v\<rparr>) = get n"
    "\<And>v n. get (n\<lparr>t_SortOrder := v\<rparr>) = get n"
    "\<And>raw. map_of b ''settings'' = Some raw \<Longrightarrow> keeps get (patch_settings raw)"
  shows "keeps get (applyPatch hidden_first b)"
proof -
  have "keeps get (field b ''parent_id'' patch_parent)"
    using assms(1) by (auto simp: keeps_def field_def patch_parent_def split: option.splits if_splits)
  moreover have "keeps get (patch_name raw)" "keeps get (patch_order raw)" for raw
    using assms(2,9) by (auto simp: keeps_def patch_name_def patch_order_def split: option.splits if_splits)
  moreover have "keeps get (patch_flags hidden_first b)"
    unfolding patch_flags_def Let_def using assms(7,8)
    by (cases hidden_first) (simp_all add: keeps_bind keeps_field_any keeps_flag)
  moreover have "keeps get (\<lambda>n. Inr (if t_Name n \<noteq> '''' then n\<lparr>t_Name := trim_space (t_Name n)\<rparr> else n))"
    using assms(2) by (simp add: keeps_def)
  ultimately show ?thesis
    unfolding applyPatch_def [abs_def] using assms(3-6,10)
    by (intro keeps_bind) (simp_all add: keeps_field_any keeps_text)
qed

lemma applyPatch_ID: "applyPatch hidden_first b n = Inr n' \<Longrightarrow> t_ID n' = t_ID n"
  by (rule keepsD [OF keeps_applyPatch]) (auto simp: keeps_def patch_settings_def rbind_Inr_iff split: option.splits)

text \<open>The parent is what the body names, or what it was.\<close>

lemma applyPatch_parent:
  assumes "applyPatch hidden_first b n = Inr n'"
  shows "map_of b ''parent_id'' = None \<and> t_ParentID n' = t_ParentID n \<or>
    (\<exists>raw v. map_of b ''parent_id'' = Some raw \<and> raw \<noteq> JNull \<and> dec_int raw = Some v \<and> t_ParentID n' = Some v)"
proof -
  define b' where "b' = filter (\<lambda>kv. fst kv \<noteq> ''parent_id'') b"
  have gone: "map_of b' ''parent_id'' = None" by (auto simp: b'_def map_of_eq_None_iff)
  have other: "map_of b' key = map_of b key" if "key \<noteq> ''parent_id''" for key
    unfolding b'_def using that by (induction b) auto
  have same: "field b' key f = field b key f" if "key \<noteq> ''parent_id''" for key and f :: "json \<Rightarrow> target \<Rightarrow> patch_error + target"
    by (rule ext) (simp add: field_def other [OF that])
  have "applyPatch hidden_first b n = rbind (field b ''parent_id'' patch_parent n) (applyPatch hidden_first b')"
  proof -
    have "field b' ''parent_id'' patch_parent m = Inr m" for m by (simp add: field_def gone)
    then show ?thesis by (simp add: applyPatch_def [abs_def] patch_flags_def same)
  qed
  with assms have "rbind (field b ''parent_id'' patch_parent n) (applyPatch hidden_first b') = Inr n'" by (simp only:)
  then obtain n1 where n1: "field b ''parent_id'' patch_parent n = Inr n1" "applyPatch hidden_first b' n1 = Inr n'"
    unfolding rbind_Inr_iff by blast
  have "keeps t_ParentID (applyPatch hidden_first b')"
    by (rule keeps_applyPatch) (auto simp: gone keeps_def patch_settings_def rbind_Inr_iff split: option.splits)
  then have "t_ParentID n' = t_ParentID n1" using keepsD n1(2) by blast
  then show ?thesis using n1(1)
    by (auto simp: field_def patch_parent_def split: option.split_asm if_split_asm)
qed

text \<open>The two settings only an administrator may change.\<close>

lemma setting_tables:
  "list_all (\<lambda>(key, put). key = ''dscp'' \<or> key = ''retention_s'' \<or>
     (\<forall>v s. DSCP (put v s) = DSCP s \<and> RetentionS (put v s) = RetentionS s)) int_settings"
  "list_all (\<lambda>(key, put). \<forall>v s. DSCP (put v s) = DSCP s \<and> RetentionS (put v s) = RetentionS s) bool_settings"
  "list_all (\<lambda>(key, put). \<forall>v s. DSCP (put v s) = DSCP s \<and> RetentionS (put v s) = RetentionS s) str_settings"
  by (simp_all add: int_settings_def bool_settings_def str_settings_def)

lemma setting_tables_admin:
  "map_of int_settings key = Some put \<Longrightarrow> key \<noteq> ''dscp'' \<Longrightarrow> key \<noteq> ''retention_s'' \<Longrightarrow>
     DSCP (put v s) = DSCP s \<and> RetentionS (put v s) = RetentionS s"
  "map_of bool_settings key = Some put' \<Longrightarrow> DSCP (put' v' s) = DSCP s \<and> RetentionS (put' v' s) = RetentionS s"
  "map_of str_settings key = Some put'' \<Longrightarrow> DSCP (put'' v'' s) = DSCP s \<and> RetentionS (put'' v'' s) = RetentionS s"
  using setting_tables by (fastforce simp: list_all_iff dest: map_of_SomeD)+

lemma patch_setting_admin:
  assumes "patch_setting key raw s = Inr s'" and "key \<noteq> ''dscp''" and "key \<noteq> ''retention_s''"
  shows "DSCP s' = DSCP s \<and> RetentionS s' = RetentionS s"
  using assms unfolding patch_setting_def Let_def
  by (auto simp: rbind_Inr_iff setting_tables_admin split: if_split_asm option.split_asm)

lemma patch_all_admin:
  "patch_all kvs s = Inr s' \<Longrightarrow> map_of kvs ''dscp'' = None \<Longrightarrow> map_of kvs ''retention_s'' = None \<Longrightarrow>
     DSCP s' = DSCP s \<and> RetentionS s' = RetentionS s"
proof (induction kvs arbitrary: s)
  case (Cons kv kvs)
  obtain key raw where kv: "kv = (key, raw)" by (cases kv)
  obtain s1 where s1: "patch_setting key raw s = Inr s1" "patch_all kvs s1 = Inr s'"
    using Cons.prems(1) by (auto simp: kv rbind_Inr_iff)
  have k: "key \<noteq> ''dscp''" "key \<noteq> ''retention_s''" "map_of kvs ''dscp'' = None" "map_of kvs ''retention_s'' = None"
    using Cons.prems(2,3) by (auto simp: kv split: if_split_asm)
  then show ?case using Cons.IH [OF s1(2)] patch_setting_admin [OF s1(1)] by simp
qed simp

lemma applyPatch_admin:
  assumes "refuseAdminOnly sc b = None" and "\<not> IsGlobalAdmin sc" and "applyPatch hidden_first b n = Inr n'"
  shows "DSCP (t_Settings n') = DSCP (t_Settings n) \<and> RetentionS (t_Settings n') = RetentionS (t_Settings n)"
proof -
  let ?get = "\<lambda>n. (DSCP (t_Settings n), RetentionS (t_Settings n))"
  have no: "\<not> touchesSetting b ''dscp''" "\<not> touchesSetting b ''retention_s''"
    using assms(1,2) by (auto simp: refuseAdminOnly_def adminOnlySettings_def split: if_split_asm)
  have "keeps ?get (patch_settings raw)" if raw: "map_of b ''settings'' = Some raw" for raw
    using no raw unfolding keeps_def
    by (auto simp: patch_settings_def touchesSetting_def rbind_Inr_iff dest: patch_all_admin split: option.splits)
  then have "keeps ?get (applyPatch hidden_first b)" by (intro keeps_applyPatch) simp_all
  from keepsD [OF this assms(3)] show ?thesis by simp
qed


section \<open>What a request does\<close>

lemma find_target: "find (\<lambda>t. t_ID t = i) ts = Some n \<Longrightarrow> n \<in> set ts \<and> t_ID n = i"
  by (auto simp: find_Some_iff)

lemma plan_checks_New: "plan_checks g before after targets planned = Inr () \<Longrightarrow> \<exists>t. New planned = Inr t"
  by (auto simp: plan_checks_def rbind_Inr_iff refuse_iff)

lemma treedb_ok_ids:
  assumes "treedb_ok db" and "map t_ID ts = map t_ID (td_targets db)" and "New ts = Inr t"
  shows "treedb_ok (db\<lparr>td_targets := ts\<rparr>)"
proof -
  have ids: "t_ID ` set ts = ids_of db" using arg_cong [OF assms(2), of set] by simp
  have "0 < t_ID n \<and> t_ID n \<le> td_seq db" if n: "n \<in> set ts" for n
  proof -
    have "t_ID n \<in> ids_of db" using imageI [OF n, of t_ID] ids by simp
    then show ?thesis using assms(1) by (auto simp: treedb_ok_def)
  qed
  then show ?thesis using assms(1,3) unfolding treedb_ok_def by (simp add: ids assms(2))
qed

lemma upsert_existing:
  assumes ok: "treedb_ok db" and n: "n \<in> set (td_targets db)" "t_ID n = t_ID u"
    and new: "New (replace_first (t_ID u) u (td_targets db)) = Inr t'"
  shows "\<exists>db'. upsertTarget u db = Inr (db', u) \<and>
    db' = db\<lparr>td_targets := replace_first (t_ID u) u (td_targets db)\<rparr> \<and> ids_of db' = ids_of db \<and> treedb_ok db'"
proof -
  let ?ts = "map (\<lambda>x. if t_ID x = t_ID u then u else x) (td_targets db)"
  obtain t where t: "distinct (map t_ID (td_targets db))" using treedb_okD [OF ok] by blast
  have ts: "replace_first (t_ID u) u (td_targets db) = ?ts" by (rule replace_first_map [OF t])
  have wf: "wf_tree t'" "t_nodes t' = ?ts" using new by (simp_all add: New_iff ts)
  have ids: "map t_ID ?ts = map t_ID (td_targets db)" by simp
  then have idset: "t_ID ` set ?ts = ids_of db" by (metis set_map)
  have u: "u \<in> set ?ts" using n by (auto simp: image_iff)
  have parent: "p \<in> t_ID ` set ?ts" if "t_ParentID u = Some p" for p
    using wf_parent(1) [OF wf(1), of u p] u that wf(2) by auto
  have "0 < t_ID u" "t_ID u \<le> td_seq db" using ok n by (auto simp: treedb_ok_def)
  moreover have "put_target u db = Inr (db\<lparr>td_targets := ?ts\<rparr>)"
  proof -
    have "t_ID u \<in> ids_of db" using imageI [OF n(1), of t_ID] n(2) by simp
    moreover have "\<not> (t_ParentID u \<noteq> None \<and> the (t_ParentID u) \<notin> t_ID ` set ?ts)" using parent by (cases "t_ParentID u") auto
    ultimately show ?thesis using wf_row [OF wf(1), of u] u wf(2) by (simp add: put_target_def Let_def del: set_map)
  qed
  ultimately have "upsertTarget u db = Inr (db\<lparr>td_targets := ?ts\<rparr>, u)" by (simp add: upsertTarget_def)
  moreover have "treedb_ok (db\<lparr>td_targets := ?ts\<rparr>)"
    using treedb_ok_ids [OF ok ids] new ts by simp
  ultimately show ?thesis using ts idset by auto
qed

lemma treedb_ok_without:
  assumes "treedb_ok db" and "New (filter (\<lambda>t. t_ID t \<notin> D) (td_targets db)) = Inr t"
  shows "treedb_ok (without D db)"
proof -
  have "sorted (map t_ID (filter (\<lambda>t. t_ID t \<notin> D) (td_targets db)))"
    using assms(1) by (intro sorted_filter) (simp add: treedb_ok_def)
  moreover have "b \<in> r_ID ` {r \<in> set (td_rules db). r_TargetID r \<notin> D}"
    if "b \<in> r_ID ` set (td_rules db)" "b \<notin> removed_rules D db" for b
    using that by (auto simp: removed_rules_def)
  moreover have "i \<in> t_ID ` {x \<in> set (td_targets db). t_ID x \<notin> D}" if "i \<in> ids_of db" "i \<notin> D" for i
    using that by auto
  ultimately show ?thesis using assms unfolding treedb_ok_def without_sel set_filter by blast
qed

lemma delete_subtree:
  assumes ok: "treedb_ok db" and t: "New (td_targets db) = Inr t"
    and n: "n \<in> set (td_targets db)" "t_ParentID n \<noteq> None"
  shows "set (subtree_order (td_targets db) (t_ID n)) = under t (t_ID n)"
    and "delete_all (subtree_order (td_targets db) (t_ID n)) db = Inr (without (under t (t_ID n)) db)"
    and "treedb_ok (without (under t (t_ID n)) db)"
proof -
  have wf: "wf_tree t" "t_nodes t = td_targets db" using t by (simp_all add: New_iff)
  let ?o = "subtree_order (td_targets db) (t_ID n)" and ?U = "under t (t_ID n)"
  obtain "is" where o: "walk (Suc (length (td_targets db))) (td_targets db) (t_ID n) = Some is" "set is = ?U"
    "children_first (td_targets db) is"
    using walk_total [OF wf(1), of n "Suc (length (td_targets db))"] n(1) wf(2) by auto
  then have o': "?o = is" by (simp add: subtree_order_def)
  then show set: "set ?o = ?U" using o(2) by simp
  have "delete_all ?o db = Inr (without (set ?o) db)"
  proof (rule delete_all_without)
    fix xs y ys
    assume "?o = xs @ y # ys"
    then have "set (children_of (td_targets db) y) \<subseteq> set xs" using o(3) o' by (auto simp: children_first_def)
    then show "\<not> (\<exists>t \<in> set (td_targets db). t_ParentID t = Some y \<and> t_ID t \<noteq> y \<and> t_ID t \<notin> set xs)"
      by (auto simp: children_of_def)
  qed
  then show "delete_all ?o db = Inr (without ?U db)" using set by simp
  have closed: "t_ID m \<in> ?U" if "m \<in> set (t_nodes t)" "t_ParentID m = Some p" "p \<in> ?U" for m p
    using under_parent [OF wf(1) that(1,2)] that(3) by blast
  have r: "t_root t \<in> set (t_nodes t)" "t_ParentID (t_root t) = None"
    using wf(1) by (auto simp: wf_tree_def roots_def dest!: arg_cong [where f = set])
  have "t_ID (t_root t) \<notin> ?U"
  proof
    assume "t_ID (t_root t) \<in> ?U"
    then have "t_ID (t_root t) = t_ID n" using under_root [OF wf(1) r] by blast
    then have "t_root t = n" using node_Get [OF wf(1), of n] node_Get [OF wf(1) r(1)] n(1) wf(2) by simp
    then show False using r(2) n(2) by simp
  qed
  then have "wf_tree \<lparr>t_nodes = filter (\<lambda>n. t_ID n \<notin> ?U) (t_nodes t), t_root = t_root t\<rparr>"
    using wf_tree_remove [OF wf(1), of ?U] closed by blast
  then show "treedb_ok (without ?U db)" using treedb_ok_without [OF ok] wf(2) by (metis New_iff tree.select_convs(1))
qed


text \<open>The four things that can have happened, on consistent tables.\<close>

lemma changeTargets_cases:
  assumes "treedb_ok db" and "changeTargets ca fn db = (db', r)"
  obtains (refused) e where "r = Inl (Inl e)" "db' = db"
  | (wrote) t sc ch where "New (td_targets db) = Inr t"
      "scopeFor (ca_configured ca) (ca_default ca) (ca_session ca) (Inr (td_grants db) :: tree_error + grant list) t = Inr sc"
      "fn sc (td_targets db) = Inr ch"
      "(db', r) = (case rbind (upsert_all (ch_Upsert ch) db) (\<lambda>(db', ts). rbind (delete_all (ch_Delete ch) db') (\<lambda>db''. Inr (db'', ts))) of
         Inl e \<Rightarrow> (db, Inl (Inr e)) | Inr (db', ts) \<Rightarrow> (db', Inr (ts, ch_Delete ch)))"
proof -
  obtain t where t: "New (td_targets db) = Inr t" using treedb_okD [OF assms(1)] by blast
  let ?sc = "scopeFor (ca_configured ca) (ca_default ca) (ca_session ca) (Inr (td_grants db) :: tree_error + grant list) t"
  show thesis
  proof (cases ?sc)
    case (Inl e)
    then have "r = Inl (Inl (Internal e))" "db' = db"
      using assms(2) t by (simp_all add: changeTargets_def ChangeTargets_def refuse_def)
    then show thesis by (rule refused)
  next
    case (Inr sc)
    then have c: "(db', r) = ChangeTargets (\<lambda>_. fn sc (td_targets db)) db"
      using assms(2) t by (simp add: changeTargets_def ChangeTargets_def refuse_def)
    show thesis
    proof (cases "fn sc (td_targets db)")
      case (Inl e)
      then show thesis using c refused by (simp add: ChangeTargets_def)
    next
      case (Inr ch)
      show thesis by (rule wrote [OF t \<open>?sc = Inr sc\<close> Inr]) (use c Inr in \<open>simp add: ChangeTargets_def\<close>)
    qed
  qed
qed

definition write_scope :: "caller \<Rightarrow> treedb \<Rightarrow> tree \<Rightarrow> scope \<Rightarrow> bool" where
  "write_scope ca db t sc \<longleftrightarrow> New (td_targets db) = Inr t \<and>
     scopeFor (ca_configured ca) (ca_default ca) (ca_session ca) (Inr (td_grants db) :: tree_error + grant list) t = Inr sc"

lemma handle_cases:
  assumes ok: "treedb_ok db" and run: "handle g enrolled hf ca req db = (db', r)"
  obtains (refused) e where "r = Inl (Inl e)" "db' = db"
  | (created) t sc b n p where "req = Create b" "write_scope ca db t sc" "applyPatch hf b new_target = Inr n" "t_ParentID n = Some p"
      "CanWrite sc p" "refuseAdminOnly sc b = None" "r = Inr ([n\<lparr>t_ID := td_seq db + 1\<rparr>], [])"
      "db' = db\<lparr>td_seq := td_seq db + 1, td_targets := td_targets db @ [n\<lparr>t_ID := td_seq db + 1\<rparr>]\<rparr>" "treedb_ok db'"
  | (updated) t sc i b cur u where "req = Update i b" "write_scope ca db t sc" "cur \<in> set (td_targets db)" "t_ID cur = i"
      "CanWrite sc i" "refuseAdminOnly sc b = None" "applyPatch hf b cur = Inr u" "t_ID u = i"
      "t_ParentID u = t_ParentID cur \<or> (\<exists>p. t_ParentID u = Some p \<and> CanWrite sc p)" "r = Inr ([u], [])"
      "db' = db\<lparr>td_targets := replace_first i u (td_targets db)\<rparr>" "ids_of db' = ids_of db" "treedb_ok db'"
  | (deleted) t sc i rec where "req = Delete i rec" "write_scope ca db t sc" "i \<in> ids_of db" "\<forall>j \<in> under t i. CanWrite sc j"
      "under t i = {i} \<or> rec" "r = Inr ([], subtree_order (td_targets db) i)" "set (subtree_order (td_targets db) i) = under t i"
      "db' = without (under t i) db" "treedb_ok db'"
proof (cases req)
  case (Create b)
  show thesis
  proof (cases "applyPatch hf b new_target")
    case (Inl e)
    then have "r = Inl (Inl (Patch e))" "db' = db" using run Create by (simp_all add: handleCreateTarget_def)
    then show thesis by (rule refused)
  next
    case (Inr n)
    have n0: "t_ID n = 0" using applyPatch_ID [OF Inr] by (simp add: new_target_def)
    show thesis
    proof (cases "t_ParentID n")
      case None
      then have "r = Inl (Inl NeedsParent)" "db' = db" using run Create Inr by (simp_all add: handleCreateTarget_def)
      then show thesis by (rule refused)
    next
      case (Some p)
      have "changeTargets ca (create_fn g enrolled b n p) db = (db', r)"
        using run Create Inr Some by (simp add: handleCreateTarget_def)
      from ok this show thesis
      proof (cases rule: changeTargets_cases)
        case (refused e)
        then show thesis by (rule that(1))
      next
        case (wrote t sc ch)
        then have ch: "ch = \<lparr>ch_Upsert = [n], ch_Delete = []\<rparr>" and w: "CanWrite sc p" "refuseAdminOnly sc b = None"
          and pl: "plan_checks g None n (td_targets db) (td_targets db @ [n\<lparr>t_ID := synthID (td_targets db)\<rparr>]) = Inr ()"
          by (auto simp: create_fn_def rbind_Inr_iff split: option.split_asm)
        obtain t' where "New (td_targets db @ [n\<lparr>t_ID := synthID (td_targets db)\<rparr>]) = Inr t'" using plan_checks_New [OF pl] by blast
        from upsert_new [OF ok n0 this] wrote(4) ch
        have "r = Inr ([n\<lparr>t_ID := td_seq db + 1\<rparr>], [])"
          "db' = db\<lparr>td_seq := td_seq db + 1, td_targets := td_targets db @ [n\<lparr>t_ID := td_seq db + 1\<rparr>]\<rparr>" "treedb_ok db'"
          by auto
        then show thesis using that(2) [OF Create _ Inr Some w] wrote(1,2) by (simp add: write_scope_def)
      qed
    qed
  qed
next
  case (Update i b)
  then have "changeTargets ca (update_fn g enrolled hf b i) db = (db', r)"
    using run by (simp add: handleUpdateTarget_def)
  from ok this show thesis
  proof (cases rule: changeTargets_cases)
    case (refused e)
    then show thesis by (rule that(1))
  next
    case (wrote t sc ch)
    then obtain cur u where cur: "find (\<lambda>t. t_ID t = i) (td_targets db) = Some cur" and w: "CanWrite sc i" "refuseAdminOnly sc b = None"
      and dest: "\<forall>raw. map_of b ''parent_id'' = Some raw \<longrightarrow> raw \<noteq> JNull \<longrightarrow> (\<forall>p. dec_int raw = Some p \<longrightarrow> CanWrite sc p)"
      and u: "applyPatch hf b cur = Inr u" and ch: "ch = \<lparr>ch_Upsert = [u], ch_Delete = []\<rparr>"
      and pl: "plan_checks g (Some cur) u (td_targets db) (replace_first i u (td_targets db)) = Inr ()"
      by (auto simp: update_fn_def rbind_Inr_iff refuse_iff split: option.split_asm if_split_asm)
    note c = find_target [OF cur]
    have ui: "t_ID u = i" using applyPatch_ID [OF u] c by simp
    obtain t' where t': "New (replace_first i u (td_targets db)) = Inr t'" using plan_checks_New [OF pl] by blast
    have par: "t_ParentID u = t_ParentID cur \<or> (\<exists>p. t_ParentID u = Some p \<and> CanWrite sc p)"
      using applyPatch_parent [OF u] dest by blast
    from upsert_existing [OF ok, of cur u t'] t' c ui wrote(4) ch
    have "r = Inr ([u], [])" "db' = db\<lparr>td_targets := replace_first i u (td_targets db)\<rparr>" "ids_of db' = ids_of db" "treedb_ok db'"
      by auto
    then show thesis using that(3) [OF Update _ _ _ w u ui par] wrote(1,2) c by (simp add: write_scope_def)
  qed
next
  case (Delete i rec)
  then have "changeTargets ca (delete_fn rec i) db = (db', r)" using run by (simp add: handleDeleteTarget_def)
  from ok this show thesis
  proof (cases rule: changeTargets_cases)
    case (refused e)
    then show thesis by (rule that(1))
  next
    case (wrote t sc ch)
    let ?o = "subtree_order (td_targets db) i"
    obtain n where n: "find (\<lambda>t. t_ID t = i) (td_targets db) = Some n" and w: "find (\<lambda>v. \<not> CanWrite sc v) ?o = None"
      and len: "\<not> (length ?o > 1 \<and> \<not> rec)" and root: "t_ParentID n \<noteq> None" and ch: "ch = \<lparr>ch_Upsert = [], ch_Delete = ?o\<rparr>"
      using wrote(3) by (auto simp: delete_fn_def rbind_Inr_iff Let_def split: option.split_asm)
    note m = find_target [OF n]
    note del = delete_subtree [OF ok wrote(1) conjunct1 [OF m] root]
    have o: "set ?o = under t i" "delete_all ?o db = Inr (without (under t i) db)" "treedb_ok (without (under t i) db)"
      using del m by simp_all
    have "i \<in> under t i" using under_self [of t n] m wrote(1) by (simp add: New_iff)
    moreover have "under t i = {i}" if "\<not> rec"
    proof -
      have "length ?o \<le> 1" using len that by simp
      then have "?o = [] \<or> (\<exists>x. ?o = [x])" by (cases ?o) auto
      then consider "?o = []" | x where "?o = [x]" by blast
      then show ?thesis using o(1) \<open>i \<in> under t i\<close> by cases (simp, metis empty_set list.simps(15) singletonD)
    qed
    moreover have "\<forall>j \<in> under t i. CanWrite sc j" using w o(1) by (auto simp: find_None_iff)
    moreover have "r = Inr ([], ?o)" "db' = without (under t i) db" using wrote(4) ch o(2) by auto
    moreover have "i \<in> ids_of db" using m by auto
    ultimately show thesis using that(4) [OF Delete] wrote(1,2) o by (auto simp: write_scope_def)
  qed
qed


section \<open>The properties\<close>

text \<open>A history of requests, each with its caller and what the server knew when it came.\<close>

fun handle_all :: "golib \<Rightarrow> (string list option \<times> bool \<times> caller \<times> request) list \<Rightarrow> treedb \<Rightarrow> treedb" where
  "handle_all g [] db = db"
| "handle_all g ((enrolled, hf, ca, req) # reqs) db = handle_all g reqs (fst (handle g enrolled hf ca req db))"

lemma handle_ids:
  assumes "treedb_ok db" and "handle g enrolled hf ca req db = (db', r)"
  shows "treedb_ok db' \<and> td_seq db \<le> td_seq db' \<and> (\<forall>i \<in> ids_of db'. i \<in> ids_of db \<or> td_seq db < i)"
    and "\<forall>e. r \<noteq> Inl (Inr e)" and "\<forall>e. r = Inl e \<longrightarrow> db' = db"
  using assms by (rule handle_cases; use assms in auto)+

lemma handle_all_ids:
  "treedb_ok db \<Longrightarrow> treedb_ok (handle_all g reqs db) \<and> td_seq db \<le> td_seq (handle_all g reqs db) \<and>
     (\<forall>i \<in> ids_of (handle_all g reqs db). i \<in> ids_of db \<or> td_seq db < i)"
proof (induction g reqs db rule: handle_all.induct)
  case (2 g enrolled hf ca req reqs db)
  obtain db' r where h: "handle g enrolled hf ca req db = (db', r)" by fastforce
  note s = handle_ids(1) [OF 2(2) h]
  then show ?case using 2(1) h by fastforce
qed simp

text \<open>
  Property C29. Writes keep the installation consistent. Start from tables that hold a valid tree with
  ids at or below the counter and nothing (rule, alert state, baseline, grant, silence) that refers to
  a missing row, and run any sequence of create, update and delete requests of any callers, with
  any bodies. The tables stay consistent; no request ever runs into the database (an unused id
  is always found and no foreign key is violated, so the walk of a delete has named the whole subtree
  with children first); a refused request changes nothing; and an id that was deleted,
  or one handed out and deleted within the history, never comes back for another target.
\<close>

theorem tree_writes_keep_valid:
  assumes "treedb_ok db" and "handle g enrolled hf ca req (handle_all g reqs db) = (db', r)"
  shows "treedb_ok db' \<and> (\<forall>e. r \<noteq> Inl (Inr e)) \<and> (\<forall>e. r = Inl e \<longrightarrow> db' = handle_all g reqs db) \<and>
    (\<forall>i more. i \<in> ids_of (handle_all g reqs db) \<longrightarrow> i \<notin> ids_of db' \<longrightarrow> i \<notin> ids_of (handle_all g more db'))"
proof -
  have ok: "treedb_ok (handle_all g reqs db)" using handle_all_ids [OF assms(1)] by blast
  note one = handle_ids [OF ok assms(2)]
  have gone: "i \<notin> ids_of (handle_all g more db')" if "i \<in> ids_of (handle_all g reqs db)" "i \<notin> ids_of db'" for i more
  proof -
    have "i \<le> td_seq (handle_all g reqs db)" using ok that(1) by (auto simp: treedb_ok_def)
    then have "i \<le> td_seq db'" using one(1) by linarith
    then show ?thesis using handle_all_ids [of db' g more] one(1) that(2) by fastforce
  qed
  then show ?thesis using one by blast
qed

text \<open>
  Property C30. A caller whose write access comes from grants stays inside them. Whatever request
  someone who is not an administrator of the installation makes, on whatever body: every node they
  may not write is still there, unchanged, with its rules, grants and silences; a node that
  is new or changed is one they may write, or hangs below one; a node ends up below another parent
  only if they may write there too; and the settings only an administrator may set (DSCP and
  retention) are unchanged on every node that stays and empty on one that is new.
\<close>

theorem scoped_write_confined:
  assumes "treedb_ok db" and "write_scope ca db t sc" and "\<not> IsGlobalAdmin sc"
    and "handle g enrolled hf ca req db = (db', r)"
  shows "(\<forall>n \<in> set (td_targets db). \<not> CanWrite sc (t_ID n) \<longrightarrow> n \<in> set (td_targets db')) \<and>
    (\<forall>x \<in> set (td_rules db). \<not> CanWrite sc (r_TargetID x) \<longrightarrow> x \<in> set (td_rules db')) \<and>
    (\<forall>x \<in> set (td_grants db). \<not> CanWrite sc (gr_TargetID x) \<longrightarrow> x \<in> set (td_grants db')) \<and>
    (\<forall>x \<in> set (td_silences db). (\<forall>i. sil_TargetID x = Some i \<longrightarrow> \<not> CanWrite sc i) \<longrightarrow> x \<in> set (td_silences db')) \<and>
    (\<forall>n' \<in> set (td_targets db'). n' \<notin> set (td_targets db) \<longrightarrow>
       (if t_ID n' \<in> ids_of db then CanWrite sc (t_ID n') else \<exists>p. t_ParentID n' = Some p \<and> CanWrite sc p \<and>
          DSCP (t_Settings n') = None \<and> RetentionS (t_Settings n') = None)) \<and>
    (\<forall>n \<in> set (td_targets db). \<forall>n' \<in> set (td_targets db'). t_ID n' = t_ID n \<longrightarrow>
       (t_ParentID n' = t_ParentID n \<or> (\<exists>p. t_ParentID n' = Some p \<and> CanWrite sc p)) \<and>
       DSCP (t_Settings n') = DSCP (t_Settings n) \<and> RetentionS (t_Settings n') = RetentionS (t_Settings n))"
proof -
  obtain d: "distinct (map t_ID (td_targets db))" using treedb_okD [OF assms(1)] by blast
  have uniq: "n = m" if "n \<in> set (td_targets db)" "m \<in> set (td_targets db)" "t_ID n = t_ID m" for n m
    using d that by (auto simp: distinct_map dest: inj_onD)
  have scope: "s = sc" "t' = t" if "write_scope ca db t' s" for t' s
    using that assms(2) by (auto simp: write_scope_def)
  from assms(1,4) show ?thesis
  proof (cases rule: handle_cases)
    case (refused e)
    then show ?thesis using uniq by auto
  next
    case (created t' sc' b n p)
    have "DSCP (t_Settings n) = None" "RetentionS (t_Settings n) = None"
      using applyPatch_admin [OF created(6) _ created(3)] assms(3) scope(1) [OF created(2)]
      by (simp_all add: new_target_def no_settings_def)
    moreover have "td_seq db + 1 \<notin> ids_of db" using assms(1) by (fastforce simp: treedb_ok_def)
    ultimately show ?thesis using created(4,5,8) scope(1) [OF created(2)] uniq by auto
  next
    case (updated t' sc' i b cur u)
    have sc: "sc' = sc" using scope updated(2) by blast
    have set': "n' = u \<or> n' \<in> set (td_targets db) \<and> t_ID n' \<noteq> i" if "n' \<in> set (td_targets db')" for n'
      using that updated(11) replace_first_map [OF d, of i u] by (auto split: if_split_asm)
    have keep: "n \<in> set (td_targets db')" if "n \<in> set (td_targets db)" "t_ID n \<noteq> i" for n
      using that updated(11) replace_first_map [OF d, of i u] by (auto simp: image_iff)
    have adm: "DSCP (t_Settings u) = DSCP (t_Settings cur)" "RetentionS (t_Settings u) = RetentionS (t_Settings cur)"
      using applyPatch_admin [OF updated(6) _ updated(7)] assms(3) sc by simp_all
    have same: "(t_ParentID n' = t_ParentID n \<or> (\<exists>p. t_ParentID n' = Some p \<and> CanWrite sc p)) \<and>
       DSCP (t_Settings n') = DSCP (t_Settings n) \<and> RetentionS (t_Settings n') = RetentionS (t_Settings n)"
      if n: "n \<in> set (td_targets db)" "n' \<in> set (td_targets db')" "t_ID n' = t_ID n" for n n'
    proof (cases "t_ID n = i")
      case True
      then have "n = cur" "n' = u" using uniq [OF n(1) updated(3)] updated(4) set' [OF n(2)] n(3) by auto
      then show ?thesis using updated(9) sc adm by blast
    next
      case False
      then have "n' \<noteq> u" using n(3) updated(8) by auto
      then have "n' = n" using set' [OF n(2)] uniq n by blast
      then show ?thesis by simp
    qed
    have "n' = u" if "n' \<in> set (td_targets db')" "n' \<notin> set (td_targets db)" for n' using set' that by blast
    moreover have "i \<in> ids_of db" using updated(3,4) by auto
    ultimately have new: "t_ID n' \<in> ids_of db \<and> CanWrite sc (t_ID n')"
      if "n' \<in> set (td_targets db')" "n' \<notin> set (td_targets db)" for n'
      using that updated(5,8) sc by metis
    have "n \<in> set (td_targets db')" if "n \<in> set (td_targets db)" "\<not> CanWrite sc (t_ID n)" for n
      using keep [OF that(1)] that(2) updated(5) sc by metis
    moreover have "td_rules db' = td_rules db" "td_grants db' = td_grants db" "td_silences db' = td_silences db"
      using updated(11) by simp_all
    ultimately show ?thesis using new same by simp
  next
    case (deleted t' sc' i rec)
    then have "\<forall>j \<in> under t i. CanWrite sc j" using scope by blast
    then show ?thesis using deleted(8) scope(2) [OF deleted(2)] uniq by auto
  qed
qed


section \<open>The properties on a small installation\<close>

definition example_db :: treedb where
  "example_db = \<lparr>td_targets = example_nodes, td_seq = 7, td_rules = [], td_states = [], td_baselines = [],
     td_grants = [\<lparr>gr_ID = 1, gr_Group = ''dc-team'', gr_TargetID = 2, gr_Role = RoleEditor\<rparr>], td_silences = []\<rparr>"

definition example_caller :: caller where
  "example_caller = \<lparr>ca_configured = True, ca_default = RoleNone, ca_session = Some example_editor\<rparr>"

definition example_create :: request where
  "example_create = Create [(''parent_id'', JInt 2), (''name'', JString '' new ''), (''host'', JString ''a-b.example'')]"

lemma example_db_ok: "treedb_ok example_db"
proof -
  have "New (td_targets example_db) = Inr example_tree" using example_New by (simp add: example_db_def)
  moreover have "sorted (map t_ID (td_targets example_db))" "list_all (\<lambda>n. 0 < t_ID n \<and> t_ID n \<le> 7) (td_targets example_db)"
    "2 \<in> ids_of example_db"
    by code_simp+
  ultimately show ?thesis by (simp add: treedb_ok_def list_all_iff) (simp add: example_db_def)
qed


text \<open>The holder of a grant on \<open>/dc\<close> deletes \<open>/dc/dns\<close>; the root stays out of reach.\<close>

definition example_delete :: "treedb \<times> ((refusal + db_error) + (target list \<times> int list))" where
  "example_delete = handle example_lib (Some []) True example_caller (Delete 3 False) example_db"

lemma example_deleted: "map t_ID (td_targets (fst example_delete)) = [1, 2]" "snd example_delete = Inr ([], [3])"
  by code_simp+

theorem tree_writes_keep_valid_witness:
  "treedb_ok (fst example_delete) \<and> 3 \<in> ids_of example_db \<and> (\<forall>later. 3 \<notin> ids_of (handle_all example_lib later (fst example_delete)))"
proof -
  have h: "handle example_lib (Some []) True example_caller (Delete 3 False) (handle_all example_lib [] example_db) =
      (fst example_delete, snd example_delete)" by (simp add: example_delete_def)
  have "3 \<in> ids_of example_db" by code_simp
  moreover have "3 \<notin> ids_of (fst example_delete)" using arg_cong [OF example_deleted(1), of set] by simp
  ultimately show ?thesis using tree_writes_keep_valid [OF example_db_ok h] by simp
qed

theorem scoped_write_confined_witness:
  "\<exists>sc. write_scope example_caller example_db example_tree sc \<and> \<not> CanWrite sc 1 \<and>
     group_node 1 None '''' example_settings \<in> set (td_targets (fst example_delete))"
proof -
  let ?g = "td_grants example_db"
  obtain sc where sc: "scopeFor True RoleNone (Some example_editor) (Inr ?g :: tree_error + grant list) example_tree = Inr sc"
    by (simp add: scopeFor_def example_editor_def role_defs)
  then have w: "write_scope example_caller example_db example_tree sc"
    using example_New by (simp add: write_scope_def example_caller_def) (simp add: example_db_def)
  have "sc = \<lparr>sc_global = RoleNone, sc_roots = fold (add_grant [''dc-team'']) ?g (\<lambda>_. None), sc_tr = example_tree\<rparr>"
    using sc by (simp add: scopeFor_def example_editor_def role_defs)
  moreover have "\<not> CanWrite \<lparr>sc_global = RoleNone, sc_roots = fold (add_grant [''dc-team'']) ?g (\<lambda>_. None), sc_tr = example_tree\<rparr> 1"
    "\<not> IsGlobalAdmin \<lparr>sc_global = RoleNone, sc_roots = fold (add_grant [''dc-team'']) ?g (\<lambda>_. None), sc_tr = example_tree\<rparr>"
    by code_simp+
  ultimately have no: "\<not> CanWrite sc 1" "\<not> IsGlobalAdmin sc" by simp_all
  have h: "handle example_lib (Some []) True example_caller (Delete 3 False) example_db = (fst example_delete, snd example_delete)"
    by (simp add: example_delete_def)
  have "group_node 1 None '''' example_settings \<in> set (td_targets example_db)"
    "t_ID (group_node 1 None '''' example_settings) = 1"
    by (simp_all add: example_db_def example_nodes_def group_node_def)
  then have "group_node 1 None '''' example_settings \<in> set (td_targets (fst example_delete))"
    using scoped_write_confined [OF example_db_ok w no(2) h] no(1) by auto
  then show ?thesis using w no(1) by blast
qed

end
