(* ===== verification/Enrol.thy ===== *)
theory Enrol
  imports TreeWrite
begin

text \<open>
  Agents and how they come to exist: \<open>internal/store/agents.go\<close> (the table of agents),
  \<open>internal/store/enrol.go\<close> (enrolment tokens and renaming) and the handlers of \<open>internal/api/enrol.go\<close>.
  Times are nanoseconds, as \<open>time.Time\<close> holds them; a row holds seconds. The hash of a token is the
  argument \<open>hash\<close>, the random part of a new one the argument \<open>plain\<close>.
\<close>

section \<open>The tables\<close>

record agent_row =
  er_ID :: int
  er_Name :: string
  er_PubKey :: "u8 list option"
  er_Enabled :: bool
  er_LastSeen :: "int option"
  er_Version :: "string option"

record token =
  tk_ID :: int
  tk_Hash :: string
  tk_Name :: string
  tk_Created :: int
  tk_Expires :: int
  tk_Used :: "int option"
  tk_Agent :: "int option"

record enroldb =
  en_agents :: "agent_row list"
  en_seq :: int \<comment> \<open>the high-water mark of \<open>agent_ids\<close>\<close>
  en_tokens :: "token list"
  en_targets :: "target list"
  en_history :: "int list" \<comment> \<open>the agents that have measurements\<close>

datatype enrol_error =
    BadName string
  | NameTooLong
  | NameSpace string nat
  | BadKey nat
  | NoID
  | NameExists \<comment> \<open>\<open>UNIQUE\<close> on the name\<close>
  | HashExists \<comment> \<open>\<open>UNIQUE\<close> on the hash\<close>
  | NoSuchAgent int
  | LocalAgent
  | ErrAgentHasHistory int
  | TTLNotPositive
  | ErrNameTaken
  | NoSuchToken
  | AlreadyRedeemed int
  | Expired int
  | NoUnspent int

section \<open>Agents\<close>

text \<open>\<open>unicode.IsSpace\<close> of a rune.\<close>

definition IsSpace :: "nat \<Rightarrow> bool" where
  "IsSpace r \<longleftrightarrow> 9 \<le> r \<and> r \<le> 13 \<or> r = 0x20 \<or> r = 0x85 \<or> r = 0xA0 \<or> r = 0x1680 \<or> 0x2000 \<le> r \<and> r \<le> 0x200A \<or>
     r = 0x2028 \<or> r = 0x2029 \<or> r = 0x202F \<or> r = 0x205F \<or> r = 0x3000"

definition validAgentName :: "string \<Rightarrow> enrol_error + unit" where
  "validAgentName name =
     (if name = '''' \<or> name = ''local'' then Inl (BadName name)
      else case runes name of
        None \<Rightarrow> Inl NameTooLong
      | Some rs \<Rightarrow>
          if length rs > 64 then Inl NameTooLong
          else (case find (\<lambda>r. IsSpace r \<or> IsControl r \<or> IsCf r) rs of
              Some r \<Rightarrow> Inl (NameSpace name r)
            | None \<Rightarrow> Inr ()))"

definition allocAgentID :: "enroldb \<Rightarrow> enrol_error + int" where
  "allocAgentID db =
     (case alloc_loop 16 (\<lambda>i. i \<in> er_ID ` set (en_agents db)) (en_seq db) of Inl _ \<Rightarrow> Inl NoID | Inr i \<Rightarrow> Inr i)"

text \<open>\<open>INSERT INTO agents\<close>: the name is unique.\<close>

definition insert_agent :: "agent_row \<Rightarrow> enroldb \<Rightarrow> enrol_error + enroldb" where
  "insert_agent a db =
     (if er_Name a \<in> er_Name ` set (en_agents db) then Inl NameExists else Inr (db\<lparr>en_agents := en_agents db @ [a]\<rparr>))"

definition new_agent :: "int \<Rightarrow> string \<Rightarrow> u8 list \<Rightarrow> agent_row" where
  "new_agent i name pub = \<lparr>er_ID = i, er_Name = name, er_PubKey = Some pub, er_Enabled = True, er_LastSeen = None, er_Version = None\<rparr>"

text \<open>The id is taken outside any transaction, so it is spent even where the insert fails.\<close>

definition AddAgent :: "string \<Rightarrow> u8 list \<Rightarrow> enroldb \<Rightarrow> enroldb \<times> (enrol_error + agent_row)" where
  "AddAgent name pub db =
     (case validAgentName name of
        Inl e \<Rightarrow> (db, Inl e)
      | Inr _ \<Rightarrow>
          if length pub \<noteq> 32 then (db, Inl (BadKey (length pub)))
          else (case allocAgentID db of
              Inl e \<Rightarrow> (db, Inl e)
            | Inr i \<Rightarrow>
                (case insert_agent (new_agent i name pub) (db\<lparr>en_seq := i\<rparr>) of
                   Inl e \<Rightarrow> (db\<lparr>en_seq := i\<rparr>, Inl e)
                 | Inr db' \<Rightarrow> (db', Inr (new_agent i name pub)))))"

definition update_agent :: "int \<Rightarrow> (agent_row \<Rightarrow> agent_row) \<Rightarrow> enroldb \<Rightarrow> enroldb" where
  "update_agent i f db = db\<lparr>en_agents := map (\<lambda>a. if er_ID a = i then f a else a) (en_agents db)\<rparr>"

definition SetAgentEnabled :: "int \<Rightarrow> bool \<Rightarrow> enroldb \<Rightarrow> enrol_error + enroldb" where
  "SetAgentEnabled i enabled db =
     (if i \<notin> er_ID ` set (en_agents db) then Inl (NoSuchAgent i) else Inr (update_agent i (\<lambda>a. a\<lparr>er_Enabled := enabled\<rparr>) db))"

definition RemoveAgent :: "int \<Rightarrow> enroldb \<Rightarrow> enrol_error + enroldb" where
  "RemoveAgent i db =
     (if i = 0 then Inl LocalAgent
      else if i \<in> set (en_history db) then Inl (ErrAgentHasHistory i)
      else if i \<notin> er_ID ` set (en_agents db) then Inl (NoSuchAgent i)
      else Inr (db\<lparr>en_tokens := map (\<lambda>t. if tk_Agent t = Some i then t\<lparr>tk_Agent := None\<rparr> else t) (en_tokens db),
                   en_agents := filter (\<lambda>a. er_ID a \<noteq> i) (en_agents db)\<rparr>))"

definition TouchAgent :: "int \<Rightarrow> int \<Rightarrow> string \<Rightarrow> enroldb \<Rightarrow> enroldb" where
  "TouchAgent i at' version db =
     update_agent i (\<lambda>a. if version = '''' then a\<lparr>er_LastSeen := Some at'\<rparr>
       else a\<lparr>er_LastSeen := Some at', er_Version := Some version\<rparr>) db"

section \<open>Enrolment tokens\<close>

definition unix :: "int \<Rightarrow> int" where
  "unix ns = ns div 1000000000"

definition TokenPrefix :: string where "TokenPrefix = ''smk_''"

definition MintEnrolmentToken :: "(string \<Rightarrow> string) \<Rightarrow> string \<Rightarrow> string \<Rightarrow> int \<Rightarrow> int \<Rightarrow> enroldb \<Rightarrow> enrol_error + (enroldb \<times> token \<times> string)" where
  "MintEnrolmentToken hash random name ttl now db =
     (let name = trim_space name; plain = TokenPrefix @ random
      in rbind (validAgentName name) (\<lambda>_.
         rbind (check (ttl \<le> 0) TTLNotPositive) (\<lambda>_.
         rbind (check (name \<in> er_Name ` set (en_agents db)) ErrNameTaken) (\<lambda>_.
         rbind (check (hash plain \<in> tk_Hash ` set (en_tokens db)) HashExists) (\<lambda>_.
           let t = \<lparr>tk_ID = foldl (\<lambda>m t. max m (tk_ID t)) 0 (en_tokens db) + 1, tk_Hash = hash plain, tk_Name = name,
                 tk_Created = unix now, tk_Expires = unix (now + ttl), tk_Used = None, tk_Agent = None\<rparr>
           in Inr (db\<lparr>en_tokens := en_tokens db @ [t]\<rparr>, t, plain))))))"

definition RedeemEnrolmentToken :: "(string \<Rightarrow> string) \<Rightarrow> string \<Rightarrow> u8 list \<Rightarrow> int \<Rightarrow> enroldb \<Rightarrow> enrol_error + (enroldb \<times> agent_row)" where
  "RedeemEnrolmentToken hash tok pub now db =
     rbind (check (length pub \<noteq> 32) (BadKey (length pub))) (\<lambda>_.
     case find (\<lambda>t. tk_Hash t = hash tok) (en_tokens db) of
       None \<Rightarrow> Inl NoSuchToken
     | Some t \<Rightarrow>
         rbind (case tk_Used t of Some at' \<Rightarrow> Inl (AlreadyRedeemed at') | None \<Rightarrow> Inr ()) (\<lambda>_.
         rbind (check (unix now > tk_Expires t) (Expired (tk_Expires t))) (\<lambda>_.
         rbind (check (tk_Name t \<in> er_Name ` set (en_agents db)) ErrNameTaken) (\<lambda>_.
         rbind (allocAgentID db) (\<lambda>i.
         rbind (insert_agent (new_agent i (tk_Name t) pub) (db\<lparr>en_seq := i\<rparr>)) (\<lambda>db.
           Inr (db\<lparr>en_tokens := map (\<lambda>x. if tk_ID x = tk_ID t then x\<lparr>tk_Used := Some (unix now), tk_Agent := Some i\<rparr> else x)
                     (en_tokens db)\<rparr>,
                new_agent i (tk_Name t) pub)))))))"

text \<open>\<open>errors.Is(err, ErrTokenInvalid)\<close>\<close>

fun ErrTokenInvalid :: "enrol_error \<Rightarrow> bool" where
  "ErrTokenInvalid NoSuchToken = True"
| "ErrTokenInvalid (AlreadyRedeemed _) = True"
| "ErrTokenInvalid (Expired _) = True"
| "ErrTokenInvalid _ = False"

definition RevokeEnrolmentToken :: "int \<Rightarrow> enroldb \<Rightarrow> enrol_error + enroldb" where
  "RevokeEnrolmentToken i db =
     (if \<not> (\<exists>t \<in> set (en_tokens db). tk_ID t = i \<and> tk_Used t = None) then Inl (NoUnspent i)
      else Inr (db\<lparr>en_tokens := filter (\<lambda>t. \<not> (tk_ID t = i \<and> tk_Used t = None)) (en_tokens db)\<rparr>))"

section \<open>Renaming\<close>

text \<open>The list of one target: split into words, the old name replaced, joined again only if it was there.\<close>

definition rename_words :: "string \<Rightarrow> string \<Rightarrow> string list \<Rightarrow> string list" where
  "rename_words old name ws = map (\<lambda>w. if w = old then name else w) ws"

definition renamed :: "string \<Rightarrow> string \<Rightarrow> target \<Rightarrow> target option" where
  "renamed old name t =
     (case Agents (t_Settings t) of
        None \<Rightarrow> None
      | Some l \<Rightarrow>
          if old \<in> set (Prelude.fields l)
          then Some (t\<lparr>t_Settings := (t_Settings t)\<lparr>Agents := Some (join '' '' (rename_words old name (Prelude.fields l)))\<rparr>\<rparr>)
          else None)"

definition RenameAgent :: "int \<Rightarrow> string \<Rightarrow> enroldb \<Rightarrow> enrol_error + (enroldb \<times> nat)" where
  "RenameAgent i name db =
     (let name = trim_space name
      in rbind (validAgentName name) (\<lambda>_.
         rbind (check (\<exists>a \<in> set (en_agents db). er_Name a = name \<and> er_ID a \<noteq> i) ErrNameTaken) (\<lambda>_.
           case find (\<lambda>a. er_ID a = i) (en_agents db) of
             None \<Rightarrow> Inl (NoSuchAgent i)
           | Some a \<Rightarrow>
               if er_Name a = name then Inr (db, 0)
               else
                 let db = update_agent i (\<lambda>a. a\<lparr>er_Name := name\<rparr>) db;
                     changes = filter (\<lambda>t. renamed (er_Name a) name t \<noteq> None) (en_targets db)
                 in Inr (db\<lparr>en_targets := map (\<lambda>t. case renamed (er_Name a) name t of None \<Rightarrow> t | Some t' \<Rightarrow> t') (en_targets db)\<rparr>,
                         length changes))))"

section \<open>The handlers\<close>

definition defaultTokenTTL :: int where "defaultTokenTTL = 3600 * 1000000000"
definition maxTokenTTL :: int where "maxTokenTTL = 24 * 3600 * 1000000000"

datatype enrol_answer = AnswerBad string | AnswerRejected | AnswerInternal | AnswerNameTaken | AnswerHistory | AnswerError enrol_error

text \<open>\<open>time.Duration(body.TTLS) * time.Second\<close> wraps at 64 bits.\<close>

definition handleMintEnrolToken :: "(string \<Rightarrow> string) \<Rightarrow> string \<Rightarrow> string \<Rightarrow> int \<Rightarrow> int \<Rightarrow> enroldb \<Rightarrow> enroldb \<times> (enrol_answer + token \<times> string)" where
  "handleMintEnrolToken hash random name ttl_s now db =
     (let ttl = (if ttl_s > 0 then wrap64 (ttl_s * 1000000000) else defaultTokenTTL)
      in if ttl > maxTokenTTL then (db, Inl (AnswerBad ''an enrolment token may not live longer than 24 hours''))
         else case MintEnrolmentToken hash random name ttl now db of
           Inl ErrNameTaken \<Rightarrow> (db, Inl AnswerNameTaken)
         | Inl e \<Rightarrow> (db, Inl (AnswerError e))
         | Inr (db', t, plain) \<Rightarrow> (db', Inr (t, plain)))"

text \<open>\<open>pub\<close> is the decoded key, if it decodes. A refused token gets one answer, whatever the reason.\<close>

definition handleEnrol :: "(string \<Rightarrow> string) \<Rightarrow> string \<Rightarrow> u8 list option \<Rightarrow> int \<Rightarrow> enroldb \<Rightarrow> enroldb \<times> (enrol_answer + int \<times> string)" where
  "handleEnrol hash tok pub now db =
     (case pub of
        None \<Rightarrow> (db, Inl (AnswerBad ''pubkey must be a base64-encoded Ed25519 public key''))
      | Some key \<Rightarrow>
          if length key \<noteq> 32 then (db, Inl (AnswerBad ''pubkey must be a base64-encoded Ed25519 public key''))
          else (case RedeemEnrolmentToken hash tok key now db of
              Inl e \<Rightarrow> (db, Inl (if ErrTokenInvalid e then AnswerRejected else if e = ErrNameTaken then AnswerNameTaken else AnswerInternal))
            | Inr (db', a) \<Rightarrow> (db', Inr (er_ID a, er_Name a))))"

text \<open>Renaming and enabling are two transactions: the first stays where the second fails.\<close>

definition handleUpdateAgent :: "int \<Rightarrow> string option \<Rightarrow> bool option \<Rightarrow> enroldb \<Rightarrow> enroldb \<times> (enrol_answer + unit)" where
  "handleUpdateAgent i name enabled db =
     (if i = 0 then (db, Inl (AnswerBad ''the built-in local agent cannot be renamed or disabled''))
      else case (case name of None \<Rightarrow> Inr db | Some n \<Rightarrow> rbind (RenameAgent i n db) (\<lambda>(db, _). Inr db)) of
        Inl e \<Rightarrow> (db, Inl (AnswerError e))
      | Inr db \<Rightarrow>
          (case enabled of
             None \<Rightarrow> (db, Inr ())
           | Some b \<Rightarrow> (case SetAgentEnabled i b db of Inl e \<Rightarrow> (db, Inl (AnswerError e)) | Inr db \<Rightarrow> (db, Inr ()))))"

definition handleDeleteAgent :: "int \<Rightarrow> enroldb \<Rightarrow> enroldb \<times> (enrol_answer + unit)" where
  "handleDeleteAgent i db =
     (if i = 0 then (db, Inl (AnswerBad ''the built-in local agent cannot be removed''))
      else case RemoveAgent i db of
        Inl (ErrAgentHasHistory _) \<Rightarrow> (db, Inl AnswerHistory)
      | Inl e \<Rightarrow> (db, Inl (AnswerError e))
      | Inr db' \<Rightarrow> (db', Inr ()))"

definition handleRevokeEnrolToken :: "int \<Rightarrow> enroldb \<Rightarrow> enroldb \<times> (enrol_answer + unit)" where
  "handleRevokeEnrolToken i db = (case RevokeEnrolmentToken i db of Inl e \<Rightarrow> (db, Inl (AnswerError e)) | Inr db' \<Rightarrow> (db', Inr ()))"

text \<open>What the list of tokens says of one.\<close>

definition token_state :: "int \<Rightarrow> token \<Rightarrow> bool \<times> bool" where
  "token_state now t = (tk_Used t \<noteq> None \<and> tk_Used t \<noteq> Some 0, (tk_Used t = None \<or> tk_Used t = Some 0) \<and> unix now > tk_Expires t)"


section \<open>Histories\<close>

text \<open>Everything that changes these tables, from the API, from \<open>smokeng agent add\<close> and from ingestion.\<close>

datatype enrol_op =
    OpMint string string int int
  | OpEnrol string "u8 list option" int
  | OpRevoke int
  | OpUpdate int "string option" "bool option"
  | OpDelete int
  | OpAdd string "u8 list"
  | OpTouch int int string
  | OpMeasured int

fun enrol_step :: "(string \<Rightarrow> string) \<Rightarrow> enrol_op \<Rightarrow> enroldb \<Rightarrow> enroldb" where
  "enrol_step hash (OpMint random name ttl now) db = fst (handleMintEnrolToken hash random name ttl now db)"
| "enrol_step hash (OpEnrol tok pub now) db = fst (handleEnrol hash tok pub now db)"
| "enrol_step hash (OpRevoke i) db = fst (handleRevokeEnrolToken i db)"
| "enrol_step hash (OpUpdate i name enabled) db = fst (handleUpdateAgent i name enabled db)"
| "enrol_step hash (OpDelete i) db = fst (handleDeleteAgent i db)"
| "enrol_step hash (OpAdd name pub) db = fst (AddAgent name pub db)"
| "enrol_step hash (OpTouch i at' v) db = TouchAgent i at' v db"
| "enrol_step hash (OpMeasured i) db = db\<lparr>en_history := i # en_history db\<rparr>"

abbreviation enrol_run :: "(string \<Rightarrow> string) \<Rightarrow> enrol_op list \<Rightarrow> enroldb \<Rightarrow> enroldb" where
  "enrol_run hash \<equiv> fold (enrol_step hash)"

definition enrol_ok :: "enroldb \<Rightarrow> bool" where
  "enrol_ok db \<longleftrightarrow> distinct (map er_ID (en_agents db)) \<and> distinct (map er_Name (en_agents db)) \<and>
     (\<forall>a \<in> set (en_agents db). er_ID a \<le> en_seq db) \<and>
     distinct (map tk_ID (en_tokens db)) \<and> distinct (map tk_Hash (en_tokens db))"

text \<open>A token that was redeemed stays in the table, redeemed.\<close>

definition spent :: "string \<Rightarrow> enroldb \<Rightarrow> bool" where
  "spent h db \<longleftrightarrow> (\<exists>t \<in> set (en_tokens db). tk_Hash t = h \<and> tk_Used t \<noteq> None)"

lemma spentI: "t \<in> set (en_tokens db) \<Longrightarrow> tk_Hash t = h \<Longrightarrow> tk_Used t \<noteq> None \<Longrightarrow> spent h db"
  unfolding spent_def by blast

definition keeps_enrol :: "enroldb \<Rightarrow> enroldb \<Rightarrow> bool" where
  "keeps_enrol db db' \<longleftrightarrow> (enrol_ok db \<longrightarrow> enrol_ok db' \<and> en_seq db \<le> en_seq db' \<and> (\<forall>h. spent h db \<longrightarrow> spent h db') \<and>
     (\<forall>i \<in> er_ID ` set (en_agents db'). i \<in> er_ID ` set (en_agents db) \<or> en_seq db < i))"

lemma keeps_enrol_refl [simp]: "keeps_enrol db db"
  by (simp add: keeps_enrol_def)

lemma keeps_enrol_trans: "keeps_enrol a b \<Longrightarrow> keeps_enrol b c \<Longrightarrow> keeps_enrol a c"
  unfolding keeps_enrol_def by (meson le_less_trans order_trans)

lemma alloc_fresh:
  assumes "\<forall>a \<in> set (en_agents db). er_ID a \<le> en_seq db"
  shows "allocAgentID db = Inr (en_seq db + 1)"
proof -
  have "en_seq db + 1 \<notin> er_ID ` set (en_agents db)" using assms by force
  then show ?thesis by (simp add: allocAgentID_def eval_nat_numeral)
qed

lemma insert_agent_keeps:
  assumes "enrol_ok db" and "insert_agent (new_agent (en_seq db + 1) name pub) (db\<lparr>en_seq := en_seq db + 1\<rparr>) = Inr db'"
  shows "keeps_enrol db db'" and "db' = db\<lparr>en_seq := en_seq db + 1, en_agents := en_agents db @ [new_agent (en_seq db + 1) name pub]\<rparr>"
    and "name \<notin> er_Name ` set (en_agents db)"
proof -
  show d: "db' = db\<lparr>en_seq := en_seq db + 1, en_agents := en_agents db @ [new_agent (en_seq db + 1) name pub]\<rparr>"
    and n: "name \<notin> er_Name ` set (en_agents db)"
    using assms(2) by (auto simp: insert_agent_def new_agent_def split: if_split_asm)
  have "en_seq db + 1 \<notin> er_ID ` set (en_agents db)" using assms(1) by (force simp: enrol_ok_def)
  then show "keeps_enrol db db'"
    using n assms(1) by (auto simp: d keeps_enrol_def enrol_ok_def spent_def new_agent_def)
qed

lemma max_token_id: "t \<in> set ts \<Longrightarrow> tk_ID t \<le> foldl (\<lambda>m t. max m (tk_ID t)) m ts"
proof (induction ts arbitrary: m)
  case (Cons x ts)
  have grow: "m \<le> foldl (\<lambda>m t. max m (tk_ID t)) m ts" for m
  proof (induction ts arbitrary: m)
    case (Cons y ys)
    have "max m (tk_ID y) \<le> foldl (\<lambda>m t. max m (tk_ID t)) (max m (tk_ID y)) ys" by (rule Cons.IH)
    then show ?case by simp
  qed simp
  show ?case
  proof (cases "t = x")
    case True
    then show ?thesis using grow [of "max m (tk_ID x)"] by simp
  qed (use Cons in auto)
qed simp

lemma Mint_keeps:
  assumes "MintEnrolmentToken hash random name ttl now db = Inr (db', t, plain)"
  shows "keeps_enrol db db'"
proof -
  from assms obtain t where t: "db' = db\<lparr>en_tokens := en_tokens db @ [t]\<rparr>" "tk_Hash t \<notin> tk_Hash ` set (en_tokens db)"
    "tk_ID t = foldl (\<lambda>m t. max m (tk_ID t)) 0 (en_tokens db) + 1"
    by (auto simp: MintEnrolmentToken_def Let_def rbind_Inr_iff)
  have "tk_ID t \<notin> tk_ID ` set (en_tokens db)" using max_token_id [of _ "en_tokens db" 0] t(3) by force
  then show ?thesis using t(2) by (auto simp: t(1) keeps_enrol_def enrol_ok_def spent_def)
qed

lemma Redeem_cases:
  assumes "enrol_ok db" and "RedeemEnrolmentToken hash tok pub now db = Inr (db', a)"
  obtains t where "t \<in> set (en_tokens db)" "tk_Hash t = hash tok" "tk_Used t = None" "unix now \<le> tk_Expires t"
    "tk_Name t \<notin> er_Name ` set (en_agents db)" "a = new_agent (en_seq db + 1) (tk_Name t) pub"
    "db' = db\<lparr>en_seq := en_seq db + 1, en_agents := en_agents db @ [a],
       en_tokens := map (\<lambda>x. if tk_ID x = tk_ID t then x\<lparr>tk_Used := Some (unix now), tk_Agent := Some (en_seq db + 1)\<rparr> else x) (en_tokens db)\<rparr>"
    "keeps_enrol db db'" "spent (hash tok) db'"
proof -
  have alloc: "allocAgentID db = Inr (en_seq db + 1)" using assms(1) by (intro alloc_fresh) (simp add: enrol_ok_def)
  from assms(2) obtain t db1 where f: "find (\<lambda>t. tk_Hash t = hash tok) (en_tokens db) = Some t"
    and u: "tk_Used t = None" "unix now \<le> tk_Expires t"
    and i: "insert_agent (new_agent (en_seq db + 1) (tk_Name t) pub) (db\<lparr>en_seq := en_seq db + 1\<rparr>) = Inr db1"
    and a: "a = new_agent (en_seq db + 1) (tk_Name t) pub"
    and d: "db' = db1\<lparr>en_tokens := map (\<lambda>x. if tk_ID x = tk_ID t then x\<lparr>tk_Used := Some (unix now), tk_Agent := Some (en_seq db + 1)\<rparr> else x)
       (en_tokens db1)\<rparr>"
    by (auto simp: RedeemEnrolmentToken_def rbind_Inr_iff alloc split: option.split_asm)
  have t: "t \<in> set (en_tokens db)" "tk_Hash t = hash tok" using f by (auto simp: find_Some_iff)
  note ins = insert_agent_keeps [OF assms(1) i]
  let ?g = "\<lambda>x :: token. if tk_ID x = tk_ID t then x\<lparr>tk_Used := Some (unix now), tk_Agent := Some (en_seq db + 1)\<rparr> else x"
  have toks: "tk_ID \<circ> ?g = tk_ID" "tk_Hash \<circ> ?g = tk_Hash" by (simp_all add: fun_eq_iff)
  have dt: "en_tokens db' = map ?g (en_tokens db1)" by (simp add: d)
  have "spent h db'" if s: "spent h db1" for h
  proof -
    from s obtain t0 where "t0 \<in> set (en_tokens db1)" "tk_Hash t0 = h" "tk_Used t0 \<noteq> None" unfolding spent_def by blast
    then have "?g t0 \<in> set (en_tokens db')" "tk_Hash (?g t0) = h" "tk_Used (?g t0) \<noteq> None" by (simp_all add: dt)
    then show ?thesis by (rule spentI)
  qed
  moreover have "spent (hash tok) db'"
  proof -
    have "t \<in> set (en_tokens db1)" using t(1) ins(2) by simp
    then have "?g t \<in> set (en_tokens db')" unfolding dt set_map by (rule imageI)
    then show ?thesis by (rule spentI) (use t(2) in simp_all)
  qed
  moreover have "enrol_ok db1 \<longrightarrow> enrol_ok db'" unfolding enrol_ok_def d using toks by simp
  ultimately have "keeps_enrol db1 db'" unfolding keeps_enrol_def d by simp
  then have "keeps_enrol db db'" by (rule keeps_enrol_trans [OF ins(1)])
  then show thesis using that [OF t u ins(3) a] d ins(2) a \<open>spent (hash tok) db'\<close> by simp
qed


lemma keeps_enrolI: "(enrol_ok db \<Longrightarrow> keeps_enrol db db') \<Longrightarrow> keeps_enrol db db'"
  by (simp add: keeps_enrol_def)

lemma update_agent_keeps:
  assumes "\<And>a. er_ID (f a) = er_ID a" and "enrol_ok db \<Longrightarrow> distinct (map er_Name (en_agents (update_agent i f db)))"
  shows "keeps_enrol db (update_agent i f db)"
proof (rule keeps_enrolI)
  assume ok: "enrol_ok db"
  let ?g = "\<lambda>a. if er_ID a = i then f a else a"
  have id: "er_ID (?g a) = er_ID a" for a using assms(1) by simp
  have ids: "er_ID \<circ> ?g = er_ID" using id by (simp add: fun_eq_iff)
  have im: "er_ID ` ?g ` A = er_ID ` A" for A by (simp only: image_image id)
  have ag: "en_agents (update_agent i f db) = map ?g (en_agents db)" by (simp add: update_agent_def)
  have bnd: "er_ID a \<le> en_seq db" if "a \<in> set (map ?g (en_agents db))" for a
  proof -
    have "er_ID a \<in> er_ID ` ?g ` set (en_agents db)" using that by (metis imageI set_map)
    then have "er_ID a \<in> er_ID ` set (en_agents db)" unfolding im .
    then show ?thesis using ok by (auto simp: enrol_ok_def)
  qed
  have rest: "en_tokens (update_agent i f db) = en_tokens db" "en_seq (update_agent i f db) = en_seq db"
    by (simp_all add: update_agent_def)
  have "enrol_ok (update_agent i f db)"
    unfolding enrol_ok_def rest using ok assms(2) [OF ok] bnd unfolding enrol_ok_def ag by (simp add: ids)
  moreover have "er_ID ` set (en_agents (update_agent i f db)) = er_ID ` set (en_agents db)" unfolding ag set_map by (rule im)
  ultimately show "keeps_enrol db (update_agent i f db)" by (simp add: keeps_enrol_def rest spent_def)
qed

lemma update_agent_same_name:
  assumes "\<And>a. er_ID (f a) = er_ID a" and "\<And>a. er_Name (f a) = er_Name a"
  shows "keeps_enrol db (update_agent i f db)"
proof (rule update_agent_keeps [OF assms(1)])
  assume "enrol_ok db"
  moreover have "map er_Name (en_agents (update_agent i f db)) = map er_Name (en_agents db)"
    using assms(2) by (simp add: update_agent_def)
  ultimately show "distinct (map er_Name (en_agents (update_agent i f db)))" by (simp add: enrol_ok_def)
qed

lemma rename_distinct:
  assumes "distinct (map er_ID as)" and "distinct (map er_Name as)" and "\<not> (\<exists>a \<in> set as. er_Name a = name \<and> er_ID a \<noteq> i)"
  shows "distinct (map er_Name (map (\<lambda>a. if er_ID a = i then a\<lparr>er_Name := name\<rparr> else a) as))"
  using assms
proof (induction as)
  case (Cons a as)
  let ?g = "\<lambda>a. if er_ID a = i then a\<lparr>er_Name := name\<rparr> else a"
  have "er_Name (?g a) \<noteq> er_Name (?g b)" if b: "b \<in> set as" for b
  proof -
    have "er_ID a \<noteq> er_ID b" "er_Name a \<noteq> er_Name b" using Cons.prems(1,2) b by auto
    then show ?thesis using Cons.prems(3) b by auto
  qed
  then have "er_Name (?g a) \<notin> er_Name ` ?g ` set as" by blast
  moreover have "distinct (map er_Name (map ?g as))" by (rule Cons.IH) (use Cons.prems in auto)
  ultimately show ?case unfolding list.map distinct.simps set_map by blast
qed simp

text \<open>The tables agree but for the targets and the agents with history.\<close>

lemma keeps_enrol_other [simp]:
  "keeps_enrol db (db\<lparr>en_targets := ts\<rparr>)" "keeps_enrol db (db\<lparr>en_history := h\<rparr>)"
  by (simp_all add: keeps_enrol_def enrol_ok_def spent_def)

lemma Rename_keeps:
  assumes "RenameAgent i name db = Inr (db', n)"
  shows "keeps_enrol db db'"
proof (rule keeps_enrolI)
  assume ok: "enrol_ok db"
  let ?name = "trim_space name"
  from assms have u: "\<not> (\<exists>a \<in> set (en_agents db). er_Name a = ?name \<and> er_ID a \<noteq> i)"
    by (auto simp: RenameAgent_def Let_def rbind_Inr_iff)
  have k: "keeps_enrol db (update_agent i (\<lambda>a. a\<lparr>er_Name := ?name\<rparr>) db)"
    by (rule update_agent_keeps) (use rename_distinct [OF _ _ u] in \<open>simp_all add: enrol_ok_def update_agent_def\<close>)
  from assms u have "db' = db \<or> (\<exists>ts. db' = update_agent i (\<lambda>a. a\<lparr>er_Name := ?name\<rparr>) db\<lparr>en_targets := ts\<rparr>)"
    by (auto simp: RenameAgent_def Let_def rbind_Inr_iff split: option.split_asm if_split_asm)
  then show "keeps_enrol db db'" using keeps_enrol_trans [OF k] by auto
qed

lemma AddAgent_keeps: "keeps_enrol db (fst (AddAgent name pub db))"
proof (rule keeps_enrolI)
  assume ok: "enrol_ok db"
  have alloc: "allocAgentID db = Inr (en_seq db + 1)" using ok by (intro alloc_fresh) (simp add: enrol_ok_def)
  show "keeps_enrol db (fst (AddAgent name pub db))"
  proof (cases "insert_agent (new_agent (en_seq db + 1) name pub) (db\<lparr>en_seq := en_seq db + 1\<rparr>)")
    case (Inl e)
    have "keeps_enrol db (db\<lparr>en_seq := en_seq db + 1\<rparr>)" using ok by (auto simp: keeps_enrol_def enrol_ok_def spent_def)
    then show ?thesis by (simp add: AddAgent_def alloc Inl split: sum.split)
  next
    case (Inr db')
    show ?thesis using insert_agent_keeps(1) [OF ok Inr] by (simp add: AddAgent_def alloc Inr split: sum.split)
  qed
qed

lemma Remove_keeps:
  assumes "RemoveAgent i db = Inr db'"
  shows "keeps_enrol db db'"
proof -
  let ?g = "\<lambda>t :: token. if tk_Agent t = Some i then t\<lparr>tk_Agent := None\<rparr> else t"
  from assms have d: "db' = db\<lparr>en_tokens := map ?g (en_tokens db), en_agents := filter (\<lambda>a. er_ID a \<noteq> i) (en_agents db)\<rparr>"
    by (auto simp: RemoveAgent_def split: if_split_asm)
  have toks: "tk_ID \<circ> ?g = tk_ID" "tk_Hash \<circ> ?g = tk_Hash" by (simp_all add: fun_eq_iff)
  have "spent h db'" if s: "spent h db" for h
  proof -
    from s obtain t0 where "t0 \<in> set (en_tokens db)" "tk_Hash t0 = h" "tk_Used t0 \<noteq> None" unfolding spent_def by blast
    then have "?g t0 \<in> set (en_tokens db')" "tk_Hash (?g t0) = h" "tk_Used (?g t0) \<noteq> None" by (simp_all add: d)
    then show ?thesis by (rule spentI)
  qed
  moreover have "enrol_ok db \<longrightarrow> enrol_ok db'" unfolding enrol_ok_def d using toks by (simp add: distinct_map_filter)
  moreover have "er_ID ` set (en_agents db') \<subseteq> er_ID ` set (en_agents db)" "en_seq db' = en_seq db" by (auto simp: d)
  ultimately show ?thesis unfolding keeps_enrol_def by auto
qed

lemma Revoke_keeps:
  assumes "RevokeEnrolmentToken i db = Inr db'"
  shows "keeps_enrol db db'"
proof -
  from assms have d: "db' = db\<lparr>en_tokens := filter (\<lambda>t. \<not> (tk_ID t = i \<and> tk_Used t = None)) (en_tokens db)\<rparr>"
    by (auto simp: RevokeEnrolmentToken_def split: if_split_asm)
  then show ?thesis by (auto simp: keeps_enrol_def enrol_ok_def spent_def distinct_map_filter)
qed

lemma Redeem_keeps:
  assumes "RedeemEnrolmentToken hash tok pub now db = Inr (db', a)"
  shows "keeps_enrol db db'"
proof (rule keeps_enrolI)
  assume "enrol_ok db"
  then show "keeps_enrol db db'" by (rule Redeem_cases [OF _ assms])
qed


lemma enrol_step_keeps: "keeps_enrol db (enrol_step hash x db)"
proof (cases x)
  case (OpMint random name ttl now)
  show ?thesis
  proof (cases "MintEnrolmentToken hash random name (if ttl > 0 then wrap64 (ttl * 1000000000) else defaultTokenTTL) now db")
    case (Inl e)
    then show ?thesis by (cases e) (simp_all add: OpMint handleMintEnrolToken_def Let_def)
  next
    case (Inr r)
    obtain db' t plain where "r = (db', t, plain)" by (cases r)
    then show ?thesis using Mint_keeps [of hash random name] Inr by (auto simp: OpMint handleMintEnrolToken_def Let_def)
  qed
next
  case (OpEnrol tok pub now)
  then show ?thesis by (auto simp: handleEnrol_def dest: Redeem_keeps split: option.split sum.split)
next
  case (OpRevoke i)
  then show ?thesis by (auto simp: handleRevokeEnrolToken_def dest: Revoke_keeps split: sum.split)
next
  case (OpUpdate i name enabled)
  have en: "keeps_enrol db' (case enabled of None \<Rightarrow> db' | Some b \<Rightarrow> (case SetAgentEnabled i b db' of Inl e \<Rightarrow> db' | Inr d \<Rightarrow> d))" for db'
    by (auto simp: SetAgentEnabled_def update_agent_same_name split: option.split)
  have f: "fst (case enabled of None \<Rightarrow> (db', Inr ()) | Some b \<Rightarrow> (case SetAgentEnabled i b db' of Inl e \<Rightarrow> (db', Inl (AnswerError e)) | Inr d \<Rightarrow> (d, Inr ()))) =
    (case enabled of None \<Rightarrow> db' | Some b \<Rightarrow> (case SetAgentEnabled i b db' of Inl e \<Rightarrow> db' | Inr d \<Rightarrow> d))" for db'
    by (auto split: option.split sum.split)
  show ?thesis
  proof (cases "case name of None \<Rightarrow> Inr db | Some n \<Rightarrow> rbind (RenameAgent i n db) (\<lambda>(db, _). Inr db)")
    case (Inl e)
    then show ?thesis by (simp add: OpUpdate handleUpdateAgent_def)
  next
    case (Inr d)
    then have "keeps_enrol db d" by (auto simp: rbind_Inr_iff dest: Rename_keeps split: option.split_asm)
    then have "keeps_enrol db (case enabled of None \<Rightarrow> d | Some b \<Rightarrow> (case SetAgentEnabled i b d of Inl e \<Rightarrow> d | Inr d \<Rightarrow> d))"
      by (rule keeps_enrol_trans [OF _ en])
    then show ?thesis by (simp add: OpUpdate handleUpdateAgent_def Inr f)
  qed
next
  case (OpDelete i)
  then show ?thesis by (auto simp: handleDeleteAgent_def dest: Remove_keeps split: sum.split enrol_error.split)
next
  case (OpAdd name pub)
  then show ?thesis by (simp add: AddAgent_keeps)
next
  case (OpTouch i at' v)
  then show ?thesis by (simp add: TouchAgent_def update_agent_same_name)
next
  case (OpMeasured i)
  then show ?thesis by simp
qed

lemma enrol_run_keeps: "keeps_enrol db (enrol_run hash ops db)"
proof (induction ops arbitrary: db)
  case (Cons x ops)
  have "keeps_enrol db (enrol_run hash ops (enrol_step hash x db))" by (rule keeps_enrol_trans [OF enrol_step_keeps Cons.IH])
  then show ?case by simp
qed simp

lemma spent_rejected:
  assumes "enrol_ok db" and "spent (hash tok) db" and "length key = 32"
  shows "handleEnrol hash tok (Some key) now db = (db, Inl AnswerRejected)"
proof -
  from assms(2) obtain t where t: "t \<in> set (en_tokens db)" "tk_Hash t = hash tok" "tk_Used t \<noteq> None" unfolding spent_def by blast
  then obtain t' where f: "find (\<lambda>t. tk_Hash t = hash tok) (en_tokens db) = Some t'"
    by (cases "find (\<lambda>t. tk_Hash t = hash tok) (en_tokens db)") (auto simp: find_None_iff)
  then have "t' \<in> set (en_tokens db)" "tk_Hash t' = tk_Hash t" using t by (auto simp: find_Some_iff)
  then have "t' = t" using assms(1) t(1) unfolding enrol_ok_def by (metis distinct_map inj_onD)
  then show ?thesis using f t(3) assms(3) by (auto simp: handleEnrol_def RedeemEnrolmentToken_def)
qed

text \<open>The id of an agent that is let in is one past the sequence.\<close>

lemma handleEnrol_id:
  assumes "enrol_ok db" and "handleEnrol hash tok key now db = (db', Inr (i, name))"
  shows "i = en_seq db + 1"
proof -
  from assms(2) obtain k a where "RedeemEnrolmentToken hash tok k now db = Inr (db', a)" "i = er_ID a"
    by (auto simp: handleEnrol_def split: if_split_asm sum.split_asm option.split_asm)
  then show ?thesis using Redeem_cases [OF assms(1), of hash tok k now db' a] by (metis agent_row.select_convs(1) new_agent_def)
qed

lemma AddAgent_id:
  assumes "enrol_ok db" and "AddAgent name pub db = (db', Inr a)"
  shows "er_ID a = en_seq db + 1"
proof -
  have "allocAgentID db = Inr (en_seq db + 1)" using assms(1) by (intro alloc_fresh) (simp add: enrol_ok_def)
  then show ?thesis using assms(2) by (auto simp: AddAgent_def new_agent_def split: if_split_asm sum.split_asm)
qed

text \<open>
  Property C36. A token enrols one agent, once. Where a redeem succeeds there was an unredeemed, unexpired
  token of that hash; the agent carries the name the token was minted for, which no agent had, an id above
  every id given out so far, and the key presented; no other agent is touched. Whatever then happens through
  the API, the command line and ingestion, removing agents included, the token answers \<open>AnswerRejected\<close> with any key and changes
  nothing, and the id is not given out again: every agent that is enrolled or added afterwards gets a greater one.
\<close>

theorem enrolment_once:
  assumes "enrol_ok db" and "handleEnrol hash tok (Some key) now db = (db', Inr (i, name))"
  shows "(\<exists>t \<in> set (en_tokens db). tk_Hash t = hash tok \<and> tk_Used t = None \<and> unix now \<le> tk_Expires t \<and> tk_Name t = name)
    \<and> en_seq db < i \<and> name \<notin> er_Name ` set (en_agents db) \<and> en_agents db' = en_agents db @ [new_agent i name key]
    \<and> (\<forall>ops. let db2 = enrol_run hash ops db' in enrol_ok db2
        \<and> (\<forall>key2 now2. length key2 = 32 \<longrightarrow> handleEnrol hash tok (Some key2) now2 db2 = (db2, Inl AnswerRejected))
        \<and> (\<forall>tok2 key2 now2 db3 j name2. handleEnrol hash tok2 key2 now2 db2 = (db3, Inr (j, name2)) \<longrightarrow> i < j)
        \<and> (\<forall>name2 pub db3 a. AddAgent name2 pub db2 = (db3, Inr a) \<longrightarrow> i < er_ID a))"
proof -
  from assms(2) obtain a where r: "RedeemEnrolmentToken hash tok key now db = Inr (db', a)" and a: "i = er_ID a" "name = er_Name a"
    by (auto simp: handleEnrol_def split: if_split_asm sum.split_asm)
  from assms(1) r obtain t where t: "t \<in> set (en_tokens db)" "tk_Hash t = hash tok" "tk_Used t = None" "unix now \<le> tk_Expires t"
    "tk_Name t \<notin> er_Name ` set (en_agents db)" "a = new_agent (en_seq db + 1) (tk_Name t) key"
    and ag: "en_agents db' = en_agents db @ [a]" and sq: "en_seq db' = en_seq db + 1"
    and k: "keeps_enrol db db'" "spent (hash tok) db'"
    by (rule Redeem_cases) simp
  have i: "i = en_seq db + 1" "name = tk_Name t" using a t(6) by (simp_all add: new_agent_def)
  have later: "let db2 = enrol_run hash ops db' in enrol_ok db2
        \<and> (\<forall>key2 now2. length key2 = 32 \<longrightarrow> handleEnrol hash tok (Some key2) now2 db2 = (db2, Inl AnswerRejected))
        \<and> (\<forall>tok2 key2 now2 db3 j name2. handleEnrol hash tok2 key2 now2 db2 = (db3, Inr (j, name2)) \<longrightarrow> i < j)
        \<and> (\<forall>name2 pub db3 a. AddAgent name2 pub db2 = (db3, Inr a) \<longrightarrow> i < er_ID a)" for ops
  proof -
    define db2 where "db2 = enrol_run hash ops db'"
    have "enrol_ok db'" using k(1) assms(1) by (simp add: keeps_enrol_def)
    then have d: "enrol_ok db2" "spent (hash tok) db2" "i \<le> en_seq db2"
      using enrol_run_keeps [of db' hash ops] k(2) unfolding keeps_enrol_def db2_def i(1) sq [symmetric] by blast+
    have "i < j" if "handleEnrol hash tok2 key2 now2 db2 = (db3, Inr (j, name2))" for tok2 key2 now2 db3 j name2
      using handleEnrol_id [OF d(1) that] d(3) by simp
    moreover have "i < er_ID a" if "AddAgent name2 pub db2 = (db3, Inr a)" for name2 pub db3 a
      using AddAgent_id [OF d(1) that] d(3) by simp
    ultimately show ?thesis unfolding db2_def [symmetric] Let_def using d(1) spent_rejected [where hash = hash and tok = tok, OF d(1,2)] by blast
  qed
  show ?thesis using t ag later by (auto simp: i simp del: fold_simps)
qed

text \<open>A mint and a redeem, and the same token again a moment later.\<close>

definition example_enrol :: enroldb where
  "example_enrol = \<lparr>en_agents = [\<lparr>er_ID = 0, er_Name = ''local'', er_PubKey = None, er_Enabled = True, er_LastSeen = None, er_Version = None\<rparr>],
     en_seq = 4, en_tokens = [\<lparr>tk_ID = 1, tk_Hash = ''h:smk_x'', tk_Name = ''ams-01'', tk_Created = 0, tk_Expires = 3600, tk_Used = None, tk_Agent = None\<rparr>],
     en_targets = [], en_history = []\<rparr>"

definition example_hash :: "string \<Rightarrow> string" where
  "example_hash s = ''h:'' @ s"

theorem enrolment_once_witness:
  "\<exists>db'. handleEnrol example_hash ''smk_x'' (Some (replicate 32 7)) (5 * 1000000000) example_enrol = (db', Inr (5, ''ams-01''))
     \<and> handleEnrol example_hash ''smk_x'' (Some (replicate 32 9)) (6 * 1000000000)
         (enrol_run example_hash [OpDelete 5, OpMint ''x'' ''fra-01'' 60 (5 * 1000000000)] db') =
       (enrol_run example_hash [OpDelete 5, OpMint ''x'' ''fra-01'' 60 (5 * 1000000000)] db', Inl AnswerRejected)
     \<and> (\<forall>db3 a. AddAgent ''fra-02'' (replicate 32 1) (enrol_run example_hash [OpDelete 5] db') = (db3, Inr a) \<longrightarrow> 5 < er_ID a)"
proof -
  have ok: "enrol_ok example_enrol" by (simp add: enrol_ok_def example_enrol_def)
  have alloc: "allocAgentID example_enrol = Inr 5"
    using alloc_fresh [of example_enrol] by (simp add: example_enrol_def)
  obtain db' where h: "handleEnrol example_hash ''smk_x'' (Some (replicate 32 7)) (5 * 1000000000) example_enrol = (db', Inr (5, ''ams-01''))"
    using alloc by (simp add: handleEnrol_def RedeemEnrolmentToken_def example_hash_def example_enrol_def unix_def insert_agent_def new_agent_def)
  note once = enrolment_once [OF ok h, THEN conjunct2, THEN conjunct2, THEN conjunct2, THEN conjunct2, unfolded Let_def, rule_format]
  show ?thesis
    using h once [THEN conjunct2, THEN conjunct1, rule_format, OF length_replicate]
      once [THEN conjunct2, THEN conjunct2, THEN conjunct2, rule_format] by blast
qed

lemma validAgentName_word:
  assumes "validAgentName name = Inr ()"
  shows "is_word name"
proof -
  from assms obtain rs where ne: "name \<noteq> ''''" and rs: "runes name = Some rs"
    and f: "find (\<lambda>r. IsSpace r \<or> IsControl r \<or> IsCf r) rs = None"
    by (auto simp: validAgentName_def split: if_split_asm option.split_asm)
  have "\<not> is_space c" if c: "c \<in> set name" for c
  proof
    assume sp: "is_space c"
    then have ascii: "of_char c < (0x80 :: nat)" and s: "IsSpace (of_char c)" by (auto simp: is_space_def IsSpace_def)
    have "of_char c \<in> set rs" using rune_of_ascii [of "map of_char name" rs "of_char c"] rs c ascii by (simp add: runes_def)
    then show False using f s by (auto simp: find_None_iff)
  qed
  then show ?thesis using ne by (simp add: is_word_def no_space_def list_all_iff)
qed

lemma rename_words_set:
  assumes "old \<noteq> name"
  shows "w \<in> set (rename_words old name ws) \<longleftrightarrow> (if w = name then old \<in> set ws \<or> name \<in> set ws else w \<noteq> old \<and> w \<in> set ws)"
  using assms by (auto simp: rename_words_def image_iff)

text \<open>Who measures a target by its own list.\<close>

definition measured_by :: "target \<Rightarrow> string \<Rightarrow> bool" where
  "measured_by t w \<longleftrightarrow> (case Agents (t_Settings t) of None \<Rightarrow> False | Some l \<Rightarrow> w \<in> set (Prelude.fields l))"

lemma renamed_target:
  fixes t :: target
  assumes "is_word name" and "old \<noteq> name"
  defines "t' \<equiv> (case renamed old name t of None \<Rightarrow> t | Some t' \<Rightarrow> t')"
  shows "t'\<lparr>t_Settings := (t_Settings t')\<lparr>Agents := Agents (t_Settings t)\<rparr>\<rparr> = t"
    and "(Agents (t_Settings t') = None) = (Agents (t_Settings t) = None)"
    and "measured_by t' w \<longleftrightarrow> (if w = name then measured_by t old \<or> measured_by t name else w \<noteq> old \<and> measured_by t w)"
    and "renamed old name t \<noteq> None \<longleftrightarrow> measured_by t old"
proof -
  show "t'\<lparr>t_Settings := (t_Settings t')\<lparr>Agents := Agents (t_Settings t)\<rparr>\<rparr> = t"
    and "(Agents (t_Settings t') = None) = (Agents (t_Settings t) = None)"
    by (simp_all add: t'_def renamed_def split: option.split)
  show "renamed old name t \<noteq> None \<longleftrightarrow> measured_by t old"
    by (simp add: renamed_def measured_by_def split: option.split)
  show "measured_by t' w \<longleftrightarrow> (if w = name then measured_by t old \<or> measured_by t name else w \<noteq> old \<and> measured_by t w)"
  proof (cases "Agents (t_Settings t)")
    case None
    then show ?thesis by (simp add: t'_def renamed_def measured_by_def)
  next
    case (Some l)
    show ?thesis
    proof (cases "old \<in> set (Prelude.fields l)")
      case True
      have "list_all is_word (rename_words old name (Prelude.fields l))"
        using fields_words assms(1) by (auto simp: rename_words_def list_all_iff)
      then have "measured_by t' w \<longleftrightarrow> w \<in> set (rename_words old name (Prelude.fields l))"
        using Some True by (simp add: t'_def renamed_def measured_by_def fields_join)
      then show ?thesis using rename_words_set [OF assms(2)] Some by (simp add: measured_by_def)
    next
      case False
      then have "t' = t" using Some by (simp add: t'_def renamed_def)
      then show ?thesis using Some False by (auto simp: measured_by_def)
    qed
  qed
qed

text \<open>
  Property C37. Renaming an agent keeps what it measures. The row of the agent gets the new name and no other
  row changes; each target keeps everything but its list of agents; a target that has a list keeps having
  one; the lists that named the agent name it by its new name, the old name is in none, every other agent is
  on exactly the lists it was on, and the answer is the number of lists that were rewritten.
\<close>

theorem rename_keeps_assignments:
  assumes "RenameAgent i name db = Inr (db', n)" and "find (\<lambda>a. er_ID a = i) (en_agents db) = Some a"
    and "er_Name a \<noteq> trim_space name"
  shows "en_agents db' = map (\<lambda>a. if er_ID a = i then a\<lparr>er_Name := trim_space name\<rparr> else a) (en_agents db) \<and>
    list_all2 (\<lambda>t t'. t'\<lparr>t_Settings := (t_Settings t')\<lparr>Agents := Agents (t_Settings t)\<rparr>\<rparr> = t
        \<and> (Agents (t_Settings t') = None) = (Agents (t_Settings t) = None)
        \<and> (\<forall>w. measured_by t' w =
             (if w = trim_space name then measured_by t (er_Name a) \<or> measured_by t w else w \<noteq> er_Name a \<and> measured_by t w)))
      (en_targets db) (en_targets db') \<and>
    n = length (filter (\<lambda>t. measured_by t (er_Name a)) (en_targets db))"
proof -
  let ?r = "renamed (er_Name a) (trim_space name)"
  from assms have v: "validAgentName (trim_space name) = Inr ()"
    and d: "db' = update_agent i (\<lambda>a. a\<lparr>er_Name := trim_space name\<rparr>) db
        \<lparr>en_targets := map (\<lambda>t. case ?r t of None \<Rightarrow> t | Some t' \<Rightarrow> t') (en_targets db)\<rparr>"
    and n: "n = length (filter (\<lambda>t. ?r t \<noteq> None) (en_targets db))"
    by (auto simp: RenameAgent_def Let_def rbind_Inr_iff update_agent_def split: if_split_asm)
  note r = renamed_target [OF validAgentName_word [OF v] assms(3)]
  have "en_agents db' = map (\<lambda>a. if er_ID a = i then a\<lparr>er_Name := trim_space name\<rparr> else a) (en_agents db)"
    by (simp add: d update_agent_def)
  moreover have "n = length (filter (\<lambda>t. measured_by t (er_Name a)) (en_targets db))" unfolding n r(4) ..
  moreover have "list_all2 (\<lambda>t t'. t'\<lparr>t_Settings := (t_Settings t')\<lparr>Agents := Agents (t_Settings t)\<rparr>\<rparr> = t
        \<and> (Agents (t_Settings t') = None) = (Agents (t_Settings t) = None)
        \<and> (\<forall>w. measured_by t' w =
             (if w = trim_space name then measured_by t (er_Name a) \<or> measured_by t w else w \<noteq> er_Name a \<and> measured_by t w)))
      (en_targets db) (en_targets db')"
    using r(1-3) by (simp add: d list_all2_conv_all_nth)
  ultimately show ?thesis by blast
qed


definition example_named :: enroldb where
  "example_named = example_enrol\<lparr>en_agents := en_agents example_enrol @ [new_agent 5 ''ams-01'' (replicate 32 7)],
     en_targets := [group_node 1 None '''' (no_settings\<lparr>Agents := Some ''local''\<rparr>),
       group_node 2 (Some 1) ''dns'' (no_settings\<lparr>Agents := Some ''local  ams-01 ams''\<rparr>)]\<rparr>"

lemma rename_keeps_assignments_witness:
  "\<exists>db' t1 t2. RenameAgent 5 '' ams-02'' example_named = Inr (db', 1) \<and> en_targets db' = [t1, t2]
     \<and> measured_by t2 ''ams-02'' \<and> measured_by t2 ''ams'' \<and> \<not> measured_by t2 ''ams-01'' \<and> \<not> measured_by t1 ''ams-02''"
proof -
  let ?a = "new_agent 5 ''ams-01'' (replicate 32 7)"
  have trim: "trim_space '' ams-02'' = ''ams-02''" by code_simp
  have "runes ''ams-02'' = Some [97,109,115,45,48,50]" by (simp add: runes_def)
  then have valid: "validAgentName ''ams-02'' = Inr ()"
    by (simp add: validAgentName_def IsSpace_def IsControl_def IsCf_def Cf_ranges_def)
  have f: "find (\<lambda>a. er_ID a = 5) (en_agents example_named) = Some ?a"
    by (simp add: example_named_def example_enrol_def new_agent_def)
  have u: "\<not> (\<exists>a \<in> set (en_agents example_named). er_Name a = ''ams-02'' \<and> er_ID a \<noteq> 5)"
    by (simp add: example_named_def example_enrol_def new_agent_def)
  have ne: "er_Name ?a \<noteq> trim_space '' ams-02''" by (simp add: trim new_agent_def)
  obtain db' n where r: "RenameAgent 5 '' ams-02'' example_named = Inr (db', n)"
    using u f ne by (simp add: RenameAgent_def Let_def trim valid)
  note th = rename_keeps_assignments [OF r f ne, unfolded trim, THEN conjunct1] rename_keeps_assignments [OF r f ne, unfolded trim, THEN conjunct2, THEN conjunct1]
    rename_keeps_assignments [OF r f ne, unfolded trim, THEN conjunct2, THEN conjunct2]
  have fl: "Prelude.fields ''local'' = [''local'']" "Prelude.fields ''local  ams-01 ams'' = [''local'', ''ams-01'', ''ams'']"
    by code_simp+
  have nm: "er_Name ?a = ''ams-01''" by (simp add: new_agent_def)
  have two: "en_targets example_named = [group_node 1 None '''' (no_settings\<lparr>Agents := Some ''local''\<rparr>),
       group_node 2 (Some 1) ''dns'' (no_settings\<lparr>Agents := Some ''local  ams-01 ams''\<rparr>)]"
    by (simp add: example_named_def)
  have mb: "measured_by (group_node 1 None '''' (no_settings\<lparr>Agents := Some ''local''\<rparr>)) = (\<lambda>w. w = ''local'')"
    "measured_by (group_node 2 (Some 1) ''dns'' (no_settings\<lparr>Agents := Some ''local  ams-01 ams''\<rparr>)) = (\<lambda>w. w \<in> {''local'', ''ams-01'', ''ams''})"
    by (simp_all add: fun_eq_iff measured_by_def group_node_def fl)
  have n: "n = 1" using th(3) by (simp add: two mb nm)
  from th(2) obtain t1 t2 where t: "en_targets db' = [t1, t2]"
    and "\<forall>w. measured_by t1 w = (if w = ''ams-02'' then ''ams-01'' = ''local'' \<or> w = ''local'' else w \<noteq> ''ams-01'' \<and> w = ''local'')"
    and "\<forall>w. measured_by t2 w = (if w = ''ams-02'' then ''ams-01'' \<in> {''local'', ''ams-01'', ''ams''} \<or> w \<in> {''local'', ''ams-01'', ''ams''}
        else w \<noteq> ''ams-01'' \<and> w \<in> {''local'', ''ams-01'', ''ams''})"
    unfolding two nm list_all2_Cons1 list_all2_Nil mb by blast
  then have "measured_by t2 ''ams-02''" "measured_by t2 ''ams''" "\<not> measured_by t2 ''ams-01''" "\<not> measured_by t1 ''ams-02''"
    by simp_all
  with r n t show ?thesis by blast
qed

end
