(* ===== verification/Codec.thy ===== *)
theory Codec
  imports Prelude
begin

unbundle bit_operations_syntax

text \<open>
  The samples-blob codec, \<open>internal/store/enc/enc.go\<close>: \<open>Encode\<close>/\<open>Decode\<close> (format version 1,
  unsigned) and \<open>EncodeSigned\<close>/\<open>DecodeSigned\<close> (version 2, signed), over the varints of Go's
  \<open>encoding/binary\<close>, which are modelled here at their width. The lemmas show the two round
  trips, that an encoder accepts exactly the sorted inputs, and that whatever a decoder
  accepts, however corrupt, is sorted.
\<close>

section \<open>Varints (Go's encoding/binary)\<close>

definition MaxVarintLen64 :: nat where "MaxVarintLen64 = 10"

function PutUvarint :: "u64 \<Rightarrow> u8 list" where
  "PutUvarint x = (if 0x80 \<le> x then (ucast x OR 0x80) # PutUvarint (drop_bit 7 x) else [ucast x])"
  by pat_completeness auto
termination
proof (relation "measure unat")
  fix x :: u64
  assume "0x80 \<le> x"
  then have "0 < unat x" by (simp add: word_le_nat_alt)
  then show "(drop_bit 7 x, x) \<in> measure unat"
    by (simp add: unat_drop_bit_eq drop_bit_eq_div unat_div)
qed simp

declare PutUvarint.simps [simp del]

text \<open>
  \<open>Uvarint\<close> returns the value and how many bytes it took; 0 is \<open>buffer too short\<close>, a
  negative count an overflow of 64 bits.
\<close>

fun Uvarint_loop :: "nat \<Rightarrow> u64 \<Rightarrow> nat \<Rightarrow> u8 list \<Rightarrow> u64 \<times> int" where
  "Uvarint_loop i x s [] = (0, 0)"
| "Uvarint_loop i x s (b # bs) =
     (if i = MaxVarintLen64 then (0, - (int i + 1))
      else if b < 0x80 then
        (if i = MaxVarintLen64 - 1 \<and> 1 < b then (0, - (int i + 1))
         else (x OR push_bit s (ucast b), int i + 1))
      else Uvarint_loop (Suc i) (x OR push_bit s (ucast (b AND 0x7f))) (s + 7) bs)"

definition Uvarint :: "u8 list \<Rightarrow> u64 \<times> int" where
  "Uvarint buf = Uvarint_loop 0 0 0 buf"

text \<open>Zig-zag: \<open>PutVarint\<close> shifts left and inverts a negative value, \<open>Varint\<close> undoes it.\<close>

definition PutVarint :: "i64 \<Rightarrow> u8 list" where
  "PutVarint x = PutUvarint (let ux = push_bit 1 x in if sint x < 0 then NOT ux else ux)"

definition Varint :: "u8 list \<Rightarrow> i64 \<times> int" where
  "Varint buf = (let (ux, n) = Uvarint buf; x = drop_bit 1 ux
     in (if ux AND 1 \<noteq> 0 then NOT x else x, n))"

lemma PutUvarint_neq_Nil [simp]: "PutUvarint x \<noteq> []"
  by (subst PutUvarint.simps) simp

lemma length_PutUvarint_pos: "0 < length (PutUvarint x)"
  by simp

text \<open>Each byte but the last has its top bit set, so the loop reads back what was written.\<close>

lemma low_byte: "(x::u64) < 0x80 \<Longrightarrow> ucast (ucast x :: u8) = x"
  by (rule word_unat_eq_iff [THEN iffD2]) (simp add: unat_ucast_mod word_less_nat_alt)

lemma Uvarint_loop_PutUvarint:
  "i < 10 \<Longrightarrow> s = 7 * i \<Longrightarrow> unat v < 2 ^ (64 - 7 * i) \<Longrightarrow>
   Uvarint_loop i x s (PutUvarint v @ rest) = (x OR push_bit s v, int i + int (length (PutUvarint v)))"
proof (induction v arbitrary: i x s rule: PutUvarint.induct)
  case (1 v)
  show ?case
  proof (cases "0x80 \<le> v")
    case False
    then have small: "v < 0x80" by simp
    then have b: "(ucast v :: u8) < 0x80"
      by (simp add: word_less_nat_alt unat_ucast_mod)
    have "i = 9 \<Longrightarrow> \<not> 1 < (ucast v :: u8)"
      using "1.prems"(3) by (auto simp: word_less_nat_alt unat_ucast_mod)
    with b small False "1.prems" show ?thesis
      by (subst (1 2) PutUvarint.simps) (auto simp: MaxVarintLen64_def low_byte)
  next
    case True
    let ?b = "ucast v OR 0x80 :: u8"
    have top: "\<not> ?b < 0x80"
    proof -
      have "0x80 \<le> ?b" by (metis le_word_or2 or.commute)
      then show ?thesis by simp
    qed
    have i9: "i < 9"
    proof (rule ccontr)
      assume "\<not> i < 9"
      with "1.prems"(1) have "i = 9" by simp
      with "1.prems"(3) have "unat v < 2" by simp
      with True show False by (simp add: word_le_nat_alt)
    qed
    have small': "unat (drop_bit 7 v) < 2 ^ (64 - 7 * Suc i)"
    proof -
      have "unat v < 2 ^ (64 - 7 * Suc i) * 2 ^ 7"
      proof -
        have "64 - 7 * i = (64 - 7 * Suc i) + 7" using i9 by simp
        then show ?thesis using "1.prems"(3) by (metis power_add)
      qed
      then show ?thesis
        by (simp add: unat_drop_bit_eq drop_bit_eq_div unat_div less_mult_imp_div_less)
    qed
    have val: "(x OR push_bit s (ucast (?b AND 0x7f))) OR push_bit (s + 7) (drop_bit 7 v) = x OR push_bit s v"
    proof (rule bit_word_eqI)
      fix n assume "n < LENGTH(64)"
      have m: "bit (0x7f :: int) k \<longleftrightarrow> k < 7" for k
        using bit_mask_iff [of 7 k, where 'a = int] by (auto simp: mask_eq_exp_minus_1)
      have h: "bit (0x80 :: int) k \<longleftrightarrow> k = 7" for k
        using bit_exp_iff [of 7 k, where 'a = int] by auto
      show "bit ((x OR push_bit s (ucast (?b AND 0x7f))) OR push_bit (s + 7) (drop_bit 7 v)) n
          = bit (x OR push_bit s v) n"
      proof -
        have "n - s < 7 \<or> 7 + (n - (s + 7)) = n - s" by arith
        then show ?thesis
          using \<open>n < LENGTH(64)\<close> by (elim disjE) (auto simp: bit_simps m h not_less)
      qed
    qed
    have "Uvarint_loop i x s (PutUvarint v @ rest)
        = Uvarint_loop (Suc i) (x OR push_bit s (ucast (?b AND 0x7f))) (s + 7) (PutUvarint (drop_bit 7 v) @ rest)"
      using True top "1.prems"(1) by (subst PutUvarint.simps) (simp add: MaxVarintLen64_def)
    also have "\<dots> = (x OR push_bit s v, int (Suc i) + int (length (PutUvarint (drop_bit 7 v))))"
      using val i9 "1.prems"(2) by (subst "1.IH" [OF True _ _ small']) simp_all
    also have "\<dots> = (x OR push_bit s v, int i + int (length (PutUvarint v)))"
      using True by (subst (2) PutUvarint.simps) simp
    finally show ?thesis .
  qed
qed

lemma Uvarint_PutUvarint: "Uvarint (PutUvarint v @ rest) = (v, int (length (PutUvarint v)))"
proof -
  have "unat v < 2 ^ 64" using unsigned_less [of v, where ?'a = nat] by simp
  then show ?thesis
    using Uvarint_loop_PutUvarint [of 0 0 v 0 rest] by (simp add: Uvarint_def)
qed

lemma and_1_iff_bit: "(u :: u64) AND 1 \<noteq> 0 \<longleftrightarrow> bit u 0"
  by (simp add: and_one_eq bit_0 odd_iff_mod_2_eq_one)

lemma negative_iff_bit: "sint (v :: i64) < 0 \<longleftrightarrow> bit v 63"
  using bit_last_iff [of v] by simp

lemma zigzag_inverse:
  fixes v :: i64
  defines "u \<equiv> (let ux = push_bit 1 v in if sint v < 0 then NOT ux else ux)"
  shows "(if u AND 1 \<noteq> 0 then NOT (drop_bit 1 u) else drop_bit 1 u) = v"
proof (rule bit_word_eqI)
  fix n assume n: "n < LENGTH(64)"
  then have "n < 63 \<or> n = 63" by auto
  then show "bit (if u AND 1 \<noteq> 0 then NOT (drop_bit 1 u) else drop_bit 1 u) n = bit v n"
    unfolding and_1_iff_bit u_def Let_def negative_iff_bit
    by (auto simp: bit_simps bit_double_iff mult.commute [of v 2])
qed

lemma Varint_PutVarint: "Varint (PutVarint v @ rest) = (v, int (length (PutVarint v)))"
  using zigzag_inverse [of v]
  by (simp only: Varint_def PutVarint_def Uvarint_PutUvarint Let_def prod.case)

section \<open>Version 1: unsigned samples\<close>

datatype enc_error =
    ErrEmpty                 \<comment> \<open>\<open>ErrEmpty\<close>\<close>
  | ErrUnsorted              \<comment> \<open>\<open>ErrUnsorted\<close>\<close>
  | ErrVersion u8            \<comment> \<open>unsupported blob version\<close>
  | ErrVarint nat            \<comment> \<open>truncated or oversized varint at sample i\<close>
  | ErrDelta nat             \<comment> \<open>delta at sample i overflows\<close>
  | ErrSample nat            \<comment> \<open>sample i overflows\<close>

definition Version1 :: u8 where "Version1 = 0x01"

definition MaxUint32 :: u64 where "MaxUint32 = 0xFFFFFFFF"

fun Encode_loop :: "nat \<Rightarrow> u32 \<Rightarrow> u32 list \<Rightarrow> u8 list \<Rightarrow> enc_error + u8 list" where
  "Encode_loop i prev [] buf = Inr buf"
| "Encode_loop i prev (s # ss) buf =
     (if 0 < i \<and> s < prev then Inl ErrUnsorted
      else let v = (if 0 < i then ucast (s - prev) else ucast s) :: u64
           in Encode_loop (Suc i) s ss (buf @ PutUvarint v))"

definition Encode :: "u32 list \<Rightarrow> enc_error + u8 list" where
  "Encode samples = Encode_loop 0 0 samples [Version1]"

function Decode_loop :: "nat \<Rightarrow> u64 \<Rightarrow> u8 list \<Rightarrow> u32 list \<Rightarrow> enc_error + u32 list" where
  "Decode_loop i cur rest out =
     (if rest = [] then Inr out
      else let (v, n) = Uvarint rest
      in if n \<le> 0 then Inl (ErrVarint i)
      else let rest' = drop (nat n) rest
      in if i \<noteq> 0 \<and> v > MaxUint32 - cur then Inl (ErrDelta i)
      else let cur' = (if i = 0 then v else cur + v)
      in if cur' > MaxUint32 then Inl (ErrSample i)
      else Decode_loop (Suc i) cur' rest' (out @ [ucast cur']))"
  by pat_completeness auto
termination
  by (relation "measure (\<lambda>(i, cur, rest, out). length rest)") auto

declare Decode_loop.simps [simp del]

definition Decode :: "u8 list \<Rightarrow> enc_error + u32 list" where
  "Decode blob = (case blob of [] \<Rightarrow> Inl ErrEmpty
    | b # rest \<Rightarrow> if b \<noteq> Version1 then Inl (ErrVersion b) else Decode_loop 0 0 rest [])"

definition countVarints :: "u8 list \<Rightarrow> nat" where
  "countVarints b = length (filter (\<lambda>c. c < 0x80) b)"

text \<open>What the loop writes for a sorted input: the varints of the successive differences.\<close>

fun deltas :: "u32 \<Rightarrow> u32 list \<Rightarrow> u64 list" where
  "deltas prev [] = []"
| "deltas prev (s # ss) = ucast (s - prev) # deltas s ss"

definition putAll :: "u64 list \<Rightarrow> u8 list" where
  "putAll vs = concat (map PutUvarint vs)"

lemma Encode_loop_Suc:
  "Encode_loop (Suc i) prev ss buf =
     (if sorted (prev # ss) then Inr (buf @ putAll (deltas prev ss)) else Inl ErrUnsorted)"
proof (induction ss arbitrary: i prev buf)
  case Nil
  then show ?case by (simp add: putAll_def)
next
  case (Cons s ss)
  show ?case
  proof (cases "prev \<le> s")
    case True
    then have "sorted (prev # s # ss) \<longleftrightarrow> sorted (s # ss)" by (auto intro: order_trans)
    with True show ?thesis by (simp add: Let_def Cons.IH putAll_def leD del: sorted_simps sorted_wrt.simps)
  qed auto
qed

definition sample_bytes :: "u32 list \<Rightarrow> u8 list" where
  "sample_bytes ss = (case ss of [] \<Rightarrow> [] | s # rest \<Rightarrow> PutUvarint (ucast s) @ putAll (deltas s rest))"

lemma Encode_eq:
  "Encode ss = (if sorted ss then Inr (Version1 # sample_bytes ss) else Inl ErrUnsorted)"
  by (cases ss) (simp_all add: Encode_def sample_bytes_def Encode_loop_Suc Let_def del: sorted_simps)

text \<open>Reading a difference back.\<close>

lemma unat_ucast_u32: "unat (ucast (x :: u32) :: u64) = unat x"
  using unsigned_less [of x, where ?'a = nat] by (simp add: unat_ucast_mod)

lemma u32_le_Max: "(ucast (x :: u32) :: u64) \<le> MaxUint32"
  using unsigned_less [of x, where ?'a = nat]
  by (simp add: word_le_nat_alt unat_ucast_u32 MaxUint32_def)

lemma delta_add:
  assumes "p \<le> (s :: u32)"
  shows "(ucast p :: u64) + ucast (s - p) = ucast s"
    and "(ucast (s - p) :: u64) \<le> MaxUint32 - ucast p"
proof -
  have sub: "unat (s - p) = unat s - unat p" using assms by (rule unat_sub)
  have le: "unat p \<le> unat s" using assms by (simp add: word_le_nat_alt)
  have lt: "unat s < 2 ^ 32" using unsigned_less [of s, where ?'a = nat] by simp
  show "(ucast p :: u64) + ucast (s - p) = ucast s"
    using sub le lt by (intro word_unat_eq_iff [THEN iffD2]) (simp add: unat_word_ariths unat_ucast_u32)
  have "unat (MaxUint32 - ucast p) = unat MaxUint32 - unat p"
    using u32_le_Max [of p] by (simp add: unat_sub unat_ucast_u32)
  then show "(ucast (s - p) :: u64) \<le> MaxUint32 - ucast p"
    using sub le lt by (simp add: word_le_nat_alt unat_ucast_u32 MaxUint32_def)
qed

lemma ucast_down_up [simp]: "(ucast (ucast (x :: u32) :: u64) :: u32) = x"
  by (rule word_unat_eq_iff [THEN iffD2])
    (use unsigned_less [of x, where ?'a = nat] in \<open>simp add: unat_ucast_mod\<close>)

lemma Decode_loop_deltas:
  "sorted (prev # ss) \<Longrightarrow>
   Decode_loop (Suc i) (ucast prev) (putAll (deltas prev ss)) out = Inr (out @ ss)"
proof (induction ss arbitrary: i prev out)
  case Nil
  then show ?case by (simp add: putAll_def Decode_loop.simps)
next
  case (Cons s ss)
  then have ps: "prev \<le> s" and rest: "sorted (s # ss)" by auto
  have "Decode_loop (Suc i) (ucast prev) (putAll (deltas prev (s # ss))) out
      = Decode_loop (Suc (Suc i)) (ucast s) (putAll (deltas s ss)) (out @ [s])"
    using delta_add [OF ps] u32_le_Max [of s] length_PutUvarint_pos [of "ucast (s - prev)"]
    by (subst Decode_loop.simps) (simp add: putAll_def Uvarint_PutUvarint Let_def leD)
  then show ?case using Cons.IH [OF rest] by simp
qed

lemma Decode_loop_sample_bytes: "sorted ss \<Longrightarrow> Decode_loop 0 0 (sample_bytes ss) [] = Inr ss"
proof (cases ss)
  case Nil
  then show ?thesis by (simp add: sample_bytes_def Decode_loop.simps)
next
  case (Cons s rest)
  moreover assume "sorted ss"
  ultimately show ?thesis
    using Decode_loop_deltas [of s rest 0 "[s]"] u32_le_Max [of s] length_PutUvarint_pos [of "ucast s"]
    by (subst Decode_loop.simps) (simp add: sample_bytes_def Uvarint_PutUvarint Let_def leD)
qed


text \<open>Whatever the decoder accepts is sorted, and has one sample per terminating byte.\<close>

lemma Uvarint_loop_count:
  "Uvarint_loop i x s bs = (v, n) \<Longrightarrow> 0 < n \<Longrightarrow>
   int i < n \<and> nat (n - int i) \<le> length bs \<and>
   countVarints bs = Suc (countVarints (drop (nat (n - int i)) bs))"
proof (induction i x s bs rule: Uvarint_loop.induct)
  case (2 i x s b bs)
  show ?case
  proof (cases "b < 0x80")
    case True
    with "2.prems" show ?thesis by (auto simp: countVarints_def split: if_splits)
  next
    case False
    have nat_Suc: "nat (n - int i) = Suc (nat (n - int (Suc i)))" if "int (Suc i) < n"
      using that by simp
    from False "2.prems" have rec: "Uvarint_loop (Suc i) (x OR push_bit s (ucast (b AND 0x7f))) (s + 7) bs = (v, n)"
      and i: "i \<noteq> MaxVarintLen64"
      by (auto split: if_splits)
    from "2.IH" [OF i False rec "2.prems"(2)] False show ?thesis
      by (simp add: nat_Suc countVarints_def)
  qed
qed simp

lemma Uvarint_count:
  "Uvarint bs = (v, n) \<Longrightarrow> 0 < n \<Longrightarrow> countVarints bs = Suc (countVarints (drop (nat n) bs))"
  using Uvarint_loop_count [of 0 0 0 bs v n] by (simp add: Uvarint_def)

lemma u64_add_mono:
  assumes "v \<le> MaxUint32 - cur" and "cur \<le> MaxUint32"
  shows "cur \<le> cur + v \<and> cur + v \<le> MaxUint32"
proof -
  have "unat (MaxUint32 - cur) = unat MaxUint32 - unat cur" using assms(2) by (rule unat_sub)
  with assms have le: "unat cur + unat v \<le> unat MaxUint32"
    by (auto simp: word_le_nat_alt)
  then have "unat (cur + v) = unat cur + unat v"
    by (simp add: unat_word_ariths MaxUint32_def)
  with le show ?thesis by (simp add: word_le_nat_alt)
qed

lemma ucast_u32_mono:
  assumes "a \<le> b" and "b \<le> MaxUint32"
  shows "(ucast a :: u32) \<le> ucast b"
  using assms by (simp add: word_le_nat_alt unat_ucast_mod MaxUint32_def)

lemma Decode_loop_sorted:
  "Decode_loop i cur rest out = Inr xs \<Longrightarrow> cur \<le> MaxUint32 \<Longrightarrow> sorted out \<Longrightarrow>
   (\<forall>y \<in> set out. i \<noteq> 0 \<and> y \<le> ucast cur) \<Longrightarrow>
   sorted xs \<and> length xs = length out + countVarints rest"
proof (induction i cur rest out rule: Decode_loop.induct)
  case (1 i cur rest out)
  show ?case
  proof (cases "rest = []")
    case True
    with "1.prems" show ?thesis by (simp add: Decode_loop.simps countVarints_def)
  next
    case False
    obtain v n where vn: "Uvarint rest = (v, n)" by fastforce
    let ?cur = "if i = 0 then v else cur + v"
    from "1.prems"(1) False vn have n: "0 < n" and d: "\<not> (i \<noteq> 0 \<and> v > MaxUint32 - cur)"
      and s: "\<not> ?cur > MaxUint32"
      and rec: "Decode_loop (Suc i) ?cur (drop (nat n) rest) (out @ [ucast ?cur]) = Inr xs"
      unfolding Decode_loop.simps [of i cur rest out] by (auto simp: Let_def split: if_splits)
    have mono: "\<forall>y \<in> set out. y \<le> ucast ?cur"
    proof
      fix y assume y: "y \<in> set out"
      with "1.prems"(4) have i: "i \<noteq> 0" and yc: "y \<le> ucast cur" by auto
      then have "cur \<le> cur + v \<and> cur + v \<le> MaxUint32"
        using d "1.prems"(2) by (intro u64_add_mono) (auto simp: not_less)
      then have "(ucast cur :: u32) \<le> ucast (cur + v)" by (simp add: ucast_u32_mono)
      with yc i show "y \<le> ucast ?cur" by simp
    qed
    have "sorted xs \<and> length xs = length (out @ [ucast ?cur]) + countVarints (drop (nat n) rest)"
    proof (rule "1.IH" [OF False refl vn [symmetric] _ refl _ refl _ rec])
      show "sorted (out @ [ucast ?cur])" using "1.prems"(3) mono by (simp add: sorted_snoc)
    qed (use n d s mono in auto)
    then show ?thesis using Uvarint_count [OF vn n] by simp
  qed
qed

lemma Decode_sorted_count:
  assumes "Decode blob = Inr xs"
  shows "sorted xs \<and> length xs = countVarints (tl blob)"
proof -
  from assms obtain rest where "blob = Version1 # rest" "Decode_loop 0 0 rest [] = Inr xs"
    by (auto simp: Decode_def split: list.splits if_splits)
  then show ?thesis
    using Decode_loop_sorted [of 0 0 rest "[]" xs] by (simp add: MaxUint32_def)
qed

section \<open>Version 2: signed samples\<close>

definition Version2 :: u8 where "Version2 = 0x02"

definition MinInt32 :: int where "MinInt32 = - 2147483648"
definition MaxInt32 :: int where "MaxInt32 = 2147483647"

fun EncodeSigned_loop :: "nat \<Rightarrow> i32 \<Rightarrow> i32 list \<Rightarrow> u8 list \<Rightarrow> enc_error + u8 list" where
  "EncodeSigned_loop i prev [] buf = Inr buf"
| "EncodeSigned_loop i prev (s # ss) buf =
     (if 0 < i \<and> sint s < sint prev then Inl ErrUnsorted
      else let bytes = (if i = 0 then PutVarint (scast s) else PutUvarint (scast s - scast prev))
           in EncodeSigned_loop (Suc i) s ss (buf @ bytes))"

definition EncodeSigned :: "i32 list \<Rightarrow> enc_error + u8 list" where
  "EncodeSigned samples = EncodeSigned_loop 0 0 samples [Version2]"

function DecodeSigned_loop :: "nat \<Rightarrow> i64 \<Rightarrow> u8 list \<Rightarrow> i32 list \<Rightarrow> enc_error + i32 list" where
  "DecodeSigned_loop i cur rest out =
     (if rest = [] then Inr out
      else let (v, n) = (if i = 0 then Varint rest else Uvarint rest)
      in if n \<le> 0 then Inl (ErrVarint i)
      else let rest' = drop (nat n) rest
      in if i \<noteq> 0 \<and> v > word_of_int MaxInt32 - cur then Inl (ErrDelta i)
      else let cur' = (if i = 0 then v else cur + v)
      in if sint cur' < MinInt32 \<or> sint cur' > MaxInt32 then Inl (ErrSample i)
      else DecodeSigned_loop (Suc i) cur' rest' (out @ [ucast cur']))"
  by pat_completeness auto
termination
  by (relation "measure (\<lambda>(i, cur, rest, out). length rest)") auto

declare DecodeSigned_loop.simps [simp del]

definition DecodeSigned :: "u8 list \<Rightarrow> enc_error + i32 list" where
  "DecodeSigned blob = (case blob of [] \<Rightarrow> Inl ErrEmpty
    | b # rest \<Rightarrow> if b \<noteq> Version2 then Inl (ErrVersion b) else DecodeSigned_loop 0 0 rest [])"

fun deltasSigned :: "i32 \<Rightarrow> i32 list \<Rightarrow> u64 list" where
  "deltasSigned prev [] = []"
| "deltasSigned prev (s # ss) = (scast s - scast prev) # deltasSigned s ss"

lemma EncodeSigned_loop_Suc:
  "EncodeSigned_loop (Suc i) prev ss buf =
     (if sorted (map sint (prev # ss)) then Inr (buf @ putAll (deltasSigned prev ss)) else Inl ErrUnsorted)"
proof (induction ss arbitrary: i prev buf)
  case Nil
  then show ?case by (simp add: putAll_def)
next
  case (Cons s ss)
  show ?case
  proof (cases "sint prev \<le> sint s")
    case True
    then have "sorted (map sint (prev # s # ss)) \<longleftrightarrow> sorted (map sint (s # ss))" by (auto intro: order_trans)
    with True show ?thesis by (simp add: Let_def Cons.IH putAll_def leD del: sorted_simps sorted_wrt.simps)
  qed auto
qed

definition sample_bytes_signed :: "i32 list \<Rightarrow> u8 list" where
  "sample_bytes_signed ss = (case ss of [] \<Rightarrow> []
     | s # rest \<Rightarrow> PutVarint (scast s) @ putAll (deltasSigned s rest))"

lemma EncodeSigned_eq:
  "EncodeSigned ss = (if sorted (map sint ss) then Inr (Version2 # sample_bytes_signed ss) else Inl ErrUnsorted)"
  by (cases ss)
    (simp_all add: EncodeSigned_def sample_bytes_signed_def EncodeSigned_loop_Suc Let_def del: sorted_simps)

text \<open>The accumulator is the 64-bit image of an integer in the range of \<open>int32\<close>.\<close>

definition in_i32 :: "int \<Rightarrow> bool" where
  "in_i32 c \<longleftrightarrow> MinInt32 \<le> c \<and> c \<le> MaxInt32"

lemma in_i32_sint: "in_i32 (sint (s :: i32))"
  using sint_range_size [of s] by (simp add: in_i32_def MinInt32_def MaxInt32_def word_size)

lemma sint_of_i32: "in_i32 c \<Longrightarrow> sint (word_of_int c :: i64) = c"
  by (simp add: in_i32_def MinInt32_def MaxInt32_def signed_of_int signed_take_bit_int_eq_self)

lemma scast_eq_of_sint: "(scast (s :: i32) :: i64) = word_of_int (sint s)"
  by (rule scast_eq)

lemma sint_scast_i32 [simp]: "sint (scast (s :: i32) :: i64) = sint s"
  by (simp only: scast_eq_of_sint sint_of_i32 in_i32_sint)

lemma ucast_scast_i32 [simp]: "(ucast (scast (s :: i32) :: i64) :: i32) = s"
proof (rule bit_word_eqI)
  fix n assume "n < LENGTH(32)"
  then have "n < 31 \<or> n = 31" by auto
  then show "bit (ucast (scast s :: i64) :: i32) n = bit s n" by (auto simp: bit_simps)
qed

lemma sint_of_i32': "in_i32 c \<Longrightarrow> sint (word_of_int c :: i32) = c"
  by (simp add: in_i32_def MinInt32_def MaxInt32_def signed_of_int signed_take_bit_int_eq_self)

lemma ucast_eq_of_sint: "(ucast (c :: i64) :: i32) = word_of_int (sint c)"
  by (rule bit_word_eqI) (auto simp: bit_simps)

lemma sint_ucast_i32: "in_i32 (sint (c :: i64)) \<Longrightarrow> sint (ucast c :: i32) = sint c"
  by (simp only: ucast_eq_of_sint sint_of_i32')

lemma uint_of_nonneg: "0 \<le> d \<Longrightarrow> d < 2 ^ 64 \<Longrightarrow> uint (word_of_int d :: u64) = d"
  by (simp add: uint_word_of_int)

lemma uint_of_room: "in_i32 c \<Longrightarrow> uint (word_of_int MaxInt32 - word_of_int c :: u64) = MaxInt32 - c"
  using uint_of_nonneg [of "MaxInt32 - c"] by (simp add: in_i32_def MinInt32_def MaxInt32_def)

lemma delta_add_signed:
  fixes p s :: i32
  assumes "sint p \<le> sint s"
  shows "(scast s - scast p :: u64) \<le> word_of_int MaxInt32 - scast p"
proof -
  have s: "in_i32 (sint s)" and p: "in_i32 (sint p)" by (simp_all only: in_i32_sint)
  have "uint (word_of_int (sint s - sint p) :: u64) = sint s - sint p"
    using s p assms by (intro uint_of_nonneg) (simp_all add: in_i32_def MinInt32_def MaxInt32_def)
  then have "(word_of_int (sint s - sint p) :: u64) \<le> word_of_int MaxInt32 - word_of_int (sint p)"
    using uint_of_room [OF p] s by (simp add: word_le_def in_i32_def)
  then show ?thesis by (simp only: scast_eq_of_sint of_int_diff)
qed

lemma DecodeSigned_loop_deltas:
  "sorted (map sint (prev # ss)) \<Longrightarrow>
   DecodeSigned_loop (Suc i) (scast prev) (putAll (deltasSigned prev ss)) out = Inr (out @ ss)"
proof (induction ss arbitrary: i prev out)
  case Nil
  then show ?case by (simp add: putAll_def DecodeSigned_loop.simps)
next
  case (Cons s ss)
  then have ps: "sint prev \<le> sint s" and rest: "sorted (map sint (s # ss))" by auto
  have "DecodeSigned_loop (Suc i) (scast prev) (putAll (deltasSigned prev (s # ss))) out
      = DecodeSigned_loop (Suc (Suc i)) (scast s) (putAll (deltasSigned s ss)) (out @ [s])"
    using delta_add_signed [OF ps] in_i32_sint [of s] length_PutUvarint_pos [of "scast s - scast prev"]
    by (subst DecodeSigned_loop.simps)
      (simp add: putAll_def Uvarint_PutUvarint Let_def leD in_i32_def)
  then show ?case using Cons.IH [OF rest] by simp
qed

lemma PutVarint_neq_Nil [simp]: "PutVarint x \<noteq> []"
  by (simp add: PutVarint_def)

lemma DecodeSigned_loop_sample_bytes:
  "sorted (map sint ss) \<Longrightarrow> DecodeSigned_loop 0 0 (sample_bytes_signed ss) [] = Inr ss"
proof (cases ss)
  case Nil
  then show ?thesis by (simp add: sample_bytes_signed_def DecodeSigned_loop.simps)
next
  case (Cons s rest)
  moreover assume "sorted (map sint ss)"
  ultimately show ?thesis
    using DecodeSigned_loop_deltas [of s rest 0 "[s]"] in_i32_sint [of s]
    by (subst DecodeSigned_loop.simps)
      (simp add: sample_bytes_signed_def Varint_PutVarint Let_def leD in_i32_def)
qed

lemma Varint_count:
  assumes "Varint bs = (v, n)" and "0 < n"
  shows "countVarints bs = Suc (countVarints (drop (nat n) bs))"
  using assms Uvarint_count by (auto simp: Varint_def Let_def split: prod.splits)

lemma sint_add_room:
  fixes cur v :: i64
  assumes "v \<le> word_of_int MaxInt32 - cur" and "in_i32 (sint cur)"
  shows "sint (cur + v) = sint cur + uint v \<and> in_i32 (sint cur + uint v)"
proof -
  have cur: "cur = word_of_int (sint cur)" by simp
  have "uint (word_of_int MaxInt32 - cur) = MaxInt32 - sint cur"
    using uint_of_room [OF assms(2)] by (simp only: cur [symmetric])
  then have v: "uint v \<le> MaxInt32 - sint cur" using assms(1) by (simp add: word_le_def)
  then have in': "in_i32 (sint cur + uint v)" using assms(2) by (simp add: in_i32_def add_increasing2)
  have "cur + v = word_of_int (sint cur + uint v)" by simp
  with in' show ?thesis by (metis sint_of_i32)
qed

lemma DecodeSigned_loop_sorted:
  "DecodeSigned_loop i cur rest out = Inr xs \<Longrightarrow> in_i32 (sint cur) \<Longrightarrow> sorted (map sint out) \<Longrightarrow>
   (\<forall>y \<in> set out. i \<noteq> 0 \<and> sint y \<le> sint cur) \<Longrightarrow>
   sorted (map sint xs) \<and> length xs = length out + countVarints rest"
proof (induction i cur rest out rule: DecodeSigned_loop.induct)
  case (1 i cur rest out)
  show ?case
  proof (cases "rest = []")
    case True
    with "1.prems" show ?thesis by (simp add: DecodeSigned_loop.simps countVarints_def)
  next
    case False
    obtain v n where vn: "(if i = 0 then Varint rest else Uvarint rest) = (v, n)" by fastforce
    let ?cur = "if i = 0 then v else cur + v"
    from "1.prems"(1) False vn have n: "0 < n" and d: "\<not> (i \<noteq> 0 \<and> v > word_of_int MaxInt32 - cur)"
      and s: "in_i32 (sint ?cur)"
      and rec: "DecodeSigned_loop (Suc i) ?cur (drop (nat n) rest) (out @ [ucast ?cur]) = Inr xs"
      unfolding DecodeSigned_loop.simps [of i cur rest out]
      by (auto simp: Let_def in_i32_def not_less split: if_splits)
    have mono: "\<forall>y \<in> set out. sint y \<le> sint ?cur"
    proof
      fix y assume "y \<in> set out"
      with "1.prems"(4) have i: "i \<noteq> 0" and yc: "sint y \<le> sint cur" by auto
      with sint_add_room [OF _ "1.prems"(2), of v] d have "sint cur \<le> sint (cur + v)" by simp
      with yc i show "sint y \<le> sint ?cur" by simp
    qed
    have "sorted (map sint xs) \<and> length xs = length (out @ [ucast ?cur :: i32]) + countVarints (drop (nat n) rest)"
    proof (rule "1.IH" [OF False refl vn [symmetric] _ refl _ refl _ rec])
      show "sorted (map sint (out @ [ucast ?cur :: i32]))"
        using "1.prems"(3) mono by (simp only: map_append list.map sorted_snoc) (simp add: sint_ucast_i32 [OF s])
      show "\<forall>y \<in> set (out @ [ucast ?cur :: i32]). Suc i \<noteq> 0 \<and> sint y \<le> sint ?cur"
        using mono sint_ucast_i32 [OF s] by auto
    qed (use n d s in \<open>auto simp: in_i32_def\<close>)
    moreover have "countVarints rest = Suc (countVarints (drop (nat n) rest))"
      using vn n Uvarint_count Varint_count by (auto split: if_splits)
    ultimately show ?thesis by simp
  qed
qed

lemma DecodeSigned_sorted_count:
  assumes "DecodeSigned blob = Inr xs"
  shows "sorted (map sint xs) \<and> length xs = countVarints (tl blob)"
proof -
  from assms obtain rest where "blob = Version2 # rest" "DecodeSigned_loop 0 0 rest [] = Inr xs"
    by (auto simp: DecodeSigned_def split: list.splits if_splits)
  then show ?thesis
    using DecodeSigned_loop_sorted [of 0 0 rest "[]" xs] by (simp add: in_i32_def MinInt32_def MaxInt32_def)
qed

section \<open>The contract of a samples codec\<close>

text \<open>
  What the store relies on: an encoder that accepts exactly the ascending series, a decoder
  that undoes it, and a decoder that yields ascending series only. The chart and rollup code
  computes medians by index and needs the order.
\<close>

locale codec =
  fixes enc :: "'a list \<Rightarrow> enc_error + u8 list"
    and dec :: "u8 list \<Rightarrow> enc_error + 'a list"
    and key :: "'a \<Rightarrow> int"
  assumes enc_cases: "(sorted (map key xs) \<longrightarrow> (\<exists>b. enc xs = Inr b)) \<and>
      (\<not> sorted (map key xs) \<longrightarrow> enc xs = Inl ErrUnsorted)"
    and dec_enc: "enc xs = Inr b \<Longrightarrow> dec b = Inr xs"
    and dec_sorted: "dec b = Inr xs \<Longrightarrow> sorted (map key xs)"
begin

lemma enc_then_dec: "rbind (enc xs) dec = (if sorted (map key xs) then Inr xs else Inl ErrUnsorted)"
  using enc_cases [of xs] dec_enc by auto

lemma enc_inj: "enc xs = Inr b \<Longrightarrow> enc ys = Inr b \<Longrightarrow> xs = ys"
  using dec_enc [of xs b] dec_enc [of ys b] by simp

text \<open>A stored blob survives a rewrite: decoding, encoding and decoding again loses nothing.\<close>

lemma dec_then_enc: "dec b = Inr xs \<Longrightarrow> rbind (enc xs) dec = dec b"
  using dec_sorted [of b xs] by (simp add: enc_then_dec)

end

lemma sorted_map_uint: "sorted (map uint xs) \<longleftrightarrow> sorted (xs :: 'a::len word list)"
  by (induction xs) (auto simp: word_le_def)

interpretation v1: codec Encode Decode uint
proof unfold_locales
  show "(sorted (map uint xs) \<longrightarrow> (\<exists>b. Encode xs = Inr b)) \<and>
      (\<not> sorted (map uint xs) \<longrightarrow> Encode xs = Inl ErrUnsorted)" for xs
    by (simp add: Encode_eq sorted_map_uint)
  show "Decode b = Inr xs" if "Encode xs = Inr b" for xs b
    using that by (auto simp: Encode_eq Decode_def Decode_loop_sample_bytes split: if_splits)
  show "sorted (map uint xs)" if "Decode b = Inr xs" for xs b
    using Decode_sorted_count [OF that] by (simp add: sorted_map_uint)
qed

interpretation v2: codec EncodeSigned DecodeSigned sint
proof unfold_locales
  show "(sorted (map sint xs) \<longrightarrow> (\<exists>b. EncodeSigned xs = Inr b)) \<and>
      (\<not> sorted (map sint xs) \<longrightarrow> EncodeSigned xs = Inl ErrUnsorted)" for xs
    by (simp add: EncodeSigned_eq)
  show "DecodeSigned b = Inr xs" if "EncodeSigned xs = Inr b" for xs b
    using that by (auto simp: EncodeSigned_eq DecodeSigned_def DecodeSigned_loop_sample_bytes split: if_splits)
  show "sorted (map sint xs)" if "DecodeSigned b = Inr xs" for xs b
    using DecodeSigned_sorted_count [OF that] by simp
qed

section \<open>Properties\<close>

text \<open>
  Property C1. Version 1 round trip: encoding a sample set and decoding the blob gives the
  samples back, bit for bit, when they are ascending; otherwise \<open>Encode\<close> fails with
  \<open>ErrUnsorted\<close> and nothing is written. No other outcome exists, at any sample value of
  \<open>uint32\<close> and any number of samples.
\<close>

theorem Encode_Decode_roundtrip:
  "rbind (Encode ss) Decode = (if sorted ss then Inr ss else Inl ErrUnsorted)"
  using v1.enc_then_dec [of ss] by (simp add: sorted_map_uint)

text \<open>
  Further property. Version 2 round trip, over signed samples: the zig-zag first value and the
  unsigned differences decode to the very samples, negative ones included.
\<close>

theorem EncodeSigned_DecodeSigned_roundtrip:
  "rbind (EncodeSigned ss) DecodeSigned = (if sorted (map sint ss) then Inr ss else Inl ErrUnsorted)"
  by (rule v2.enc_then_dec)

text \<open>
  Property C2. A decoder never turns a corrupt blob into a misleading series: whatever bytes
  \<open>Decode\<close> or \<open>DecodeSigned\<close> accepts yield an ascending series with exactly one sample per
  varint terminator, which is also the capacity the decoder allocated, and the series survives
  being stored again.
\<close>

theorem decoders_yield_sorted:
  "(case Decode blob of Inl e \<Rightarrow> True
    | Inr xs \<Rightarrow> sorted xs \<and> length xs = countVarints (tl blob) \<and> rbind (Encode xs) Decode = Inr xs) \<and>
   (case DecodeSigned blob of Inl e \<Rightarrow> True
    | Inr ys \<Rightarrow> sorted (map sint ys) \<and> length ys = countVarints (tl blob) \<and>
        rbind (EncodeSigned ys) DecodeSigned = Inr ys)"
  using Decode_sorted_count [of blob] DecodeSigned_sorted_count [of blob]
    v1.dec_then_enc [of blob] v2.dec_then_enc [of blob]
  by (auto split: sum.splits)

end
