(* ===== verification/Collector.thy ===== *)
theory Collector
  imports Alert Codec SeriesNames "HOL-Library.Multiset"
begin

text \<open>
  One interval of probing: the schedule and the collector of \<open>internal/probe/scheduler.go\<close>, and the
  measurement they produce, \<open>internal/store/store.go\<close>. Durations and instants are nanoseconds as
  integers; a zero \<open>time.Time\<close> is \<open>None\<close>. The clock readings a function takes (\<open>time.Now\<close>) are
  arguments. An index out of range, which panics in Go, is the outcome \<open>None\<close>.
\<close>

section \<open>Measurements\<close>

definition FlagUserspaceTX :: u8 where "FlagUserspaceTX = 0x01"
definition FlagUserspaceRX :: u8 where "FlagUserspaceRX = 0x02"
definition FlagRawSocket :: u8 where "FlagRawSocket = 0x04"
definition FlagSocketOverflow :: u8 where "FlagSocketOverflow = 0x08"
definition FlagICMPError :: u8 where "FlagICMPError = 0x10"
definition FlagClockStep :: u8 where "FlagClockStep = 0x20"
definition FlagSendFailed :: u8 where "FlagSendFailed = 0x40"
definition FlagTruncated :: u8 where "FlagTruncated = 0x80"

lemmas flag_defs = FlagUserspaceTX_def FlagUserspaceRX_def FlagRawSocket_def FlagSocketOverflow_def
  FlagICMPError_def FlagClockStep_def FlagSendFailed_def FlagTruncated_def

record measurement =
  m_TargetID :: int
  m_AgentID :: int
  m_TS :: int
  m_Sent :: nat
  m_Received :: nat
  m_Flags :: u8
  m_Samples :: "u32 list"
  m_ICMPErr :: "u16 option"
  m_SendErr :: "u8 option"
  m_Series :: "string \<Rightarrow> i32 list option"

definition LocalAgentID :: int where "LocalAgentID = 0"

definition ICMPError :: "u8 \<Rightarrow> u8 \<Rightarrow> u16" where
  "ICMPError icmpType code = push_bit 8 (ucast icmpType) OR ucast code"

definition AlertInput :: "measurement \<Rightarrow> alert_input" where
  "AlertInput m = \<lparr>in_TargetID = m_TargetID m, in_AgentID = m_AgentID m, in_TS = m_TS m,
     in_Sent = int (m_Sent m), in_Received = int (m_Received m), in_Samples = m_Samples m,
     in_LossTrusted = (m_Flags m AND FlagSocketOverflow = 0),
     in_RTTTrusted = (m_Flags m AND FlagClockStep = 0)\<rparr>"

section \<open>The schedule\<close>

record TargetSpec =
  sp_TargetID :: int
  sp_Host :: string
  sp_Family :: string
  sp_IntervalS :: int
  sp_Pings :: int
  sp_Mode :: string
  sp_BurstGapMS :: int
  sp_TimeoutMS :: int
  sp_PacketSize :: int
  sp_DSCP :: int
  sp_TraceIntervalS :: int
  sp_ProbeType :: string
  sp_ProbePort :: int
  sp_DNSQuery :: string
  sp_DNSRRType :: string
  sp_HTTPPath :: string
  sp_TLSSkipVerify :: bool

definition msec :: int where "msec = 1000000"
definition sec :: int where "sec = 1000000000"

definition bucketStart :: "int \<Rightarrow> int \<Rightarrow> int" where
  "bucketStart t intervalS = t - go_mod t intervalS"

text \<open>FNV-1a, 64 bits, over the eight little-endian bytes of the target id.\<close>

definition fnv_byte :: "u64 \<Rightarrow> u8 \<Rightarrow> u64" where
  "fnv_byte h b = (h XOR ucast b) * 1099511628211"

definition le_bytes :: "u64 \<Rightarrow> u8 list" where
  "le_bytes x = map (\<lambda>i. ucast (drop_bit (8 * i) x)) [0..<8]"

definition fnv64a :: "u8 list \<Rightarrow> u64" where
  "fnv64a bs = foldl fnv_byte 14695981039346656037 bs"

definition phase_window :: "TargetSpec \<Rightarrow> int" where
  "phase_window spec =
     (let interval = sp_IntervalS spec * sec
      in if sp_Mode spec = ''spread'' then go_div interval (sp_Pings spec)
         else interval - sp_Pings spec * sp_BurstGapMS spec * msec)"

definition phaseOffset :: "TargetSpec \<Rightarrow> int" where
  "phaseOffset spec =
     (let h = fnv64a (le_bytes (word_of_int (sp_TargetID spec))); window = phase_window spec
      in if window \<le> 0 then 0 else uint h mod window)"

definition sendTimes :: "TargetSpec \<Rightarrow> int \<Rightarrow> int list" where
  "sendTimes spec bucket =
     (let start = bucket * sec + phaseOffset spec;
          step = (if sp_Mode spec = ''spread'' then go_div (sp_IntervalS spec * sec) (sp_Pings spec)
                  else sp_BurstGapMS spec * msec)
      in map (\<lambda>i. start + int i * step) [0..<nat (sp_Pings spec)])"

section \<open>The collector\<close>

record ping =
  p_token :: "u8 list"
  p_sent :: bool
  p_sendFailed :: bool
  p_seq :: u16
  p_txUser :: "int option"
  p_txKern :: "int option"
  p_rx :: "int option"
  p_rxKernel :: bool
  p_icmpErr :: bool
  p_icmpType :: u8
  p_icmpCode :: u8
  p_sendReason :: u8

record collector =
  c_done :: bool
  c_pings :: "ping list"
  c_late :: int
  c_startWall :: int
  c_startMono :: int
  c_series :: "string \<Rightarrow> i32 list option"

record conditions =
  cd_rawSocket :: bool
  cd_overflowed :: bool
  cd_truncated :: bool

definition new_ping :: "u8 list \<Rightarrow> ping" where
  "new_ping token = \<lparr>p_token = token, p_sent = False, p_sendFailed = False, p_seq = 0, p_txUser = None,
     p_txKern = None, p_rx = None, p_rxKernel = False, p_icmpErr = False, p_icmpType = 0,
     p_icmpCode = 0, p_sendReason = 0\<rparr>"

text \<open>\<open>newCollector\<close>: the tokens are what \<open>rand.Read\<close> produced, one per ping.\<close>

definition newCollector :: "u8 list list \<Rightarrow> int \<Rightarrow> int \<Rightarrow> int \<Rightarrow> collector" where
  "newCollector tokens late nowWall nowMono =
     \<lparr>c_done = False, c_pings = map new_ping tokens, c_late = late, c_startWall = nowWall,
      c_startMono = nowMono, c_series = (\<lambda>_. None)\<rparr>"

text \<open>\<open>slices.Sort\<close> of signed values.\<close>

definition sort_signed :: "i32 list \<Rightarrow> i32 list" where
  "sort_signed vals = sort_key sint vals"

definition recordSeries :: "collector \<Rightarrow> string \<Rightarrow> i32 list \<Rightarrow> bool \<Rightarrow> collector" where
  "recordSeries c name vals measured =
     (if \<not> measured then c else c\<lparr>c_series := (c_series c)(name \<mapsto> sort_signed vals)\<rparr>)"

definition upd_ping :: "collector \<Rightarrow> nat \<Rightarrow> (ping \<Rightarrow> ping) \<Rightarrow> collector option" where
  "upd_ping c idx f =
     (if idx < length (c_pings c) then Some (c\<lparr>c_pings := (c_pings c)[idx := f (c_pings c ! idx)]\<rparr>) else None)"

definition markSent :: "collector \<Rightarrow> nat \<Rightarrow> u16 \<Rightarrow> int \<Rightarrow> collector option" where
  "markSent c idx seq txUser = upd_ping c idx (\<lambda>p. p\<lparr>p_sent := True, p_seq := seq, p_txUser := Some txUser\<rparr>)"

definition markSendFailed :: "collector \<Rightarrow> nat \<Rightarrow> u8 \<Rightarrow> collector option" where
  "markSendFailed c idx reason =
     upd_ping c idx (\<lambda>p. p\<lparr>p_sent := True, p_sendFailed := True, p_sendReason := reason\<rparr>)"

definition onRX :: "collector \<Rightarrow> nat \<Rightarrow> int \<Rightarrow> bool \<Rightarrow> collector option" where
  "onRX c idx t krn =
     (if c_done c then Some (c\<lparr>c_late := c_late c + 1\<rparr>)
      else upd_ping c idx (\<lambda>p. if p_rx p \<noteq> None then p else p\<lparr>p_rx := Some t, p_rxKernel := krn\<rparr>))"

definition recordRoundTrip :: "collector \<Rightarrow> nat \<Rightarrow> int \<Rightarrow> int \<Rightarrow> collector option" where
  "recordRoundTrip c idx rtt now =
     (if c_done c then Some (c\<lparr>c_late := c_late c + 1\<rparr>)
      else upd_ping c idx (\<lambda>p. if p_rx p \<noteq> None then p
        else p\<lparr>p_sent := True, p_txUser := Some (now - rtt), p_rx := Some now, p_rxKernel := False\<rparr>))"

definition onICMPError :: "collector \<Rightarrow> nat \<Rightarrow> u8 \<Rightarrow> u8 \<Rightarrow> collector option" where
  "onICMPError c idx icmpType code =
     (if c_done c then Some c
      else upd_ping c idx (\<lambda>p. if p_rx p \<noteq> None then p
        else p\<lparr>p_icmpErr := True, p_icmpType := icmpType, p_icmpCode := code\<rparr>))"

definition onTXKernel :: "collector \<Rightarrow> nat \<Rightarrow> int \<Rightarrow> collector option" where
  "onTXKernel c idx t = (if c_done c then Some c else upd_ping c idx (\<lambda>p. p\<lparr>p_txKern := Some t\<rparr>))"

section \<open>Finalizing\<close>

definition clockStepFloor :: int where "clockStepFloor = 2 * msec"
definition clockSlewPPM :: int where "clockSlewPPM = 600"

definition clockStepped :: "int \<Rightarrow> int \<Rightarrow> bool" where
  "clockStepped wallDelta monoDelta =
     (let tolerance = clockStepFloor + go_div (monoDelta * clockSlewPPM) 1000000;
          d = wallDelta - monoDelta
      in d > tolerance \<or> d < - tolerance)"

text \<open>A Go map of counts, as the list of its entries in the order \<open>range\<close> visits them.\<close>

fun bump :: "'k \<Rightarrow> ('k \<times> nat) list \<Rightarrow> ('k \<times> nat) list" where
  "bump k [] = [(k, 1)]"
| "bump k ((j, n) # xs) = (if j = k then (j, Suc n) # xs else (j, n) # bump k xs)"

fun mode_loop :: "'k::linorder \<Rightarrow> int \<Rightarrow> ('k \<times> nat) list \<Rightarrow> 'k" where
  "mode_loop best bestN [] = best"
| "mode_loop best bestN ((k, n) # xs) =
     (if int n > bestN \<or> (int n = bestN \<and> k < best) then mode_loop k (int n) xs
      else mode_loop best bestN xs)"

definition modeOf :: "'k::{linorder,zero} \<Rightarrow> ('k \<times> nat) list \<Rightarrow> 'k" where
  "modeOf zero counts = mode_loop zero (- 1) counts"

record tally =
  ty_sent :: nat
  ty_flags :: u8
  ty_samples :: "u32 list"
  ty_err :: "(u16 \<times> nat) list"
  ty_send :: "(u8 \<times> nat) list"
  ty_suspect :: nat

definition MaxU32 :: int where "MaxU32 = 4294967295"

text \<open>\<open>a.After(b)\<close> and \<open>a.Before(b)\<close> with the zero time before every instant.\<close>

definition before :: "int option \<Rightarrow> int option \<Rightarrow> bool" where
  "before a b = (case (a, b) of (_, None) \<Rightarrow> False | (None, Some _) \<Rightarrow> True | (Some x, Some y) \<Rightarrow> x < y)"

definition abandoned :: "conditions \<Rightarrow> int \<Rightarrow> ping \<Rightarrow> bool" where
  "abandoned cond deadline p \<longleftrightarrow>
     cd_truncated cond \<and> p_rx p = None \<and> \<not> p_sendFailed p \<and> before (Some deadline) (p_txUser p)"

definition count_send_failure :: "ping \<Rightarrow> tally \<Rightarrow> tally" where
  "count_send_failure p ty =
     ty\<lparr>ty_flags := ty_flags ty OR FlagSendFailed,
        ty_send := (if p_sendReason p \<noteq> 0 then bump (p_sendReason p) (ty_send ty) else ty_send ty)\<rparr>"

definition suspect_tx :: "ping \<Rightarrow> bool" where
  "suspect_tx p \<longleftrightarrow> p_txKern p \<noteq> None \<and> (before (p_txKern p) (p_txUser p) \<or> before (p_rx p) (p_txKern p))"

text \<open>The transmit instant a reply is measured from; \<open>None\<close> is the zero time, far in the past.\<close>

definition tx_of :: "ping \<Rightarrow> int option" where
  "tx_of p = (if suspect_tx p \<or> p_txKern p = None then p_txUser p else p_txKern p)"

definition zero_instant :: int where "zero_instant = - 62135596800 * sec"

definition instant :: "int option \<Rightarrow> int" where
  "instant t = (case t of None \<Rightarrow> zero_instant | Some x \<Rightarrow> x)"

text \<open>A ping with a reply at \<open>rx\<close>: flags and, unless the round trip is impossible or late, a sample.\<close>

definition count_reply :: "int \<Rightarrow> ping \<Rightarrow> int \<Rightarrow> tally \<Rightarrow> tally" where
  "count_reply timeout p rx ty =
     (let ty = (if suspect_tx p then ty\<lparr>ty_suspect := Suc (ty_suspect ty)\<rparr> else ty);
          ty = (if suspect_tx p \<or> p_txKern p = None then ty\<lparr>ty_flags := ty_flags ty OR FlagUserspaceTX\<rparr> else ty);
          ty = (if \<not> p_rxKernel p then ty\<lparr>ty_flags := ty_flags ty OR FlagUserspaceRX\<rparr> else ty);
          rtt = rx - instant (tx_of p)
      in if rtt < 0 then ty\<lparr>ty_flags := ty_flags ty OR FlagClockStep\<rparr>
         else if rtt > timeout then ty
         else let us = go_div rtt 1000; us = (if us > MaxU32 then MaxU32 else us)
              in ty\<lparr>ty_samples := ty_samples ty @ [word_of_int us]\<rparr>)"

definition count_ping :: "conditions \<Rightarrow> int \<Rightarrow> int \<Rightarrow> ping \<Rightarrow> tally \<Rightarrow> tally" where
  "count_ping cond timeout deadline p ty =
     (if \<not> p_sent p then ty
      else if abandoned cond deadline p then ty
      else
        let ty = ty\<lparr>ty_sent := Suc (ty_sent ty)\<rparr>
        in if p_sendFailed p then count_send_failure p ty
        else
          let ty = (if p_icmpErr p then ty\<lparr>ty_err := bump (ICMPError (p_icmpType p) (p_icmpCode p)) (ty_err ty)\<rparr> else ty)
          in (case p_rx p of None \<Rightarrow> ty | Some rx \<Rightarrow> count_reply timeout p rx ty))"

definition cond_flags :: "conditions \<Rightarrow> bool \<Rightarrow> u8" where
  "cond_flags cond stepped =
     (((if cd_rawSocket cond then FlagRawSocket else 0) OR
       (if cd_overflowed cond then FlagSocketOverflow else 0)) OR
      (if cd_truncated cond then FlagTruncated else 0)) OR
      (if stepped then FlagClockStep else 0)"

definition finalize_tally :: "collector \<Rightarrow> TargetSpec \<Rightarrow> conditions \<Rightarrow> int \<Rightarrow> int \<Rightarrow> tally" where
  "finalize_tally c spec cond nowWall nowMono =
     (let timeout = sp_TimeoutMS spec * msec;
          stepped = clockStepped (nowWall - c_startWall c) (nowMono - c_startMono c)
      in fold (count_ping cond timeout (nowWall - timeout)) (c_pings c)
           \<lparr>ty_sent = 0, ty_flags = cond_flags cond stepped, ty_samples = [], ty_err = [], ty_send = [],
            ty_suspect = 0\<rparr>)"

text \<open>
  \<open>o1\<close> and \<open>o2\<close> are the orders in which \<open>modeOf\<close> visits the two maps of counts.
\<close>

definition finalize :: "((u16 \<times> nat) list \<Rightarrow> (u16 \<times> nat) list) \<Rightarrow> ((u8 \<times> nat) list \<Rightarrow> (u8 \<times> nat) list) \<Rightarrow>
    collector \<Rightarrow> TargetSpec \<Rightarrow> int \<Rightarrow> conditions \<Rightarrow> int \<Rightarrow> int \<Rightarrow> collector \<times> measurement" where
  "finalize o1 o2 c spec bucket cond nowWall nowMono =
     (let ty = finalize_tally c spec cond nowWall nowMono;
          samples = sort (ty_samples ty)
      in (c\<lparr>c_done := True\<rparr>,
          \<lparr>m_TargetID = sp_TargetID spec, m_AgentID = LocalAgentID, m_TS = bucket, m_Sent = ty_sent ty,
           m_Received = length samples,
           m_Flags = (if ty_err ty \<noteq> [] then ty_flags ty OR FlagICMPError else ty_flags ty),
           m_Samples = samples,
           m_ICMPErr = (if ty_err ty \<noteq> [] then Some (modeOf 0 (o1 (ty_err ty))) else None),
           m_SendErr = (if ty_send ty \<noteq> [] then Some (modeOf 0 (o2 (ty_send ty))) else None),
           m_Series = c_series c\<rparr>))"

section \<open>The mode of a map of counts\<close>

definition is_mode :: "('k::linorder \<times> nat) list \<Rightarrow> 'k \<Rightarrow> bool" where
  "is_mode xs k \<longleftrightarrow> (\<exists>n. (k, n) \<in> set xs \<and> (\<forall>(j, m) \<in> set xs. m < n \<or> (m = n \<and> k \<le> j)))"

lemma mode_loop_is_mode:
  "xs = [] \<and> mode_loop best bestN xs = best \<or>
   mode_loop best bestN xs = best \<and> (\<forall>(j, m) \<in> set xs. int m < bestN \<or> (int m = bestN \<and> best \<le> j)) \<or>
   (\<exists>n. (mode_loop best bestN xs, n) \<in> set xs \<and> (bestN < int n \<or> (bestN = int n \<and> mode_loop best bestN xs < best)) \<and>
      (\<forall>(j, m) \<in> set xs. m < n \<or> (m = n \<and> mode_loop best bestN xs \<le> j)))"
proof (induction xs arbitrary: best bestN)
  case (Cons x xs)
  obtain k n where x: "x = (k, n)" by fastforce
  show ?case
  proof (cases "int n > bestN \<or> (int n = bestN \<and> k < best)")
    case True
    let ?r = "mode_loop k (int n) xs"
    from Cons.IH [of k "int n"] consider
      (same) "?r = k" "\<forall>(j, m) \<in> set xs. int m < int n \<or> (int m = int n \<and> k \<le> j)"
    | (other) l where "(?r, l) \<in> set xs" "int n < int l \<or> (int n = int l \<and> ?r < k)"
        "\<forall>(j, m) \<in> set xs. m < l \<or> (m = l \<and> ?r \<le> j)"
      by fastforce
    then show ?thesis
    proof cases
      case same
      then show ?thesis using True x by (intro disjI2 exI [of _ n]) auto
    next
      case other
      then show ?thesis using True x by (intro disjI2 exI [of _ l]) auto
    qed
  next
    case False
    let ?r = "mode_loop best bestN xs"
    from Cons.IH [of best bestN] consider
      (same) "?r = best" "\<forall>(j, m) \<in> set xs. int m < bestN \<or> (int m = bestN \<and> best \<le> j)"
    | (other) l where "(?r, l) \<in> set xs" "bestN < int l \<or> (bestN = int l \<and> ?r < best)"
        "\<forall>(j, m) \<in> set xs. m < l \<or> (m = l \<and> ?r \<le> j)"
      by fastforce
    then show ?thesis
    proof cases
      case same
      then show ?thesis using False x by auto
    next
      case other
      then show ?thesis using False x by (intro disjI2 exI [of _ l]) auto
    qed
  qed
qed simp

lemma modeOf_is_mode: "xs \<noteq> [] \<Longrightarrow> is_mode xs (modeOf zero xs)"
proof -
  assume "xs \<noteq> []"
  then obtain k n where "(k, n) \<in> set xs" by (cases xs) auto
  then show ?thesis
    using mode_loop_is_mode [of xs zero "- 1"] by (fastforce simp: is_mode_def modeOf_def)
qed

lemma is_mode_unique:
  assumes "is_mode xs k" and "is_mode xs j"
  shows "k = j"
proof -
  from assms(1) obtain n where n: "(k, n) \<in> set xs" "\<forall>(i, m) \<in> set xs. m < n \<or> (m = n \<and> k \<le> i)"
    by (auto simp: is_mode_def)
  from assms(2) obtain l where l: "(j, l) \<in> set xs" "\<forall>(i, m) \<in> set xs. m < l \<or> (m = l \<and> j \<le> i)"
    by (auto simp: is_mode_def)
  from bspec [OF n(2) l(1)] bspec [OF l(2) n(1)] show ?thesis by auto
qed

lemma is_mode_set: "set xs = set ys \<Longrightarrow> is_mode xs k = is_mode ys k"
  by (simp add: is_mode_def)

lemma bump_keys: "fst ` set (bump k xs) = insert k (fst ` set xs)"
  by (induction k xs rule: bump.induct) auto

lemma bump_distinct [invariants]: "distinct (map fst xs) \<Longrightarrow> distinct (map fst (bump k xs))"
  by (induction k xs rule: bump.induct) (auto simp: bump_keys)

lemma modeOf_order:
  assumes "set ys = set xs"
  shows "modeOf zero ys = modeOf zero xs"
proof (cases "xs = []")
  case False
  then have "ys \<noteq> []" using assms by auto
  then show ?thesis
    using is_mode_unique [OF modeOf_is_mode] modeOf_is_mode [OF False] is_mode_set [OF assms] by metis
qed (use assms in simp)

section \<open>What finalize counts\<close>

definition counted :: "conditions \<Rightarrow> int \<Rightarrow> ping \<Rightarrow> bool" where
  "counted cond deadline p \<longleftrightarrow> p_sent p \<and> \<not> abandoned cond deadline p"

definition sample_of :: "int \<Rightarrow> ping \<Rightarrow> u32 option" where
  "sample_of timeout p =
     (case p_rx p of None \<Rightarrow> None
      | Some rx \<Rightarrow> let rtt = rx - instant (tx_of p)
          in if p_sendFailed p \<or> rtt < 0 \<or> rtt > timeout then None
             else Some (word_of_int (min (rtt div 1000) MaxU32)))"

lemma count_ping_tally:
  "ty_sent (count_ping cond timeout deadline p ty) = ty_sent ty + (if counted cond deadline p then 1 else 0)"
  "ty_samples (count_ping cond timeout deadline p ty) = ty_samples ty @
     (if counted cond deadline p then (case sample_of timeout p of None \<Rightarrow> [] | Some s \<Rightarrow> [s]) else [])"
  by (auto simp: count_ping_def counted_def count_send_failure_def count_reply_def sample_of_def Let_def
      go_div_nonneg min_def split: option.splits)

lemma fold_count_ping:
  "ty_sent (fold (count_ping cond timeout deadline) ps ty) = ty_sent ty + length (filter (counted cond deadline) ps)"
  "ty_samples (fold (count_ping cond timeout deadline) ps ty) =
     ty_samples ty @ List.map_filter (sample_of timeout) (filter (counted cond deadline) ps)"
  by (induction ps arbitrary: ty)
    (auto simp: count_ping_tally List.map_filter_def split: option.splits)

lemma map_filter_length: "length (List.map_filter f xs) \<le> length xs"
  by (induction xs) (auto simp: List.map_filter_simps split: option.split)

lemma sample_of_bound:
  "sample_of timeout p = Some s \<Longrightarrow> 1000 * uint s \<le> timeout \<and> uint s \<le> MaxU32"
proof -
  assume "sample_of timeout p = Some s"
  moreover from this obtain rx where rx: "p_rx p = Some rx" by (cases "p_rx p") (auto simp: sample_of_def)
  moreover define rtt where "rtt = rx - instant (tx_of p)"
  ultimately have r: "0 \<le> rtt" "rtt \<le> timeout" "s = word_of_int (min (rtt div 1000) MaxU32)"
    by (auto simp: sample_of_def Let_def not_less split: if_splits)
  have "uint s = min (rtt div 1000) MaxU32"
    using r(1) unfolding r(3) by (simp add: uint_word_of_int MaxU32_def min_def)
  then show ?thesis using r(1,2) by auto
qed

text \<open>The two tallies hold, for each code, the number of counted pings that had it.\<close>

definition tally_of :: "('k \<times> nat) list \<Rightarrow> 'k list \<Rightarrow> bool" where
  "tally_of xs ks \<longleftrightarrow> distinct (map fst xs) \<and> set xs = (\<lambda>k. (k, count_list ks k)) ` set ks"

lemma bump_set:
  "distinct (map fst xs) \<Longrightarrow>
   set (bump k xs) = {(j, n) \<in> set xs. j \<noteq> k} \<union>
     {(k, Suc (case map_of xs k of None \<Rightarrow> 0 | Some n \<Rightarrow> n))}"
  by (induction k xs rule: bump.induct) (auto simp: rev_image_eqI split: option.splits)

lemma tally_of_lookup:
  "tally_of xs ks \<Longrightarrow> (case map_of xs k of None \<Rightarrow> 0 | Some n \<Rightarrow> n) = count_list ks k"
proof -
  assume t: "tally_of xs ks"
  show ?thesis
  proof (cases "k \<in> set ks")
    case True
    then have "(k, count_list ks k) \<in> set xs" using t by (auto simp: tally_of_def)
    then show ?thesis using t by (simp add: tally_of_def)
  next
    case False
    then have "map_of xs k = None" using t by (auto simp: tally_of_def map_of_eq_None_iff)
    then show ?thesis using False by (simp add: count_list_0_iff)
  qed
qed

lemma tally_of_bump: "tally_of xs ks \<Longrightarrow> tally_of (bump k xs) (ks @ [k])"
proof -
  assume t: "tally_of xs ks"
  then have "set (bump k xs) = {(j, n) \<in> set xs. j \<noteq> k} \<union> {(k, Suc (count_list ks k))}"
    using bump_set [of xs k] tally_of_lookup [OF t, of k] by (simp add: tally_of_def)
  also have "\<dots> = (\<lambda>j. (j, count_list (ks @ [k]) j)) ` set (ks @ [k])"
    using t by (auto simp: tally_of_def)
  finally show ?thesis using t bump_distinct by (auto simp: tally_of_def)
qed

definition err_codes :: "conditions \<Rightarrow> int \<Rightarrow> ping list \<Rightarrow> u16 list" where
  "err_codes cond deadline ps = map (\<lambda>p. ICMPError (p_icmpType p) (p_icmpCode p))
     (filter (\<lambda>p. counted cond deadline p \<and> \<not> p_sendFailed p \<and> p_icmpErr p) ps)"

definition send_codes :: "conditions \<Rightarrow> int \<Rightarrow> ping list \<Rightarrow> u8 list" where
  "send_codes cond deadline ps = map p_sendReason
     (filter (\<lambda>p. counted cond deadline p \<and> p_sendFailed p \<and> p_sendReason p \<noteq> 0) ps)"

lemma count_ping_codes:
  "tally_of (ty_err ty) es \<Longrightarrow> tally_of (ty_send ty) ss \<Longrightarrow>
   tally_of (ty_err (count_ping cond timeout deadline p ty)) (es @ err_codes cond deadline [p]) \<and>
   tally_of (ty_send (count_ping cond timeout deadline p ty)) (ss @ send_codes cond deadline [p])"
  by (auto simp: count_ping_def counted_def err_codes_def send_codes_def count_send_failure_def
      count_reply_def Let_def tally_of_bump split: option.split)

lemma fold_count_ping_codes:
  "tally_of (ty_err ty) es \<Longrightarrow> tally_of (ty_send ty) ss \<Longrightarrow>
   tally_of (ty_err (fold (count_ping cond timeout deadline) ps ty)) (es @ err_codes cond deadline ps) \<and>
   tally_of (ty_send (fold (count_ping cond timeout deadline) ps ty)) (ss @ send_codes cond deadline ps)"
proof (induction ps arbitrary: ty es ss)
  case (Cons p ps)
  from count_ping_codes [OF Cons.prems] have
    "tally_of (ty_err (count_ping cond timeout deadline p ty)) (es @ err_codes cond deadline [p])"
    "tally_of (ty_send (count_ping cond timeout deadline p ty)) (ss @ send_codes cond deadline [p])" by blast+
  from Cons.IH [OF this] show ?case by (auto simp: err_codes_def send_codes_def)
qed (simp add: err_codes_def send_codes_def)

text \<open>The most frequent code, the lowest of those as frequent.\<close>

definition mode_code :: "'k::linorder list \<Rightarrow> 'k option \<Rightarrow> bool" where
  "mode_code ks r = (case r of None \<Rightarrow> ks = []
     | Some k \<Rightarrow> k \<in> set ks \<and> (\<forall>j \<in> set ks. count_list ks j < count_list ks k \<or>
         (count_list ks j = count_list ks k \<and> k \<le> j)))"

lemma tally_mode:
  assumes "tally_of xs ks" and "set ys = set xs"
  shows "mode_code ks (if xs \<noteq> [] then Some (modeOf zero ys) else None)"
proof (cases "xs = []")
  case False
  then have "is_mode xs (modeOf zero xs)" by (rule modeOf_is_mode)
  moreover have "modeOf zero ys = modeOf zero xs" using assms(2) by (rule modeOf_order)
  ultimately show ?thesis using assms(1) False by (auto simp: is_mode_def mode_code_def tally_of_def)
qed (use assms in \<open>simp add: mode_code_def tally_of_def\<close>)

section \<open>The schedule stays in its bucket\<close>

definition valid_spec :: "TargetSpec \<Rightarrow> bool" where
  "valid_spec spec \<longleftrightarrow> 0 < sp_IntervalS spec \<and> 0 < sp_Pings spec \<and> 0 \<le> sp_BurstGapMS spec \<and>
     (sp_Mode spec = ''spread'' \<or> sp_Pings spec * sp_BurstGapMS spec < sp_IntervalS spec * 1000) \<and>
     sp_Pings spec \<le> sp_IntervalS spec * sec"

lemma window_pos: "valid_spec spec \<Longrightarrow> 0 < phase_window spec"
proof -
  assume v: "valid_spec spec"
  have "0 < sp_IntervalS spec * sec div sp_Pings spec" if "sp_Mode spec = ''spread''"
    using v that by (simp add: valid_spec_def pos_imp_zdiv_pos_iff)
  moreover have "sp_Pings spec * sp_BurstGapMS spec * msec < sp_IntervalS spec * sec" if "sp_Mode spec \<noteq> ''spread''"
    using v that by (simp add: valid_spec_def msec_def sec_def) (simp add: mult.commute)
  ultimately show ?thesis
    using v by (auto simp: phase_window_def Let_def go_div_nonneg valid_spec_def sec_def)
qed

lemma phaseOffset_range: "valid_spec spec \<Longrightarrow> 0 \<le> phaseOffset spec \<and> phaseOffset spec < phase_window spec"
  using window_pos [of spec] by (simp add: phaseOffset_def Let_def)

lemma send_in_window:
  assumes "valid_spec spec" and "i < nat (sp_Pings spec)"
  defines "step \<equiv> (if sp_Mode spec = ''spread'' then go_div (sp_IntervalS spec * sec) (sp_Pings spec)
      else sp_BurstGapMS spec * msec)"
  shows "0 \<le> step \<and> phaseOffset spec + int i * step < sp_IntervalS spec * sec"
proof -
  note p = phaseOffset_range [OF assms(1)]
  have i: "int i \<le> sp_Pings spec - 1" using assms(2) by simp
  show ?thesis
  proof (cases "sp_Mode spec = ''spread''")
    case True
    then have s: "step = sp_IntervalS spec * sec div sp_Pings spec" "phase_window spec = step"
      using assms(1) by (simp_all add: step_def phase_window_def Let_def go_div_nonneg valid_spec_def sec_def)
    have nonneg: "0 \<le> step" using assms(1) s(1) by (simp add: valid_spec_def sec_def pos_imp_zdiv_nonneg_iff)
    have "int i * step \<le> (sp_Pings spec - 1) * step" using i nonneg by (rule mult_right_mono)
    moreover have "sp_Pings spec * step \<le> sp_IntervalS spec * sec"
      using s(1) assms(1) by (simp add: valid_spec_def) (metis minus_mod_eq_mult_div pos_mod_sign diff_ge_0_iff_ge add_le_cancel_left le_add_same_cancel2 minus_mult_div_eq_mod)
    ultimately show ?thesis using p s(2) nonneg by (simp add: algebra_simps)
  next
    case False
    then have s: "step = sp_BurstGapMS spec * msec"
      "phase_window spec = sp_IntervalS spec * sec - sp_Pings spec * sp_BurstGapMS spec * msec"
      by (simp_all add: step_def phase_window_def)
    have nonneg: "0 \<le> step" using assms(1) s(1) by (simp add: valid_spec_def msec_def)
    have "int i * step \<le> (sp_Pings spec - 1) * step" using i nonneg by (rule mult_right_mono)
    then show ?thesis using p s nonneg by (simp add: algebra_simps)
  qed
qed

lemma nth_sendTimes:
  "i < nat (sp_Pings spec) \<Longrightarrow> sendTimes spec bucket ! i = bucket * sec + phaseOffset spec +
     int i * (if sp_Mode spec = ''spread'' then go_div (sp_IntervalS spec * sec) (sp_Pings spec)
       else sp_BurstGapMS spec * msec)"
  by (simp add: sendTimes_def Let_def)

lemma upd_ping_same:
  "idx < length (c_pings c) \<Longrightarrow> f (c_pings c ! idx) = c_pings c ! idx \<Longrightarrow> upd_ping c idx f = Some c"
  by (simp add: upd_ping_def)

section \<open>Properties\<close>

text \<open>
  Further property. Every probe of an interval is due inside it: for a target whose burst fits, the
  schedule has one instant per ping, in ascending order, none before the bucket starts and none
  at or after its end, in either mode and for any target id (the offset is a hash of it).
\<close>

theorem sendTimes_in_bucket:
  assumes "valid_spec spec"
  shows "length (sendTimes spec bucket) = nat (sp_Pings spec) \<and> sorted (sendTimes spec bucket) \<and>
    (\<forall>t \<in> set (sendTimes spec bucket). bucket * sec \<le> t \<and> t < (bucket + sp_IntervalS spec) * sec)"
proof (intro conjI ballI)
  show len: "length (sendTimes spec bucket) = nat (sp_Pings spec)" by (simp add: sendTimes_def Let_def)
  show "sorted (sendTimes spec bucket)"
  proof (rule sorted_iff_nth_mono [THEN iffD2], intro allI impI)
    fix i j assume "i \<le> j" "j < length (sendTimes spec bucket)"
    then show "sendTimes spec bucket ! i \<le> sendTimes spec bucket ! j"
      using send_in_window [OF assms, of j] by (simp add: nth_sendTimes len mult_right_mono)
  qed
  fix t assume "t \<in> set (sendTimes spec bucket)"
  then obtain i where i: "i < nat (sp_Pings spec)" "t = sendTimes spec bucket ! i"
    by (auto simp: in_set_conv_nth len)
  note w = send_in_window [OF assms i(1)] and p = phaseOffset_range [OF assms]
  show "bucket * sec \<le> t" using w p by (simp add: i nth_sendTimes)
  show "t < (bucket + sp_IntervalS spec) * sec" using w by (simp add: i nth_sendTimes algebra_simps)
qed

definition example_spec :: TargetSpec where
  "example_spec = \<lparr>sp_TargetID = 42, sp_Host = ''192.0.2.1'', sp_Family = ''v4'', sp_IntervalS = 60,
     sp_Pings = 4, sp_Mode = ''burst'', sp_BurstGapMS = 10, sp_TimeoutMS = 1000, sp_PacketSize = 56,
     sp_DSCP = 0, sp_TraceIntervalS = 0, sp_ProbeType = ''icmp'', sp_ProbePort = 0, sp_DNSQuery = '''',
     sp_DNSRRType = '''', sp_HTTPPath = '''', sp_TLSSkipVerify = False\<rparr>"

lemma example_spec_valid: "valid_spec example_spec"
  by (simp add: example_spec_def valid_spec_def sec_def)

theorem sendTimes_in_bucket_witness: "length (sendTimes example_spec 1756400100) = 4"
  using sendTimes_in_bucket [OF example_spec_valid, of 1756400100] by (simp add: example_spec_def)

text \<open>
  Property C13. What an interval is stored as: \<open>sent\<close> is the number of pings that were attempted and not
  abandoned, the samples are the ascending round trips of those of them that were answered in
  time, \<open>received\<close> is their number and at most \<open>sent\<close>, no sample exceeds the timeout, and the samples
  can always be encoded for storage. It holds after any events and whatever order the maps of
  error codes are visited in, and the collector is closed afterwards.
\<close>

theorem finalize_measures:
  assumes "finalize o1 o2 c spec bucket cond nowWall nowMono = (c', m)"
  defines "timeout \<equiv> sp_TimeoutMS spec * msec"
  shows "m_Sent m = length (filter (counted cond (nowWall - timeout)) (c_pings c)) \<and>
    m_Samples m = sort (List.map_filter (sample_of timeout) (filter (counted cond (nowWall - timeout)) (c_pings c))) \<and>
    m_Received m = length (m_Samples m) \<and> m_Received m \<le> m_Sent m \<and>
    (\<forall>s \<in> set (m_Samples m). 1000 * uint s \<le> timeout) \<and>
    (\<exists>blob. Encode (m_Samples m) = Inr blob \<and> Decode blob = Inr (m_Samples m)) \<and> c_done c'"
proof -
  let ?ps = "filter (counted cond (nowWall - timeout)) (c_pings c)"
  let ?ty = "finalize_tally c spec cond nowWall nowMono"
  have ty: "ty_sent ?ty = length ?ps" "ty_samples ?ty = List.map_filter (sample_of timeout) ?ps"
    by (simp_all add: finalize_tally_def Let_def fold_count_ping timeout_def)
  have m: "m_Sent m = ty_sent ?ty" "m_Samples m = sort (ty_samples ?ty)"
    "m_Received m = length (m_Samples m)" "c_done c'"
    using assms(1) by (auto simp: finalize_def Let_def)
  have "length (List.map_filter (sample_of timeout) ?ps) \<le> length ?ps" by (rule map_filter_length)
  moreover have "1000 * uint s \<le> timeout" if "s \<in> set (m_Samples m)" for s
    using that sample_of_bound by (auto simp: m ty List.map_filter_def)
  moreover have "\<exists>blob. Encode (m_Samples m) = Inr blob"
    using v1.enc_cases [of "m_Samples m"] by (simp add: sorted_map_uint m)
  ultimately show ?thesis using m ty v1.dec_enc by auto
qed

definition example_collector :: collector where
  "example_collector = (newCollector [[1], [2], [3]] 0 0 0)\<lparr>c_pings :=
     [(new_ping [1])\<lparr>p_sent := True, p_txUser := Some 0, p_rx := Some 5000000\<rparr>,
      (new_ping [2])\<lparr>p_sent := True, p_txUser := Some 0, p_rx := Some 1500000000\<rparr>,
      (new_ping [3])\<lparr>p_sent := True, p_txUser := Some 0\<rparr>]\<rparr>"

definition plain_conditions :: conditions where
  "plain_conditions = \<lparr>cd_rawSocket = False, cd_overflowed = False, cd_truncated = False\<rparr>"

theorem finalize_measures_witness:
  "m_Sent (snd (finalize id id example_collector example_spec 0 plain_conditions (60 * sec) (60 * sec))) = 3"
proof -
  let ?f = "finalize id id example_collector example_spec 0 plain_conditions (60 * sec) (60 * sec)"
  have "?f = (fst ?f, snd ?f)" by simp
  from finalize_measures [OF this] show ?thesis
    by (simp add: example_collector_def newCollector_def counted_def abandoned_def plain_conditions_def new_ping_def)
qed

text \<open>
  Further property. The error that represents an interval is its most frequent one: the stored ICMP
  error and send-failure reason are the code most of the counted pings had, the lowest where
  several are as frequent, and absent exactly when none had one; the order in which Go visits
  the map of counts makes no difference.
\<close>

theorem finalize_errors:
  assumes "\<And>xs. set (o1 xs) = set xs" and "\<And>xs. set (o2 xs) = set xs"
  shows "mode_code (err_codes cond (nowWall - sp_TimeoutMS spec * msec) (c_pings c))
      (m_ICMPErr (snd (finalize o1 o2 c spec bucket cond nowWall nowMono))) \<and>
    mode_code (send_codes cond (nowWall - sp_TimeoutMS spec * msec) (c_pings c))
      (m_SendErr (snd (finalize o1 o2 c spec bucket cond nowWall nowMono)))"
proof -
  let ?ty = "finalize_tally c spec cond nowWall nowMono"
  have "tally_of (ty_err ?ty) ([] @ err_codes cond (nowWall - sp_TimeoutMS spec * msec) (c_pings c)) \<and>
      tally_of (ty_send ?ty) ([] @ send_codes cond (nowWall - sp_TimeoutMS spec * msec) (c_pings c))"
    unfolding finalize_tally_def Let_def by (rule fold_count_ping_codes) (simp_all add: tally_of_def)
  then show ?thesis
    using tally_mode [OF _ assms(1)] tally_mode [OF _ assms(2)] by (simp add: finalize_def Let_def)
qed

theorem finalize_errors_witness:
  "m_SendErr (snd (finalize rev rev (example_collector\<lparr>c_pings := [(new_ping [1])\<lparr>p_sent := True, p_sendFailed := True,
     p_sendReason := 2\<rparr>]\<rparr>) example_spec 0 plain_conditions 0 0)) = Some 2"
proof -
  let ?m = "snd (finalize rev rev (example_collector\<lparr>c_pings := [(new_ping [1])\<lparr>p_sent := True, p_sendFailed := True,
     p_sendReason := 2\<rparr>]\<rparr>) example_spec 0 plain_conditions 0 0)"
  have "mode_code [2] (m_SendErr ?m)"
    using finalize_errors [of rev rev plain_conditions 0 example_spec
      "example_collector\<lparr>c_pings := [(new_ping [1])\<lparr>p_sent := True, p_sendFailed := True, p_sendReason := 2\<rparr>]\<rparr>" 0 0]
    by (simp add: send_codes_def counted_def abandoned_def plain_conditions_def)
  then show ?thesis by (auto simp: mode_code_def split: option.splits)
qed

text \<open>
  Further property. The clock check: a clock slewed at up to 500 parts per million never counts as
  stepped however long the interval, and a jump larger than 2 ms plus 600 parts per million of the
  interval always does, in either direction.
\<close>

theorem clockStepped_bounds:
  assumes "0 \<le> monoD"
  shows "(1000000 * \<bar>wallD - monoD\<bar> \<le> 500 * monoD \<longrightarrow> \<not> clockStepped wallD monoD) \<and>
    (1000000 * \<bar>wallD - monoD\<bar> > 600 * monoD + 2000000 * 1000000 \<longrightarrow> clockStepped wallD monoD)"
proof -
  define q where "q = monoD * 600 div 1000000"
  define d where "d = \<bar>wallD - monoD\<bar>"
  have g: "go_div (monoD * 600) 1000000 = q" using assms by (simp add: go_div_nonneg q_def)
  have q: "1000000 * q \<le> 600 * monoD" "600 * monoD < 1000000 * q + 1000000"
    unfolding q_def by linarith+
  have "0 \<le> d" by (simp add: d_def)
  have c: "clockStepped wallD monoD \<longleftrightarrow> d > 2000000 + q"
    by (auto simp: clockStepped_def clockSlewPPM_def clockStepFloor_def msec_def g Let_def d_def abs_if)
  have "d \<le> 2000000 + q" if "1000000 * d \<le> 500 * monoD"
    using that q assms \<open>0 \<le> d\<close> by linarith
  moreover have "d > 2000000 + q" if "1000000 * d > 600 * monoD + 2000000 * 1000000"
    using that q by linarith
  ultimately show ?thesis unfolding c d_def [symmetric] by (auto simp: not_less)
qed

theorem clockStepped_bounds_witness: "clockStepped (61 * sec) (60 * sec) \<and> \<not> clockStepped (60 * sec + 1000) (60 * sec)"
  using clockStepped_bounds [of "60 * sec" "61 * sec"] clockStepped_bounds [of "60 * sec" "60 * sec + 1000"]
  by (simp add: sec_def)

text \<open>
  Further property. After an interval is closed nothing changes its pings any more: a late reply, a late
  round trip, an ICMP error and a kernel timestamp are dropped (the first two counted), and before
  that the first reply to a ping wins over every later one.
\<close>

theorem closed_and_first_reply:
  "(c_done c \<longrightarrow> onRX c idx t krn = Some (c\<lparr>c_late := c_late c + 1\<rparr>) \<and>
      recordRoundTrip c idx rtt now = Some (c\<lparr>c_late := c_late c + 1\<rparr>) \<and>
      onICMPError c idx ty code = Some c \<and> onTXKernel c idx t = Some c) \<and>
   (\<not> c_done c \<and> onRX c idx t krn = Some c1 \<longrightarrow>
      onRX c1 idx t' krn' = Some c1 \<and> recordRoundTrip c1 idx rtt now = Some c1 \<and> onICMPError c1 idx ty code = Some c1)"
proof -
  have "onRX c1 idx t' krn' = Some c1 \<and> recordRoundTrip c1 idx rtt now = Some c1 \<and> onICMPError c1 idx ty code = Some c1"
    if "\<not> c_done c" "onRX c idx t krn = Some c1"
  proof -
    let ?p = "c_pings c ! idx"
    let ?p1 = "if p_rx ?p \<noteq> None then ?p else ?p\<lparr>p_rx := Some t, p_rxKernel := krn\<rparr>"
    from that have i: "idx < length (c_pings c)" and c1: "c1 = c\<lparr>c_pings := (c_pings c)[idx := ?p1]\<rparr>"
      by (auto simp: onRX_def upd_ping_def split: if_splits)
    then have "idx < length (c_pings c1)" "c_pings c1 ! idx = ?p1" "\<not> c_done c1" using that(1) by auto
    moreover have "p_rx ?p1 \<noteq> None" by simp
    ultimately show ?thesis
      by (simp add: onRX_def recordRoundTrip_def onICMPError_def upd_ping_same del: if_split)
  qed
  then show ?thesis by (auto simp: onRX_def recordRoundTrip_def onICMPError_def onTXKernel_def)
qed

theorem closed_and_first_reply_witness:
  "onRX (example_collector\<lparr>c_done := True\<rparr>) 0 7 True = Some (example_collector\<lparr>c_done := True, c_late := 1\<rparr>)"
  using closed_and_first_reply [of "example_collector\<lparr>c_done := True\<rparr>" 0 7 True]
  by (simp add: example_collector_def newCollector_def)

end
