(* ===== verification/MeasureDB.thy ===== *)
theory MeasureDB
  imports Collector "HOL-Library.Char_ord" "HOL-Library.List_Lexorder"
begin

text \<open>
  Stored measurements: the write path, the range reads and the pruning of
  \<open>internal/store/sqlite.go\<close>. The state is the contents of the two tables \<open>measurements\<close> and
  \<open>measurement_series\<close>; the SQL statements of the source (insert, replace, ignore, delete, ordered
  select) are operations on their rows. A transaction is a computation on the contents whose
  error leaves them as they were. Failures of the database itself are not modelled; every other
  error of these functions is.
\<close>

section \<open>The tables\<close>

record mrow =
  mr_target :: int
  mr_agent :: int
  mr_ts :: int
  mr_sent :: nat
  mr_received :: nat
  mr_flags :: u8
  mr_samples :: "u8 list"
  mr_icmp :: "u16 option"
  mr_send :: "u8 option"

record srow =
  sr_target :: int
  sr_agent :: int
  sr_ts :: int
  sr_series :: string
  sr_samples :: "u8 list"

record mdb =
  t_measurements :: "mrow list"
  t_series :: "srow list"

definition mkey :: "mrow \<Rightarrow> int \<times> int \<times> int" where
  "mkey r = (mr_target r, mr_agent r, mr_ts r)"

definition skey :: "srow \<Rightarrow> int \<times> int \<times> int" where
  "skey r = (sr_target r, sr_agent r, sr_ts r)"

datatype store_error =
    ReceivedMismatch | EncodeFailed enc_error | UnknownSeriesName string | SeriesEncodeFailed string enc_error
  | ErrRangeTooLarge string nat | DecodeFailed enc_error | OrphanSeries string | BadColumns | UniqueViolation

text \<open>\<open>INSERT OR REPLACE INTO\<close> and \<open>INSERT INTO ... ON CONFLICT DO NOTHING\<close>, by primary key.\<close>

definition insert_replace :: "mrow \<Rightarrow> mrow list \<Rightarrow> mrow list" where
  "insert_replace r rows = filter (\<lambda>q. mkey q \<noteq> mkey r) rows @ [r]"

definition has_key :: "mrow \<Rightarrow> mrow list \<Rightarrow> bool" where
  "has_key r rows \<longleftrightarrow> mkey r \<in> mkey ` set rows"

text \<open>\<open>INSERT INTO measurement_series\<close>: an existing primary key is an error.\<close>

definition insert_series :: "srow \<Rightarrow> srow list \<Rightarrow> store_error + srow list" where
  "insert_series r rows =
     (if (skey r, sr_series r) \<in> (\<lambda>q. (skey q, sr_series q)) ` set rows then Inl UniqueViolation
      else Inr (rows @ [r]))"

definition delete_series :: "int \<times> int \<times> int \<Rightarrow> srow list \<Rightarrow> srow list" where
  "delete_series k rows = filter (\<lambda>q. skey q \<noteq> k) rows"

section \<open>Writing\<close>

definition row_of :: "measurement \<Rightarrow> u8 list \<Rightarrow> mrow" where
  "row_of m blob = \<lparr>mr_target = m_TargetID m, mr_agent = m_AgentID m, mr_ts = m_TS m, mr_sent = m_Sent m,
     mr_received = m_Received m, mr_flags = m_Flags m, mr_samples = blob, mr_icmp = m_ICMPErr m,
     mr_send = m_SendErr m\<rparr>"

definition srow_of :: "measurement \<Rightarrow> string \<Rightarrow> u8 list \<Rightarrow> srow" where
  "srow_of m name blob = \<lparr>sr_target = m_TargetID m, sr_agent = m_AgentID m, sr_ts = m_TS m,
     sr_series = name, sr_samples = blob\<rparr>"

fun put_series :: "measurement \<Rightarrow> string list \<Rightarrow> srow list \<Rightarrow> store_error + srow list" where
  "put_series m [] rows = Inr rows"
| "put_series m (name # names) rows =
     (if \<not> series_Valid name then Inl (UnknownSeriesName name)
      else (case EncodeSigned (the (m_Series m name)) of
          Inl e \<Rightarrow> Inl (SeriesEncodeFailed name e)
        | Inr sblob \<Rightarrow> rbind (insert_series (srow_of m name sblob) rows) (put_series m names)))"

text \<open>\<open>slices.Sorted(maps.Keys(m.Series))\<close>\<close>

definition series_names :: "measurement \<Rightarrow> string list" where
  "series_names m = sorted_list_of_set (dom (m_Series m))"

definition write_one :: "bool \<Rightarrow> measurement \<Rightarrow> mdb \<times> nat \<Rightarrow> store_error + mdb \<times> nat" where
  "write_one replace m s =
     (let (db, inserted) = s in
      if m_Received m \<noteq> length (m_Samples m) then Inl ReceivedMismatch
      else case Encode (m_Samples m) of
        Inl e \<Rightarrow> Inl (EncodeFailed e)
      | Inr blob \<Rightarrow>
          let r = row_of m blob
          in if \<not> replace \<and> has_key r (t_measurements db) then Inr (db, inserted)
          else
            rbind (put_series m (series_names m) (delete_series (mkey r) (t_series db))) (\<lambda>rows.
              Inr (db\<lparr>t_measurements := (if replace then insert_replace r (t_measurements db)
                         else t_measurements db @ [r]),
                      t_series := rows\<rparr>, Suc inserted)))"

fun write_all :: "bool \<Rightarrow> measurement list \<Rightarrow> mdb \<times> nat \<Rightarrow> store_error + mdb \<times> nat" where
  "write_all replace [] s = Inr s"
| "write_all replace (m # ms) s = rbind (write_one replace m s) (write_all replace ms)"

text \<open>
  \<open>writeMeasurements\<close>: the contents afterwards (unchanged when the transaction rolled back) and the
  number of rows written or the error.
\<close>

definition writeMeasurements :: "bool \<Rightarrow> measurement list \<Rightarrow> mdb \<Rightarrow> mdb \<times> (store_error + nat)" where
  "writeMeasurements replace ms db =
     (if ms = [] then (db, Inr 0)
      else case write_all replace ms (db, 0) of
        Inl e \<Rightarrow> (db, Inl e)
      | Inr (db', n) \<Rightarrow> (db', Inr n))"

definition WriteMeasurements :: "measurement list \<Rightarrow> mdb \<Rightarrow> mdb \<times> (store_error + unit)" where
  "WriteMeasurements ms db =
     (case writeMeasurements True ms db of (db', r) \<Rightarrow> (db', rbind r (\<lambda>_. Inr ())))"

text \<open>The number of duplicates, given with the error too.\<close>

definition IngestMeasurements :: "measurement list \<Rightarrow> mdb \<Rightarrow> mdb \<times> (store_error + nat)" where
  "IngestMeasurements ms db =
     (case writeMeasurements False ms db of (db', r) \<Rightarrow> (db', rbind r (\<lambda>n. Inr (length ms - n))))"

section \<open>Reading\<close>

definition maxSamplesPerRead :: nat where "maxSamplesPerRead = 20000000"
definition maxAvailabilityRows :: nat where "maxAvailabilityRows = 2000000"

definition tooLarge :: "string \<Rightarrow> nat \<Rightarrow> store_error" where
  "tooLarge what limit = ErrRangeTooLarge what limit"

text \<open>\<open>SELECT ... WHERE target_id = ? AND agent_id = ? AND ts >= ? AND ts < ? ORDER BY ts\<close>\<close>

definition select_range :: "mdb \<Rightarrow> int \<Rightarrow> int \<Rightarrow> int \<Rightarrow> int \<Rightarrow> mrow list" where
  "select_range db tid aid frm to = sort_key mr_ts
     (filter (\<lambda>r. mr_target r = tid \<and> mr_agent r = aid \<and> frm \<le> mr_ts r \<and> mr_ts r < to) (t_measurements db))"

definition select_series :: "mdb \<Rightarrow> int \<Rightarrow> int \<Rightarrow> int \<Rightarrow> int \<Rightarrow> srow list" where
  "select_series db tid aid frm to = sort_key sr_ts
     (filter (\<lambda>r. sr_target r = tid \<and> sr_agent r = aid \<and> frm \<le> sr_ts r \<and> sr_ts r < to) (t_series db))"

definition measurement_of :: "mrow \<Rightarrow> u32 list \<Rightarrow> measurement" where
  "measurement_of r samples = \<lparr>m_TargetID = mr_target r, m_AgentID = mr_agent r, m_TS = mr_ts r,
     m_Sent = mr_sent r, m_Received = mr_received r, m_Flags = mr_flags r, m_Samples = samples,
     m_ICMPErr = mr_icmp r, m_SendErr = mr_send r, m_Series = (\<lambda>_. None)\<rparr>"

fun read_rows :: "nat \<Rightarrow> measurement list \<Rightarrow> mrow list \<Rightarrow> store_error + measurement list" where
  "read_rows samples out [] = Inr out"
| "read_rows samples out (r # rs) =
     (let samples = samples + mr_received r
      in if samples > maxSamplesPerRead then Inl (tooLarge ''samples'' maxSamplesPerRead)
         else case Decode (mr_samples r) of
           Inl e \<Rightarrow> Inl (DecodeFailed e)
         | Inr xs \<Rightarrow> read_rows samples (out @ [measurement_of r xs]) rs)"

text \<open>
  \<open>attachSeries\<close>: a series that does not decode is left out, one without a measurement is an error.
\<close>

definition attach_one :: "srow \<Rightarrow> measurement list \<Rightarrow> store_error + measurement list" where
  "attach_one r ms =
     (if sr_ts r \<notin> m_TS ` set ms then Inl (OrphanSeries (sr_series r))
      else case DecodeSigned (sr_samples r) of
        Inl e \<Rightarrow> Inr ms
      | Inr vals \<Rightarrow> Inr (map (\<lambda>m. if m_TS m = sr_ts r
          then m\<lparr>m_Series := (m_Series m)(sr_series r \<mapsto> vals)\<rparr> else m) ms))"

fun attach_all :: "srow list \<Rightarrow> measurement list \<Rightarrow> store_error + measurement list" where
  "attach_all [] ms = Inr ms"
| "attach_all (r # rs) ms = rbind (attach_one r ms) (attach_all rs)"

definition attachSeries :: "mdb \<Rightarrow> int \<Rightarrow> int \<Rightarrow> int \<Rightarrow> int \<Rightarrow> measurement list \<Rightarrow> store_error + measurement list" where
  "attachSeries db tid aid frm to ms = attach_all (select_series db tid aid frm to) ms"

definition QueryRange :: "mdb \<Rightarrow> int \<Rightarrow> int \<Rightarrow> int \<Rightarrow> int \<Rightarrow> store_error + measurement list" where
  "QueryRange db tid aid frm to =
     rbind (read_rows 0 [] (select_range db tid aid frm to)) (attachSeries db tid aid frm to)"

definition AvailabilitySeries :: "mdb \<Rightarrow> int \<Rightarrow> int \<Rightarrow> int \<Rightarrow> int \<Rightarrow> store_error + (int \<times> nat \<times> nat) list" where
  "AvailabilitySeries db tid aid frm to =
     (let rows = select_range db tid aid frm to
      in if length rows > maxAvailabilityRows then Inl (tooLarge ''intervals'' maxAvailabilityRows)
         else Inr (map (\<lambda>r. (mr_ts r, mr_sent r, mr_received r)) rows))"

section \<open>Pruning\<close>

definition delete_before :: "int \<Rightarrow> int \<Rightarrow> mdb \<Rightarrow> mdb" where
  "delete_before tid end db =
     db\<lparr>t_measurements := filter (\<lambda>r. \<not> (mr_target r = tid \<and> mr_ts r < end)) (t_measurements db),
        t_series := filter (\<lambda>r. \<not> (sr_target r = tid \<and> sr_ts r < end)) (t_series db)\<rparr>"

text \<open>\<open>SELECT MIN(ts)\<close>\<close>

definition oldest :: "int \<Rightarrow> mdb \<Rightarrow> int option" where
  "oldest tid db = (case map mr_ts (filter (\<lambda>r. mr_target r = tid) (t_measurements db)) of
     [] \<Rightarrow> None | t # ts \<Rightarrow> Some (fold min ts t))"

lemma oldest_Some:
  assumes "oldest tid db = Some t"
  shows "\<exists>r \<in> set (t_measurements db). mr_target r = tid \<and> mr_ts r = t"
    and "r \<in> set (t_measurements db) \<Longrightarrow> mr_target r = tid \<Longrightarrow> t \<le> mr_ts r"
proof -
  let ?ts = "map mr_ts (filter (\<lambda>r. mr_target r = tid) (t_measurements db))"
  from assms obtain x xs where x: "?ts = x # xs" "t = fold min xs x" by (auto simp: oldest_def split: list.splits)
  then have t: "t = Min (set ?ts)" by (simp add: Min.set_eq_fold flip: list.set(2) del: set_map)
  then have "t \<in> set ?ts" using x(1) Min_in [of "set ?ts"] by (simp del: set_map)
  moreover have "y \<in> set ?ts \<Longrightarrow> t \<le> y" for y using t by (simp del: set_map)
  ultimately show "\<exists>r \<in> set (t_measurements db). mr_target r = tid \<and> mr_ts r = t"
    and "r \<in> set (t_measurements db) \<Longrightarrow> mr_target r = tid \<Longrightarrow> t \<le> mr_ts r" by auto
qed

lemma oldest_None: "oldest tid db = None \<longleftrightarrow> (\<forall>r \<in> set (t_measurements db). mr_target r \<noteq> tid)"
proof -
  have "oldest tid db = None \<longleftrightarrow> filter (\<lambda>r. mr_target r = tid) (t_measurements db) = []"
    by (cases "filter (\<lambda>r. mr_target r = tid) (t_measurements db)") (simp_all add: oldest_def)
  then show ?thesis by (simp add: filter_empty_conv)
qed

text \<open>
  The loop of \<open>PruneMeasurements\<close>: the contents, the rows deleted so far and whether it ended by itself;
  \<open>cancelled i\<close> says that the context was cancelled before slice \<open>i\<close>. The check for a slice that
  deleted nothing, which the source keeps so as not to spin, is what makes the loop end.
\<close>

function prune_loop :: "(nat \<Rightarrow> bool) \<Rightarrow> int \<Rightarrow> int \<Rightarrow> int \<Rightarrow> nat \<Rightarrow> nat \<Rightarrow> mdb \<Rightarrow> mdb \<times> nat \<times> bool" where
  "prune_loop cancelled tid cutoff sliceS i gone db =
     (if cancelled i then (db, gone, False)
      else case oldest tid db of
        None \<Rightarrow> (db, gone, True)
      | Some t \<Rightarrow>
          if t \<ge> cutoff then (db, gone, True)
          else
            let end = min (t + sliceS) cutoff;
                db' = delete_before tid end db;
                n = length (t_measurements db) - length (t_measurements db')
            in if n = 0 then (db', gone + n, True)
               else prune_loop cancelled tid cutoff sliceS (Suc i) (gone + n) db')"
  by pat_completeness auto
termination
  by (relation "measure (\<lambda>(_, _, _, _, _, _, db). length (t_measurements db))") auto

declare prune_loop.simps [simp del]

definition PruneMeasurements :: "(nat \<Rightarrow> bool) \<Rightarrow> int \<Rightarrow> int \<Rightarrow> int \<Rightarrow> mdb \<Rightarrow> mdb \<times> nat \<times> bool" where
  "PruneMeasurements cancelled tid cutoff sliceS db =
     prune_loop cancelled tid cutoff (if sliceS \<le> 0 then 6 * 3600 else sliceS) 0 0 db"

section \<open>The invariant of the tables\<close>

text \<open>
  Keys are unique, every row decodes to as many samples as it says, and every series row has its
  measurement, a known name and a blob that decodes.
\<close>

definition row_ok :: "mrow \<Rightarrow> bool" where
  "row_ok r \<longleftrightarrow> (\<exists>xs. Decode (mr_samples r) = Inr xs \<and> length xs = mr_received r)"

definition srow_ok :: "srow \<Rightarrow> bool" where
  "srow_ok r \<longleftrightarrow> series_Valid (sr_series r) \<and> (\<exists>vs. DecodeSigned (sr_samples r) = Inr vs)"

definition sname :: "srow \<Rightarrow> (int \<times> int \<times> int) \<times> string" where
  "sname r = (skey r, sr_series r)"

definition db_ok :: "mdb \<Rightarrow> bool" where
  "db_ok db \<longleftrightarrow> distinct (map mkey (t_measurements db)) \<and> list_all row_ok (t_measurements db) \<and>
     distinct (map sname (t_series db)) \<and> list_all srow_ok (t_series db) \<and>
     skey ` set (t_series db) \<subseteq> mkey ` set (t_measurements db)"

lemma mkey_row_of [simp]: "mkey (row_of m b) = (m_TargetID m, m_AgentID m, m_TS m)"
  by (simp add: mkey_def row_of_def)

lemma skey_srow_of [simp]: "skey (srow_of m name b) = (m_TargetID m, m_AgentID m, m_TS m)"
  "sr_series (srow_of m name b) = name" "sr_samples (srow_of m name b) = b"
  by (simp_all add: skey_def srow_of_def)

text \<open>What \<open>put_series\<close> adds: one row per name, under the measurement's key.\<close>

lemma put_series_Inr:
  assumes "put_series m names rows = Inr rows'"
  shows "\<exists>new. rows' = rows @ new \<and> map sr_series new = names \<and>
    (\<forall>r \<in> set new. skey r = (m_TargetID m, m_AgentID m, m_TS m) \<and> srow_ok r \<and>
      EncodeSigned (the (m_Series m (sr_series r))) = Inr (sr_samples r)) \<and>
    (distinct (map sname rows) \<longrightarrow> distinct (map sname rows'))"
  using assms
proof (induction m names rows rule: put_series.induct)
  case (2 m name names rows)
  then obtain b where b: "series_Valid name" "EncodeSigned (the (m_Series m name)) = Inr b"
    and ins: "(skey (srow_of m name b), sr_series (srow_of m name b)) \<notin> (\<lambda>q. (skey q, sr_series q)) ` set rows"
    and i: "insert_series (srow_of m name b) rows = Inr (rows @ [srow_of m name b])"
    and rest: "put_series m names (rows @ [srow_of m name b]) = Inr rows'"
    by (auto simp: rbind_Inr_iff insert_series_def split: if_splits sum.splits)
  from 2(1) [OF _ b(2) i rest] b(1) obtain new where
    new: "rows' = rows @ srow_of m name b # new" "map sr_series new = names"
      "\<forall>r \<in> set new. skey r = (m_TargetID m, m_AgentID m, m_TS m) \<and> srow_ok r \<and>
        EncodeSigned (the (m_Series m (sr_series r))) = Inr (sr_samples r)"
      "distinct (map sname (rows @ [srow_of m name b])) \<longrightarrow> distinct (map sname rows')" by auto
  have "distinct (map sname rows) \<longrightarrow> distinct (map sname (rows @ [srow_of m name b]))"
    using ins by (auto simp: sname_def)
  moreover have "srow_ok (srow_of m name b)"
    using b v2.dec_enc [OF b(2)] by (simp add: srow_ok_def)
  ultimately show ?case
    using new b(2) by (intro exI [of _ "srow_of m name b # new"]) auto
qed auto

lemma delete_series_simps:
  "distinct (map sname rows) \<Longrightarrow> distinct (map sname (delete_series k rows))"
  "list_all P rows \<Longrightarrow> list_all P (delete_series k rows)"
  "set (delete_series k rows) = {r \<in> set rows. skey r \<noteq> k}"
  by (auto simp: delete_series_def list_all_iff distinct_map inj_on_def)

lemma insert_replace_simps:
  "distinct (map mkey rows) \<Longrightarrow> distinct (map mkey (insert_replace r rows))"
  "mkey ` set (insert_replace r rows) = insert (mkey r) (mkey ` set rows)"
  by (auto simp: insert_replace_def distinct_map inj_on_def)

lemma write_one_ok [invariants]:
  assumes "db_ok db" and "write_one replace m (db, n) = Inr (db', n')"
  shows "db_ok db'"
proof (cases "db' = db")
  case False
  with assms(2) obtain blob rows where w: "m_Received m = length (m_Samples m)" "Encode (m_Samples m) = Inr blob"
    "replace \<or> \<not> has_key (row_of m blob) (t_measurements db)"
    "put_series m (series_names m) (delete_series (mkey (row_of m blob)) (t_series db)) = Inr rows"
    "db' = db\<lparr>t_measurements := (if replace then insert_replace (row_of m blob) (t_measurements db)
        else t_measurements db @ [row_of m blob]), t_series := rows\<rparr>"
    by (auto simp: write_one_def Let_def rbind_Inr_iff split: if_splits sum.splits)
  let ?r = "row_of m blob"
  obtain new where new: "rows = delete_series (mkey ?r) (t_series db) @ new"
    "\<forall>r \<in> set new. skey r = mkey ?r \<and> srow_ok r" "distinct (map sname rows)"
    using put_series_Inr [OF w(4)] assms(1) by (auto simp: db_ok_def delete_series_simps)
  have "row_ok ?r" using w(1) v1.dec_enc [OF w(2)] by (simp add: row_ok_def row_of_def)
  then show ?thesis
    using assms(1) new w(3)
    by (auto simp: db_ok_def w(5) insert_replace_simps delete_series_simps has_key_def list_all_iff
        insert_replace_def image_subset_iff distinct_map_filter)
qed (use assms(1) in simp)

lemma write_all_ok:
  "db_ok db \<Longrightarrow> write_all replace ms (db, n) = Inr (db', n') \<Longrightarrow> db_ok db'"
proof (induction ms arbitrary: db n)
  case (Cons m ms)
  then obtain s where s: "write_one replace m (db, n) = Inr s" "write_all replace ms s = Inr (db', n')"
    by (auto simp: rbind_Inr_iff)
  obtain db1 n1 where "s = (db1, n1)" by (cases s)
  then show ?case using Cons.IH [of db1 n1] s write_one_ok [OF Cons.prems(1)] by auto
qed simp

lemma writeMeasurements_ok [invariants]: "db_ok db \<Longrightarrow> db_ok (fst (writeMeasurements replace ms db))"
  by (auto simp: writeMeasurements_def split: sum.splits dest: write_all_ok)

section \<open>Pruning keeps the invariant and ends\<close>

lemma delete_before_twice:
  "delete_before tid a (delete_before tid b db) = delete_before tid (max a b) db"
  by (rule mdb.equality) (auto simp: delete_before_def intro!: filter_cong)

lemma delete_before_ok [invariants]: "db_ok db \<Longrightarrow> db_ok (delete_before tid e db)"
proof -
  assume ok: "db_ok db"
  have "skey r \<in> mkey ` {q \<in> set (t_measurements db). \<not> (mr_target q = tid \<and> mr_ts q < e)}"
    if r: "r \<in> set (t_series db)" "\<not> (sr_target r = tid \<and> sr_ts r < e)" for r
  proof -
    from ok r(1) obtain q where "q \<in> set (t_measurements db)" "mkey q = skey r" by (force simp: db_ok_def)
    with r(2) show ?thesis by (auto simp: mkey_def skey_def intro!: rev_image_eqI)
  qed
  with ok show ?thesis
    by (auto simp: db_ok_def delete_before_def distinct_map_filter list_all_iff)
qed

lemma delete_before_idle:
  assumes "db_ok db" and "\<And>t. oldest tid db = Some t \<Longrightarrow> e \<le> t"
  shows "delete_before tid e db = db"
proof -
  have m: "\<not> (mr_target r = tid \<and> mr_ts r < e)" if "r \<in> set (t_measurements db)" for r
    using that assms(2) oldest_Some(2) [of tid db _ r] oldest_None [of tid db] by (cases "oldest tid db") fastforce+
  have "\<not> (sr_target r = tid \<and> sr_ts r < e)" if "r \<in> set (t_series db)" for r
  proof -
    from assms(1) that obtain q where "q \<in> set (t_measurements db)" "mkey q = skey r" by (force simp: db_ok_def)
    with m [of q] show ?thesis by (auto simp: mkey_def skey_def)
  qed
  with m show ?thesis by (simp add: delete_before_def filter_id_conv)
qed

lemma delete_before_progress:
  "oldest tid db = Some t \<Longrightarrow> t < e \<Longrightarrow> length (t_measurements (delete_before tid e db)) < length (t_measurements db)"
  using oldest_Some(1) [of tid db t] by (auto simp: delete_before_def intro!: length_filter_less)

lemma delete_before_length: "length (t_measurements (delete_before tid e db)) \<le> length (t_measurements db)"
  by (simp add: delete_before_def)

lemma prune_loop_result:
  "0 < sliceS \<Longrightarrow> db_ok db \<Longrightarrow> prune_loop cancelled tid cutoff sliceS i gone db = (db', n, ended) \<Longrightarrow>
    (ended \<longrightarrow> db' = delete_before tid cutoff db) \<and>
    (db' = db \<or> (\<exists>e \<le> cutoff. db' = delete_before tid e db)) \<and>
    n = gone + (length (t_measurements db) - length (t_measurements db')) \<and>
    (\<not> ended \<longrightarrow> (\<exists>j \<ge> i. cancelled j))"
proof (induction cancelled tid cutoff sliceS i gone db rule: prune_loop.induct)
  case (1 cancelled tid cutoff sliceS i gone db)
  show ?case
  proof (cases "cancelled i \<or> (\<forall>t. oldest tid db = Some t \<longrightarrow> cutoff \<le> t)")
    case True
    then show ?thesis
      using 1(4) delete_before_idle [OF 1(3), of tid cutoff]
      by (subst (asm) prune_loop.simps) (auto split: if_splits option.splits)
  next
    case False
    then obtain t where t: "\<not> cancelled i" "oldest tid db = Some t" "\<not> t \<ge> cutoff" by auto
    let ?upto = "min (t + sliceS) cutoff"
    let ?db = "delete_before tid ?upto db"
    have lt: "length (t_measurements ?db) < length (t_measurements db)"
      using delete_before_progress [OF t(2), of ?upto] t(3) 1(2) by simp
    then have r: "prune_loop cancelled tid cutoff sliceS (Suc i)
        (gone + (length (t_measurements db) - length (t_measurements ?db))) ?db = (db', n, ended)"
      using 1(4) t by (subst (asm) prune_loop.simps) (simp add: Let_def)
    note IH = 1(1) [OF t refl refl refl _ 1(2) delete_before_ok [OF 1(3)] r]
    have le: "length (t_measurements db') \<le> length (t_measurements ?db)"
      using IH lt delete_before_length by fastforce
    have m: "max cutoff ?upto = cutoff" "\<And>e. e \<le> cutoff \<Longrightarrow> max e ?upto \<le> cutoff" by auto
    have "db' = ?db \<or> (\<exists>e \<le> cutoff. db' = delete_before tid (max e ?upto) db)"
      using IH lt by (auto simp: delete_before_twice)
    then have "\<exists>e \<le> cutoff. db' = delete_before tid e db" using m(2) min.cobounded2 by blast
    then have "db' = db \<or> (\<exists>e \<le> cutoff. db' = delete_before tid e db)" ..
    moreover have "n = gone + (length (t_measurements db) - length (t_measurements db'))"
      using IH lt le by auto
    moreover have "\<not> ended \<longrightarrow> (\<exists>j \<ge> i. cancelled j)"
      using IH lt by (auto dest: Suc_leD)
    moreover have "ended \<longrightarrow> db' = delete_before tid cutoff db"
      using IH lt m(1) by (auto simp: delete_before_twice)
    ultimately show ?thesis by blast
  qed
qed

section \<open>Reading what is stored\<close>

definition decoded :: "mrow \<Rightarrow> measurement" where
  "decoded r = measurement_of r (case Decode (mr_samples r) of Inl e \<Rightarrow> [] | Inr xs \<Rightarrow> xs)"

lemma read_rows_ok:
  "list_all row_ok rows \<Longrightarrow> read_rows s out rows =
    (if s + sum_list (map mr_received rows) \<le> maxSamplesPerRead \<or> rows = []
     then Inr (out @ map decoded rows) else Inl (tooLarge ''samples'' maxSamplesPerRead))"
proof (induction s out rows rule: read_rows.induct)
  case (2 s out r rs)
  then obtain xs where xs: "Decode (mr_samples r) = Inr xs" by (auto simp: row_ok_def)
  show ?case
  proof (cases "s + mr_received r > maxSamplesPerRead")
    case False
    from 2(1) [OF refl _ xs] 2(2) False have "read_rows (s + mr_received r) (out @ [measurement_of r xs]) rs =
        (if s + mr_received r + sum_list (map mr_received rs) \<le> maxSamplesPerRead \<or> rs = []
         then Inr ((out @ [measurement_of r xs]) @ map decoded rs) else Inl (tooLarge ''samples'' maxSamplesPerRead))" by simp
    then show ?thesis using False xs by (auto simp: decoded_def add.assoc Let_def)
  qed (simp add: Let_def)
qed simp

lemma attach_one_TS: "attach_one r ms = Inr ms' \<Longrightarrow> map m_TS ms' = map m_TS ms"
  by (auto simp: attach_one_def split: if_splits sum.splits)

lemma attach_all_total:
  "\<forall>r \<in> set rs. sr_ts r \<in> m_TS ` set ms \<Longrightarrow> \<exists>ms'. attach_all rs ms = Inr ms' \<and> map m_TS ms' = map m_TS ms"
proof (induction rs arbitrary: ms)
  case (Cons r rs)
  then have "sr_ts r \<in> m_TS ` set ms" by simp
  then obtain ms1 where a: "attach_one r ms = Inr ms1"
    by (cases "DecodeSigned (sr_samples r)") (simp_all add: attach_one_def)
  from attach_one_TS [OF a] have "map m_TS ms1 = map m_TS ms" .
  moreover from this have "m_TS ` set ms1 = m_TS ` set ms" by (metis set_map)
  ultimately show ?case using Cons.IH [of ms1] Cons.prems a by simp
qed simp

lemma set_select:
  "set (select_range db tid aid frm to) = {r \<in> set (t_measurements db). mr_target r = tid \<and> mr_agent r = aid \<and> frm \<le> mr_ts r \<and> mr_ts r < to}"
  "set (select_series db tid aid frm to) = {r \<in> set (t_series db). sr_target r = tid \<and> sr_agent r = aid \<and> frm \<le> sr_ts r \<and> sr_ts r < to}"
  by (auto simp: select_range_def select_series_def)

lemma decoded_TS [simp]: "m_TS (decoded r) = mr_ts r"
  by (simp add: decoded_def measurement_of_def)

lemma series_have_rows:
  assumes "db_ok db" and "r \<in> set (select_series db tid aid frm to)"
  shows "sr_ts r \<in> m_TS ` set (map decoded (select_range db tid aid frm to))"
proof -
  from assms obtain q where q: "q \<in> set (t_measurements db)" "mkey q = skey r"
    by (force simp: set_select db_ok_def)
  with assms(2) have "q \<in> set (select_range db tid aid frm to)" "mr_ts q = sr_ts r"
    by (auto simp: set_select mkey_def skey_def)
  then show ?thesis by (auto intro!: rev_image_eqI)
qed

text \<open>On tables that keep the invariant a range read can only fail by being too large.\<close>

lemma QueryRange_cases:
  assumes "db_ok db"
  shows "(\<exists>ms. QueryRange db tid aid frm to = Inr ms \<and> map m_TS ms = map mr_ts (select_range db tid aid frm to)) \<or>
    QueryRange db tid aid frm to = Inl (tooLarge ''samples'' maxSamplesPerRead)"
proof -
  let ?rows = "select_range db tid aid frm to"
  have "list_all row_ok ?rows" using assms by (auto simp: db_ok_def list_all_iff set_select)
  note r = read_rows_ok [OF this, of 0 "[]"]
  have "\<forall>r \<in> set (select_series db tid aid frm to). sr_ts r \<in> m_TS ` set (map decoded ?rows)"
    using series_have_rows [OF assms] by blast
  then have "\<exists>ms. attachSeries db tid aid frm to (map decoded ?rows) = Inr ms \<and> map m_TS ms = map m_TS (map decoded ?rows)"
    unfolding attachSeries_def by (intro attach_all_total) simp
  then show ?thesis using r by (auto simp: QueryRange_def comp_def)
qed

section \<open>One write, read back\<close>

text \<open>Attaching the rows of one key to its measurement collects them into a map.\<close>

lemma attach_all_one:
  assumes "\<forall>r \<in> set rs. sr_ts r = m_TS m \<and> DecodeSigned (sr_samples r) = Inr (f (sr_series r))"
  shows "attach_all rs [m] = Inr [m\<lparr>m_Series := m_Series m ++ map_of (map (\<lambda>r. (sr_series r, f (sr_series r))) (rev rs))\<rparr>]"
  using assms
proof (induction rs arbitrary: m)
  case (Cons r rs)
  let ?m = "m\<lparr>m_Series := (m_Series m)(sr_series r \<mapsto> f (sr_series r))\<rparr>"
  have "attach_one r [m] = Inr [?m]" using Cons.prems by (simp add: attach_one_def)
  moreover have "attach_all rs [?m] = Inr [?m\<lparr>m_Series := m_Series ?m ++ map_of (map (\<lambda>r. (sr_series r, f (sr_series r))) (rev rs))\<rparr>]"
    using Cons.prems by (intro Cons.IH) simp
  ultimately show ?case by (simp add: map_add_def fun_eq_iff split: option.split)
qed simp

lemma map_of_names: "map_of (map (\<lambda>r. (g r, f (g r))) rs) n = (if n \<in> g ` set rs then Some (f n) else None)"
  by (induction rs) auto

lemma write_one_replace:
  assumes "write_one True m (db, n) = Inr (db', n')"
  obtains blob new where "m_Received m = length (m_Samples m)" and "Encode (m_Samples m) = Inr blob"
    and "t_measurements db' = insert_replace (row_of m blob) (t_measurements db)"
    and "t_series db' = delete_series (mkey (row_of m blob)) (t_series db) @ new"
    and "map sr_series new = series_names m" and "\<forall>r \<in> set new. skey r = mkey (row_of m blob)"
    and "\<forall>r \<in> set new. EncodeSigned (the (m_Series m (sr_series r))) = Inr (sr_samples r)"
proof -
  from assms obtain blob rows where w: "m_Received m = length (m_Samples m)" "Encode (m_Samples m) = Inr blob"
    "put_series m (series_names m) (delete_series (mkey (row_of m blob)) (t_series db)) = Inr rows"
    "db' = db\<lparr>t_measurements := insert_replace (row_of m blob) (t_measurements db), t_series := rows\<rparr>"
    by (auto simp: write_one_def Let_def rbind_Inr_iff split: if_splits sum.splits)
  from put_series_Inr [OF w(3)] obtain new where
    "rows = delete_series (mkey (row_of m blob)) (t_series db) @ new" "map sr_series new = series_names m"
    "\<forall>r \<in> set new. skey r = mkey (row_of m blob)"
    "\<forall>r \<in> set new. EncodeSigned (the (m_Series m (sr_series r))) = Inr (sr_samples r)" by auto
  then show ?thesis using w by (intro that) auto
qed

lemma select_key:
  "select_range db tid aid t (t + 1) = sort_key mr_ts (filter (\<lambda>r. mkey r = (tid, aid, t)) (t_measurements db))"
  "select_series db tid aid t (t + 1) = sort_key sr_ts (filter (\<lambda>r. skey r = (tid, aid, t)) (t_series db))"
  unfolding select_range_def select_series_def
  by (intro arg_cong [where f = "sort_key _"] filter_cong; auto simp: mkey_def skey_def)+

lemma read_back:
  assumes "write_one True m (db, n) = Inr (db', n')" and "finite (dom (m_Series m))"
    and "m_Received m \<le> maxSamplesPerRead"
  shows "QueryRange db' (m_TargetID m) (m_AgentID m) (m_TS m) (m_TS m + 1) = Inr [m]"
proof -
  from write_one_replace [OF assms(1)] obtain blob new where
    w: "m_Received m = length (m_Samples m)" "Encode (m_Samples m) = Inr blob"
      "t_measurements db' = insert_replace (row_of m blob) (t_measurements db)"
      "t_series db' = delete_series (mkey (row_of m blob)) (t_series db) @ new"
      "map sr_series new = series_names m" "\<forall>r \<in> set new. skey r = mkey (row_of m blob)"
      "\<forall>r \<in> set new. EncodeSigned (the (m_Series m (sr_series r))) = Inr (sr_samples r)" .
  let ?r = "row_of m blob" and ?f = "\<lambda>n. the (m_Series m n)"
  have dec: "Decode blob = Inr (m_Samples m)" using v1.dec_enc [OF w(2)] .
  have "select_range db' (m_TargetID m) (m_AgentID m) (m_TS m) (m_TS m + 1) = [?r]"
    by (simp add: select_key w(3) insert_replace_def)
  moreover have s: "select_series db' (m_TargetID m) (m_AgentID m) (m_TS m) (m_TS m + 1) = sort_key sr_ts new"
    using w(6) by (simp add: select_key w(4) delete_series_def)
  moreover have d: "decoded ?r = m\<lparr>m_Series := \<lambda>_. None\<rparr>"
    using dec w(1) by (simp add: decoded_def row_of_def measurement_of_def)
  moreover have "row_ok ?r" using dec w(1) by (simp add: row_ok_def row_of_def)
  ultimately have "read_rows 0 [] [?r] = Inr [m\<lparr>m_Series := \<lambda>_. None\<rparr>]"
    using read_rows_ok [of "[?r]" 0 "[]"] assms(3) by (simp add: row_of_def del: read_rows.simps)
  moreover have "attach_all (sort_key sr_ts new) [m\<lparr>m_Series := \<lambda>_. None\<rparr>] = Inr [m]"
  proof -
    have "\<forall>r \<in> set (sort_key sr_ts new). sr_ts r = m_TS (m\<lparr>m_Series := \<lambda>_. None\<rparr>) \<and>
        DecodeSigned (sr_samples r) = Inr (?f (sr_series r))"
      using w(6,7) v2.dec_enc by (fastforce simp: skey_def)
    note a = attach_all_one [OF this]
    have "sr_series ` set new = dom (m_Series m)"
      using w(5) assms(2) by (metis series_names_def set_map set_sorted_list_of_set)
    then have "map_of (map (\<lambda>r. (sr_series r, ?f (sr_series r))) (rev (sort_key sr_ts new))) n = m_Series m n" for n
      using map_of_names [of sr_series ?f "rev (sort_key sr_ts new)" n] by (cases "m_Series m n") auto
    then have "map_of (map (\<lambda>r. (sr_series r, ?f (sr_series r))) (rev (sort_key sr_ts new))) = m_Series m" by (rule ext)
    then show ?thesis using a by simp
  qed
  ultimately show ?thesis
    using \<open>select_range db' (m_TargetID m) (m_AgentID m) (m_TS m) (m_TS m + 1) = [?r]\<close> s
    by (simp add: QueryRange_def attachSeries_def del: read_rows.simps)
qed

section \<open>Writing into a kept row\<close>

text \<open>Without replacement a write only appends, and only under keys that were not there.\<close>

definition appends :: "mdb \<Rightarrow> mdb \<Rightarrow> nat \<Rightarrow> bool" where
  "appends db db' n \<longleftrightarrow>
     (\<exists>new. t_measurements db' = t_measurements db @ new \<and> length new = n \<and>
        mkey ` set new \<inter> mkey ` set (t_measurements db) = {}) \<and>
     (\<forall>k \<in> mkey ` set (t_measurements db).
        filter (\<lambda>q. skey q = k) (t_series db') = filter (\<lambda>q. skey q = k) (t_series db))"

lemma appends_refl: "appends db db 0"
  by (simp add: appends_def)

lemma appends_trans: "appends db db1 m \<Longrightarrow> appends db1 db2 n \<Longrightarrow> appends db db2 (m + n)"
proof -
  assume a: "appends db db1 m" "appends db1 db2 n"
  then obtain u v where u: "t_measurements db1 = t_measurements db @ u" "length u = m"
      "mkey ` set u \<inter> mkey ` set (t_measurements db) = {}"
    and v: "t_measurements db2 = t_measurements db1 @ v" "length v = n"
      "mkey ` set v \<inter> mkey ` set (t_measurements db1) = {}" by (auto simp: appends_def)
  have "filter (\<lambda>q. skey q = k) (t_series db2) = filter (\<lambda>q. skey q = k) (t_series db)"
    if "k \<in> mkey ` set (t_measurements db)" for k
  proof -
    have "k \<in> mkey ` set (t_measurements db1)" using that u(1) by auto
    then show ?thesis using a(1) [unfolded appends_def, THEN conjunct2] a(2) [unfolded appends_def, THEN conjunct2] that
      by metis
  qed
  moreover have "t_measurements db2 = t_measurements db @ (u @ v)" "length (u @ v) = m + n"
    "mkey ` set (u @ v) \<inter> mkey ` set (t_measurements db) = {}" using u v by auto
  ultimately show ?thesis unfolding appends_def by blast
qed

lemma write_one_appends:
  assumes "write_one False m (db, n) = Inr (db', n')"
  shows "appends db db' (n' - n) \<and> n \<le> n' \<and> n' \<le> Suc n"
proof (cases "db' = db \<and> n' = n")
  case False
  from assms obtain blob where blob: "m_Received m = length (m_Samples m)" "Encode (m_Samples m) = Inr blob"
    by (simp add: write_one_def Let_def split: if_splits sum.splits)
  with assms False have w0: "\<not> has_key (row_of m blob) (t_measurements db)"
    by (simp add: write_one_def Let_def split: if_splits)
  obtain rows where w: "\<not> has_key (row_of m blob) (t_measurements db)"
    "put_series m (series_names m) (delete_series (mkey (row_of m blob)) (t_series db)) = Inr rows"
    "db' = db\<lparr>t_measurements := t_measurements db @ [row_of m blob], t_series := rows\<rparr>" "n' = Suc n"
    using assms blob w0 by (auto simp: write_one_def rbind_Inr_iff)
  from put_series_Inr [OF w(2)] obtain new where
    r: "rows = delete_series (mkey (row_of m blob)) (t_series db) @ new" "\<forall>r \<in> set new. skey r = mkey (row_of m blob)"
    by auto
  have "filter (\<lambda>q. skey q = k) rows = filter (\<lambda>q. skey q = k) (t_series db)"
    if k: "k \<in> mkey ` set (t_measurements db)" for k
  proof -
    have "k \<noteq> mkey (row_of m blob)" using k w(1) unfolding has_key_def by metis
    moreover from this have "filter (\<lambda>q. skey q = k) new = []" using r(2) by (auto simp: filter_empty_conv)
    ultimately show ?thesis by (auto simp: r(1) delete_series_def intro!: filter_cong)
  qed
  then show ?thesis using w by (auto simp: appends_def has_key_def)
qed (use appends_refl in simp)

lemma write_all_appends:
  "write_all False ms (db, n) = Inr (db', n') \<Longrightarrow> appends db db' (n' - n) \<and> n \<le> n' \<and> n' \<le> n + length ms"
proof (induction ms arbitrary: db n)
  case (Cons m ms)
  then obtain db1 n1 where s: "write_one False m (db, n) = Inr (db1, n1)" "write_all False ms (db1, n1) = Inr (db', n')"
    by (auto simp: rbind_Inr_iff)
  from write_one_appends [OF s(1)] Cons.IH [OF s(2)] have
    "appends db db1 (n1 - n)" "appends db1 db' (n' - n1)" "n \<le> n1" "n1 \<le> n'" "n1 \<le> Suc n" "n' \<le> n1 + length ms" by auto
  then show ?case using appends_trans [of db db1 "n1 - n" db' "n' - n1"] by simp
qed (use appends_refl in simp)

section \<open>Properties\<close>

text \<open>
  Property C16. What keeps a stored range readable: both ways of writing a batch (and a batch that
  fails half way), and a pruning however far it got, keep the tables consistent: keys unique, every
  blob decodable to as many samples as its row says, no series row without its measurement. On
  consistent tables a range read returns exactly the intervals of the window, in order, or
  the one error that the window is too large; never a decoding or an orphan error.
\<close>

theorem tables_stay_readable:
  assumes "db_ok db"
  shows "db_ok (fst (WriteMeasurements ms db)) \<and> db_ok (fst (IngestMeasurements ms db)) \<and>
    db_ok (fst (PruneMeasurements cancelled tid cutoff sliceS db)) \<and>
    ((\<exists>out. QueryRange db tid aid frm to = Inr out \<and> map m_TS out = map mr_ts (select_range db tid aid frm to)) \<or>
     QueryRange db tid aid frm to = Inl (ErrRangeTooLarge ''samples'' 20000000))"
proof -
  let ?s = "if sliceS \<le> 0 then 6 * 3600 else sliceS"
  obtain db' n e where p: "prune_loop cancelled tid cutoff ?s 0 0 db = (db', n, e)" by (metis prod_cases3)
  have "0 < ?s" by simp
  then have "db_ok db'" using prune_loop_result [OF _ assms p] assms delete_before_ok by metis
  moreover have "db_ok (fst (WriteMeasurements ms db)) \<and> db_ok (fst (IngestMeasurements ms db))"
    using writeMeasurements_ok [OF assms, of True ms] writeMeasurements_ok [OF assms, of False ms]
    by (auto simp: WriteMeasurements_def IngestMeasurements_def split: prod.splits)
  ultimately show ?thesis
    using QueryRange_cases [OF assms, of tid aid frm to] p
    by (simp add: PruneMeasurements_def tooLarge_def maxSamplesPerRead_def)
qed

definition example_m :: measurement where
  "example_m = \<lparr>m_TargetID = 7, m_AgentID = 0, m_TS = 60, m_Sent = 3, m_Received = 2, m_Flags = 0,
     m_Samples = [900, 1200], m_ICMPErr = None, m_SendErr = None, m_Series = [IPDVSend \<mapsto> [-5, 7]]\<rparr>"

definition empty_db :: mdb where
  "empty_db = \<lparr>t_measurements = [], t_series = []\<rparr>"

lemma empty_db_ok: "db_ok empty_db"
  by (simp add: db_ok_def empty_db_def)

theorem tables_stay_readable_witness: "db_ok (fst (WriteMeasurements [example_m] empty_db))"
  using tables_stay_readable [OF empty_db_ok, of "[example_m]"] by blast

text \<open>
  Property C17. A write is read back exactly: after \<open>WriteMeasurements\<close> of one interval succeeded, reading
  the second it is stored under returns that interval with every field, sample and extra
  series as it was written, whatever was stored there before, and every read of a window that
  does not hold it is as it was.
\<close>

theorem write_then_read:
  assumes "WriteMeasurements [m] db = (db', Inr ())" and "finite (dom (m_Series m))"
    and "m_Received m \<le> 20000000"
  shows "QueryRange db' (m_TargetID m) (m_AgentID m) (m_TS m) (m_TS m + 1) = Inr [m] \<and>
    (\<not> (tid = m_TargetID m \<and> aid = m_AgentID m \<and> frm \<le> m_TS m \<and> m_TS m < to) \<longrightarrow>
      QueryRange db' tid aid frm to = QueryRange db tid aid frm to)"
proof -
  from assms(1) obtain n where w: "write_one True m (db, 0) = Inr (db', n)"
    by (auto simp: WriteMeasurements_def writeMeasurements_def rbind_Inr_iff split: sum.splits prod.splits)
  have "QueryRange db' tid aid frm to = QueryRange db tid aid frm to"
    if "\<not> (tid = m_TargetID m \<and> aid = m_AgentID m \<and> frm \<le> m_TS m \<and> m_TS m < to)"
  proof -
    from write_one_replace [OF w] obtain blob new where
      r: "t_measurements db' = insert_replace (row_of m blob) (t_measurements db)"
        "t_series db' = delete_series (mkey (row_of m blob)) (t_series db) @ new"
        "\<forall>r \<in> set new. skey r = mkey (row_of m blob)" .
    have "select_range db' tid aid frm to = select_range db tid aid frm to"
      using that by (auto simp: select_range_def r(1) insert_replace_def row_of_def mkey_def
          intro!: arg_cong [where f = "sort_key mr_ts"] filter_cong)
    moreover have "filter (\<lambda>r. sr_target r = tid \<and> sr_agent r = aid \<and> frm \<le> sr_ts r \<and> sr_ts r < to) new = []"
      using r(3) that by (auto simp: filter_empty_conv skey_def)
    then have "select_series db' tid aid frm to = select_series db tid aid frm to"
      using that by (auto simp: select_series_def r(2) delete_series_def skey_def
          intro!: arg_cong [where f = "sort_key sr_ts"] filter_cong)
    ultimately show ?thesis by (simp add: QueryRange_def attachSeries_def [abs_def])
  qed
  then show ?thesis using read_back [OF w assms(2)] assms(3) by (simp add: maxSamplesPerRead_def)
qed

theorem write_then_read_witness:
  "QueryRange (fst (WriteMeasurements [example_m] empty_db)) 7 0 60 61 = Inr [example_m]"
proof -
  have "series_names example_m = [IPDVSend]" by (simp add: series_names_def example_m_def)
  then have "put_series example_m (series_names example_m) [] = put_series example_m [IPDVSend] []" by simp
  moreover have "\<exists>b. EncodeSigned [-5, 7] = Inr b"
    using v2.enc_cases [of "[-5, 7]"] by simp
  moreover have "\<exists>b. Encode [900, 1200] = Inr b"
    using v1.enc_cases [of "[900, 1200]"] by simp
  ultimately have "\<exists>db. WriteMeasurements [example_m] empty_db = (db, Inr ())"
    by (auto simp: WriteMeasurements_def writeMeasurements_def write_one_def example_m_def empty_db_def
        delete_series_def insert_series_def series_Valid_def series_All_def)
  then obtain db where "WriteMeasurements [example_m] empty_db = (db, Inr ())" ..
  from write_then_read [OF this] show ?thesis
    using \<open>WriteMeasurements [example_m] empty_db = (db, Inr ())\<close> by (simp add: example_m_def)
qed

text \<open>
  Further property. What an agent submits never rewrites history: \<open>IngestMeasurements\<close> leaves every stored
  interval and its extra series exactly as they were, only appends intervals whose key was not
  there, and counts the rest of the batch as duplicates; a batch with an error changes nothing.
\<close>

theorem ingest_keeps_history:
  assumes "IngestMeasurements ms db = (db', r)"
  shows "(\<exists>new. t_measurements db' = t_measurements db @ new \<and>
      mkey ` set new \<inter> mkey ` set (t_measurements db) = {} \<and>
      (\<forall>d. r = Inr d \<longrightarrow> d + length new = length ms)) \<and>
    (\<forall>k \<in> mkey ` set (t_measurements db).
      filter (\<lambda>q. skey q = k) (t_series db') = filter (\<lambda>q. skey q = k) (t_series db)) \<and>
    (\<forall>e. r = Inl e \<longrightarrow> db' = db)"
proof (cases "ms = []")
  case False
  show ?thesis
  proof (cases "write_all False ms (db, 0)")
    case (Inl e)
    then show ?thesis using assms False by (auto simp: IngestMeasurements_def writeMeasurements_def)
  next
    case (Inr s)
    then obtain n where w: "write_all False ms (db, 0) = Inr (db', n)" "r = Inr (length ms - n)"
      using assms False by (cases s) (auto simp: IngestMeasurements_def writeMeasurements_def)
    then show ?thesis using write_all_appends [OF w(1)] by (auto simp: appends_def)
  qed
qed (use assms in \<open>auto simp: IngestMeasurements_def writeMeasurements_def\<close>)

theorem ingest_keeps_history_witness:
  "t_measurements (fst (IngestMeasurements [example_m\<lparr>m_Sent := 99\<rparr>]
      \<lparr>t_measurements = [row_of example_m []], t_series = []\<rparr>)) = [row_of example_m []]"
proof -
  let ?db = "\<lparr>t_measurements = [row_of example_m []], t_series = []\<rparr>"
  have "\<exists>b. Encode [900, 1200] = Inr b" using v1.enc_cases [of "[900, 1200]"] by simp
  then have "IngestMeasurements [example_m\<lparr>m_Sent := 99\<rparr>] ?db = (?db, Inr 1)"
    by (auto simp: IngestMeasurements_def writeMeasurements_def write_one_def example_m_def has_key_def)
  from this ingest_keeps_history [OF this] show ?thesis by simp
qed

text \<open>
  Property C18. Pruning ends and deletes exactly what is due: whatever slice it works in, on consistent
  tables it terminates, and unless it is cancelled it leaves exactly the rows of other targets and
  those at or past the cutoff, with their extra series, and reports the number of intervals
  deleted. A cancelled pruning has deleted whole intervals up to some instant before the cutoff.
\<close>

theorem prune_exact:
  assumes "db_ok db" and "PruneMeasurements cancelled tid cutoff sliceS db = (db', n, ended)"
  shows "n = length (t_measurements db) - length (t_measurements db') \<and>
    (ended \<longrightarrow> t_measurements db' = filter (\<lambda>r. \<not> (mr_target r = tid \<and> mr_ts r < cutoff)) (t_measurements db) \<and>
      t_series db' = filter (\<lambda>r. \<not> (sr_target r = tid \<and> sr_ts r < cutoff)) (t_series db)) \<and>
    (\<not> ended \<longrightarrow> (\<exists>i. cancelled i) \<and> (db' = db \<or> (\<exists>e \<le> cutoff. db' = delete_before tid e db)))"
proof -
  have "0 < (if sliceS \<le> 0 then 6 * 3600 else sliceS)" by simp
  from prune_loop_result [OF this assms(1) assms(2) [unfolded PruneMeasurements_def]] show ?thesis
    by (auto simp: delete_before_def)
qed

theorem prune_exact_witness:
  "t_measurements (fst (PruneMeasurements (\<lambda>_. False) 7 100 0 (fst (WriteMeasurements [example_m] empty_db)))) = []"
proof -
  let ?db = "fst (WriteMeasurements [example_m] empty_db)"
  obtain db' n e where p: "PruneMeasurements (\<lambda>_. False) 7 100 0 ?db = (db', n, e)" by (metis prod_cases3)
  have "db_ok ?db" using writeMeasurements_ok [OF empty_db_ok, of True "[example_m]"]
    by (auto simp: WriteMeasurements_def split: prod.splits)
  moreover have "list_all (\<lambda>r. mr_target r = 7 \<and> mr_ts r < 100) (t_measurements ?db)"
    by (auto simp: WriteMeasurements_def writeMeasurements_def write_one_def empty_db_def example_m_def
        rbind_Inr_iff insert_replace_def row_of_def Let_def split: sum.splits prod.splits if_splits)
  ultimately show ?thesis using prune_exact [OF _ p] p by (auto simp: filter_empty_conv list_all_iff)
qed

end
