(* ===== verification/TableView.thy ===== *)
theory TableView
  imports MeasureDB
begin

text \<open>
  The two measurement tables as one map: from target, agent and interval to the measurement stored there,
  with its extra series. The operations of \<open>MeasureDB\<close> are operations of that map; what the tables are as
  lists of rows and blobs no longer matters to the theories that use them.
\<close>

section \<open>The map\<close>

type_synonym mkeys = "int \<times> int \<times> int"

definition key_of :: "measurement \<Rightarrow> mkeys" where
  "key_of m = (m_TargetID m, m_AgentID m, m_TS m)"

definition series_at :: "mdb \<Rightarrow> mkeys \<Rightarrow> string \<Rightarrow> i32 list option" where
  "series_at db k name =
     (case find (\<lambda>q. skey q = k \<and> sr_series q = name) (t_series db) of
        None \<Rightarrow> None
      | Some q \<Rightarrow> (case DecodeSigned (sr_samples q) of Inl _ \<Rightarrow> Some [] | Inr vs \<Rightarrow> Some vs))"

definition content :: "mdb \<Rightarrow> mrow \<Rightarrow> measurement" where
  "content db r = (decoded r)\<lparr>m_Series := series_at db (mkey r)\<rparr>"

definition view :: "mdb \<Rightarrow> mkeys \<Rightarrow> measurement option" where
  "view db k = map_option (content db) (find (\<lambda>r. mkey r = k) (t_measurements db))"

lemma key_of_content [simp]: "key_of (content db r) = mkey r"
  by (simp add: content_def decoded_def measurement_of_def key_of_def mkey_def)

lemma find_filter_sub: "(\<And>x. x \<in> set xs \<Longrightarrow> Q x \<Longrightarrow> P x) \<Longrightarrow> find Q (filter P xs) = find Q xs"
  by (induction xs) auto

lemma find_append: "find P (xs @ ys) = (case find P xs of None \<Rightarrow> find P ys | Some x \<Rightarrow> Some x)"
  by (induction xs) auto

lemma find_none_filter: "(\<And>x. x \<in> set xs \<Longrightarrow> Q x \<Longrightarrow> \<not> P x) \<Longrightarrow> find Q (filter P xs) = None"
  by (auto simp: find_None_iff)

lemma find_key: "find (\<lambda>r. mkey r = k) rows = Some r \<Longrightarrow> mkey r = k"
  by (induction rows) (auto split: if_split_asm)

lemma option_map_find:
  "(\<And>r. mkey r = k \<Longrightarrow> f r = g r) \<Longrightarrow> map_option f (find (\<lambda>r. mkey r = k) rows) = map_option g (find (\<lambda>r. mkey r = k) rows)"
  by (auto dest: find_key intro!: option.map_cong)

lemma view_dom: "k \<in> dom (view db) \<longleftrightarrow> k \<in> mkey ` set (t_measurements db)"
proof -
  have "view db k = None \<longleftrightarrow> k \<notin> mkey ` set (t_measurements db)" by (auto simp: view_def find_None_iff)
  then show ?thesis by auto
qed

lemma view_row:
  assumes "distinct (map mkey (t_measurements db))" and "r \<in> set (t_measurements db)"
  shows "view db (mkey r) = Some (content db r)"
proof -
  obtain q where q: "find (\<lambda>x. mkey x = mkey r) (t_measurements db) = Some q"
    using assms(2) by (cases "find (\<lambda>x. mkey x = mkey r) (t_measurements db)") (auto simp: find_None_iff)
  then have "q \<in> set (t_measurements db)" "mkey q = mkey r" by (auto simp: find_Some_iff)
  then have "q = r" using assms by (auto simp: distinct_map inj_on_def)
  then show ?thesis using q by (simp add: view_def)
qed

lemma view_key: "view db k = Some m \<Longrightarrow> key_of m = k"
  by (auto simp: view_def find_Some_iff)

lemma content_cong: "(\<And>name. series_at db' (mkey r) name = series_at db (mkey r) name) \<Longrightarrow> content db' r = content db r"
  by (simp add: content_def fun_eq_iff)

section \<open>Writing\<close>

lemma write_one_shape:
  assumes "write_one replace m (db, n) = Inr (db', n')"
  obtains (kept) "\<not> replace" "key_of m \<in> mkey ` set (t_measurements db)" "db' = db" "n' = n"
  | (written) blob new where "replace \<or> key_of m \<notin> mkey ` set (t_measurements db)" "n' = Suc n"
    "m_Received m = length (m_Samples m)" "Encode (m_Samples m) = Inr blob"
    "t_measurements db' = filter (\<lambda>q. mkey q \<noteq> key_of m) (t_measurements db) @ [row_of m blob]"
    "t_series db' = filter (\<lambda>q. skey q \<noteq> key_of m) (t_series db) @ new"
    "map sr_series new = series_names m" "\<forall>r \<in> set new. skey r = key_of m"
    "\<forall>r \<in> set new. EncodeSigned (the (m_Series m (sr_series r))) = Inr (sr_samples r)"
proof -
  from assms obtain blob where b: "m_Received m = length (m_Samples m)" "Encode (m_Samples m) = Inr blob"
    by (simp add: write_one_def Let_def split: if_split_asm sum.split_asm)
  have k: "mkey (row_of m blob) = key_of m" by (simp add: key_of_def)
  show thesis
  proof (cases "\<not> replace \<and> key_of m \<in> mkey ` set (t_measurements db)")
    case True
    then show ?thesis using assms b k by (intro kept) (auto simp: write_one_def has_key_def Let_def)
  next
    case False
    then obtain rows where p: "put_series m (series_names m) (delete_series (mkey (row_of m blob)) (t_series db)) = Inr rows"
      and d: "db' = db\<lparr>t_measurements := (if replace then insert_replace (row_of m blob) (t_measurements db)
                 else t_measurements db @ [row_of m blob]), t_series := rows\<rparr>" "n' = Suc n"
      using assms b k by (auto simp: write_one_def has_key_def Let_def rbind_Inr_iff)
    from put_series_Inr [OF p] obtain new where n: "rows = delete_series (mkey (row_of m blob)) (t_series db) @ new"
      "map sr_series new = series_names m" "\<forall>r \<in> set new. skey r = mkey (row_of m blob)"
      "\<forall>r \<in> set new. EncodeSigned (the (m_Series m (sr_series r))) = Inr (sr_samples r)" by auto
    have all: "filter (\<lambda>q. mkey q \<noteq> key_of m) (t_measurements db) = t_measurements db" if "\<not> replace"
    proof -
      from that False have "key_of m \<notin> mkey ` set (t_measurements db)" by simp
      then show ?thesis by (intro filter_True ballI) (metis imageI)
    qed
    show ?thesis
      using False d n b k all by (intro written [of blob new]) (auto simp: insert_replace_def delete_series_def)
  qed
qed

lemma series_at_written:
  assumes "t_series db' = filter (\<lambda>q. skey q \<noteq> key_of m) (t_series db) @ new"
    and "map sr_series new = series_names m" and "\<forall>r \<in> set new. skey r = key_of m"
    and "\<forall>r \<in> set new. EncodeSigned (the (m_Series m (sr_series r))) = Inr (sr_samples r)"
    and "finite (dom (m_Series m))"
  shows "series_at db' (key_of m) = m_Series m" and "k \<noteq> key_of m \<Longrightarrow> series_at db' k = series_at db k"
proof -
  have names: "sr_series ` set new = dom (m_Series m)"
    using assms(2,5) by (metis series_names_def set_map set_sorted_list_of_set)
  show "series_at db' (key_of m) = m_Series m"
  proof
    fix name
    have old: "find (\<lambda>q. skey q = key_of m \<and> sr_series q = name) (filter (\<lambda>q. skey q \<noteq> key_of m) (t_series db)) = None"
      by (rule find_none_filter) simp
    show "series_at db' (key_of m) name = m_Series m name"
    proof (cases "find (\<lambda>q. skey q = key_of m \<and> sr_series q = name) new")
      case None
      then have "name \<notin> sr_series ` set new" using assms(3) by (auto simp: find_None_iff)
      then have "m_Series m name = None" using names by auto
      then show ?thesis using old None by (simp add: series_at_def assms(1) find_append)
    next
      case (Some q)
      then have q: "q \<in> set new" "sr_series q = name" by (auto simp: find_Some_iff)
      then obtain vs where vs: "m_Series m name = Some vs" using names by blast
      then have "DecodeSigned (sr_samples q) = Inr vs" using assms(4) q v2.dec_enc by fastforce
      then show ?thesis using old Some vs by (simp add: series_at_def assms(1) find_append)
    qed
  qed
  show "series_at db' k = series_at db k" if k: "k \<noteq> key_of m"
  proof
    fix name
    have "find (\<lambda>q. skey q = k \<and> sr_series q = name) (filter (\<lambda>q. skey q \<noteq> key_of m) (t_series db)) =
        find (\<lambda>q. skey q = k \<and> sr_series q = name) (t_series db)" using k by (intro find_filter_sub) auto
    moreover have "find (\<lambda>q. skey q = k \<and> sr_series q = name) new = None" using k assms(3) by (auto simp: find_None_iff)
    ultimately show "series_at db' k name = series_at db k name"
      by (simp add: series_at_def assms(1) find_append split: option.split)
  qed
qed

definition put :: "bool \<Rightarrow> measurement \<Rightarrow> (mkeys \<Rightarrow> measurement option) \<Rightarrow> mkeys \<Rightarrow> measurement option" where
  "put replace m v = (if \<not> replace \<and> key_of m \<in> dom v then v else v(key_of m \<mapsto> m))"

lemma view_write_one:
  assumes "write_one replace m (db, n) = Inr (db', n')" and "finite (dom (m_Series m))"
  shows "view db' = put replace m (view db)"
  using assms(1)
proof (cases rule: write_one_shape)
  case kept
  then show ?thesis unfolding put_def view_dom by simp
next
  case (written blob new)
  note s = series_at_written [OF written(6-9) assms(2)]
  have k: "mkey (row_of m blob) = key_of m" by (simp add: key_of_def)
  have c: "content db' (row_of m blob) = m"
    using v1.dec_enc [OF written(4)] written(3) s(1)
    by (simp add: content_def decoded_def measurement_of_def row_of_def key_of_def mkey_def)
  have "view db' x = (if x = key_of m then Some m else view db x)" for x
  proof (cases "x = key_of m")
    case True
    have "find (\<lambda>r. mkey r = x) (filter (\<lambda>q. mkey q \<noteq> key_of m) (t_measurements db)) = None"
      using True by (intro find_none_filter) simp
    then show ?thesis using True k c by (simp add: view_def written(5) find_append)
  next
    case False
    have f: "find (\<lambda>r. mkey r = x) (filter (\<lambda>q. mkey q \<noteq> key_of m) (t_measurements db)) = find (\<lambda>r. mkey r = x) (t_measurements db)"
      using False by (intro find_filter_sub) simp
    have "content db' r = content db r" if "mkey r = x" for r using s(2) False that by (intro content_cong) simp
    then have "map_option (content db') (find (\<lambda>r. mkey r = x) (t_measurements db)) = view db x"
      unfolding view_def by (rule option_map_find)
    then show ?thesis using False k f
      by (cases "find (\<lambda>r. mkey r = x) (t_measurements db)") (simp_all add: view_def [of db'] written(5) find_append)
  qed
  then show ?thesis using written(1) unfolding put_def view_dom by (auto simp: fun_eq_iff)
qed

lemma view_write_all:
  assumes "write_all replace ms (db, n) = Inr (db', n')" and "\<forall>m \<in> set ms. finite (dom (m_Series m))"
  shows "view db' = fold (put replace) ms (view db)"
  using assms
proof (induction ms arbitrary: db n)
  case (Cons m ms)
  then obtain db1 n1 where s: "write_one replace m (db, n) = Inr (db1, n1)" "write_all replace ms (db1, n1) = Inr (db', n')"
    by (auto simp: rbind_Inr_iff)
  have "view db1 = put replace m (view db)" by (rule view_write_one [OF s(1)]) (use Cons.prems in simp)
  then show ?case using Cons.IH [OF s(2)] Cons.prems by simp
qed simp

lemma view_writeMeasurements:
  assumes "writeMeasurements replace ms db = (db', Inr n)" and "\<forall>m \<in> set ms. finite (dom (m_Series m))"
  shows "view db' = fold (put replace) ms (view db)"
  using assms view_write_all [of replace ms db 0] by (auto simp: writeMeasurements_def split: if_split_asm sum.split_asm)

text \<open>What a submission adds: keys that were free, each with the first measurement of the batch for it.\<close>

lemma fold_put_keep: "v k = Some m \<Longrightarrow> fold (put False) ms v k = Some m"
proof (induction ms arbitrary: v)
  case (Cons x ms)
  have "put False x v k = Some m" using Cons.prems by (auto simp: put_def)
  then show ?case using Cons.IH by simp
qed simp

lemma fold_put_cases:
  "fold (put False) ms v k = Some m \<Longrightarrow> v k = Some m \<or> v k = None \<and> m \<in> set ms \<and> key_of m = k"
proof (induction ms arbitrary: v)
  case (Cons x ms)
  then consider "put False x v k = Some m" | "put False x v k = None" "m \<in> set ms" "key_of m = k" by fastforce
  then show ?case by cases (auto simp: put_def split: if_split_asm)
qed simp

lemma fold_put_dom: "dom (fold (put False) ms v) = dom v \<union> key_of ` set ms"
  by (induction ms arbitrary: v) (auto simp: put_def)

section \<open>Forgetting\<close>

definition forget :: "measurement \<Rightarrow> mdb \<Rightarrow> mdb" where
  "forget m db = db\<lparr>t_measurements := filter (\<lambda>r. mkey r \<noteq> key_of m) (t_measurements db),
     t_series := filter (\<lambda>r. skey r \<noteq> key_of m) (t_series db)\<rparr>"

lemma forget_ok: "db_ok db \<Longrightarrow> db_ok (forget m db)"
  by (auto simp: db_ok_def forget_def distinct_map_filter list_all_iff)

lemma view_forget: "view (forget m db) = (view db)(key_of m := None)"
proof
  fix k
  have s: "series_at (forget m db) k = series_at db k" if "k \<noteq> key_of m" for k
  proof
    fix name
    have "find (\<lambda>q. skey q = k \<and> sr_series q = name) (filter (\<lambda>r. skey r \<noteq> key_of m) (t_series db)) =
        find (\<lambda>q. skey q = k \<and> sr_series q = name) (t_series db)" using that by (intro find_filter_sub) auto
    then show "series_at (forget m db) k name = series_at db k name" by (simp add: series_at_def forget_def)
  qed
  show "view (forget m db) k = ((view db)(key_of m := None)) k"
  proof (cases "k = key_of m")
    case True
    have "find (\<lambda>r. mkey r = k) (filter (\<lambda>r. mkey r \<noteq> key_of m) (t_measurements db)) = None"
      using True by (intro find_none_filter) simp
    then show ?thesis using True by (simp add: view_def forget_def)
  next
    case False
    have f: "find (\<lambda>r. mkey r = k) (filter (\<lambda>r. mkey r \<noteq> key_of m) (t_measurements db)) = find (\<lambda>r. mkey r = k) (t_measurements db)"
      using False by (intro find_filter_sub) simp
    have "content (forget m db) r = content db r" if "mkey r = k" for r using s False that by (intro content_cong) simp
    then have "map_option (content (forget m db)) (find (\<lambda>r. mkey r = k) (t_measurements db)) = view db k"
      unfolding view_def by (rule option_map_find)
    moreover have "t_measurements (forget m db) = filter (\<lambda>r. mkey r \<noteq> key_of m) (t_measurements db)" by (simp add: forget_def)
    ultimately show ?thesis using False f by (simp add: view_def [of "forget m db"])
  qed
qed

end
