(* ===== verification/Frame.thy ===== *)
theory Frame
  imports Prelude
begin

text \<open>
  The guards in front of the Arrow reader: \<open>screenFrames\<close> and its flatbuffer walk,
  \<open>internal/ingest/frame.go\<close>, and the allocation limit, \<open>internal/ingest/limit.go\<close>. Go's \<open>int\<close> is 32 or
  64 bits wide, so the width \<open>W\<close> is a parameter and sums wrap at it; a read outside a slice is the
  outcome \<open>Panic\<close>. The lemmas show that no read panics at either width, that an accepted stream is a
  schema followed by uncompressed record batches that lie inside the body, and that an accepted
  schema expands to at most 256 nodes.
\<close>

section \<open>Reading bytes\<close>

datatype frame_error = FrameShort | TruncatedPrefix | TooManyMessages | HeaderClaims int int
  | SchemaNotFirst | BatchBeforeSchema | CompressedBatch | BadMessageType int | BodyClaims int int
  | NoRecordBatch | NestsTooDeep | TooManyFields | Panic

type_synonym 'a res = "frame_error + 'a"

definition blen :: "u8 list \<Rightarrow> int" where "blen b = int (length b)"

text \<open>\<open>b[i]\<close>, and \<open>binary.LittleEndian.UintN(b[off:])\<close> of \<open>k\<close> bytes.\<close>

definition index_byte :: "u8 list \<Rightarrow> int \<Rightarrow> int res" where
  "index_byte b i = (if 0 \<le> i \<and> i < blen b then Inr (uint (b ! nat i)) else Inl Panic)"

fun le_value :: "u8 list \<Rightarrow> int" where
  "le_value [] = 0"
| "le_value (x # xs) = uint x + 256 * le_value xs"

definition le_read :: "nat \<Rightarrow> u8 list \<Rightarrow> int \<Rightarrow> int res" where
  "le_read k b off =
     (if 0 \<le> off \<and> off + int k \<le> blen b then Inr (le_value (take k (drop (nat off) b))) else Inl Panic)"

definition le16 :: "u8 list \<Rightarrow> int \<Rightarrow> int option res" where
  "le16 b off = (if off < 0 \<or> off > blen b - 2 then Inr None else rbind (le_read 2 b off) (\<lambda>v. Inr (Some v)))"

definition le32 :: "u8 list \<Rightarrow> int \<Rightarrow> int option res" where
  "le32 b off = (if off < 0 \<or> off > blen b - 4 then Inr None else rbind (le_read 4 b off) (\<lambda>v. Inr (Some v)))"

text \<open>\<open>uint64(x)\<close> of an \<open>int\<close>, and \<open>int32(x)\<close> of a \<open>uint32\<close>.\<close>

definition uint64_of :: "int \<Rightarrow> int" where "uint64_of x = x mod 2 ^ 64"
definition int32_of :: "int \<Rightarrow> int" where "int32_of x = wrap 32 x"

section \<open>Flatbuffer tables\<close>

record fbTable =
  fb_b :: "u8 list"
  fb_pos :: int

text \<open>\<open>if !ok { return errFrameShort }\<close>.\<close>

definition need :: "'a option res \<Rightarrow> ('a \<Rightarrow> 'b res) \<Rightarrow> 'b res" where
  "need m f = rbind m (\<lambda>v. case v of None \<Rightarrow> Inl FrameShort | Some x \<Rightarrow> f x)"

definition fbRoot :: "nat \<Rightarrow> u8 list \<Rightarrow> fbTable res" where
  "fbRoot W b = need (le32 b 0) (\<lambda>off.
     if off \<ge> uint64_of (blen b) then Inl FrameShort else Inr \<lparr>fb_b = b, fb_pos = wrap W off\<rparr>)"

text \<open>The result of \<open>field\<close> is \<open>Some pos\<close> when the field is present.\<close>

definition fb_field :: "nat \<Rightarrow> fbTable \<Rightarrow> int \<Rightarrow> int option res" where
  "fb_field W t vt =
     need (le32 (fb_b t) (fb_pos t)) (\<lambda>so.
       let vtable = wrap W (fb_pos t - int32_of so)
       in need (le16 (fb_b t) vtable) (\<lambda>size.
          if size < 4 then Inl FrameShort
          else if vt \<ge> size then Inr None
          else need (le16 (fb_b t) (wrap W (vtable + vt))) (\<lambda>rel.
            if rel = 0 then Inr None
            else let pos = wrap W (fb_pos t + rel)
                 in if pos < 0 \<or> pos \<ge> blen (fb_b t) then Inl FrameShort else Inr (Some pos))))"

definition fb_table :: "nat \<Rightarrow> fbTable \<Rightarrow> int \<Rightarrow> fbTable option res" where
  "fb_table W t vt =
     rbind (fb_field W t vt) (\<lambda>f. case f of
       None \<Rightarrow> Inr None
     | Some p \<Rightarrow> need (le32 (fb_b t) p) (\<lambda>rel.
         let pos = wrap W (p + wrap W rel)
         in if pos < 0 \<or> pos \<ge> blen (fb_b t) then Inl FrameShort
            else Inr (Some \<lparr>fb_b = fb_b t, fb_pos = pos\<rparr>)))"

definition fb_vector :: "nat \<Rightarrow> fbTable \<Rightarrow> int \<Rightarrow> (int \<times> int) res" where
  "fb_vector W t vt =
     rbind (fb_field W t vt) (\<lambda>f. case f of
       None \<Rightarrow> Inr (0, 0)
     | Some p \<Rightarrow> need (le32 (fb_b t) p) (\<lambda>rel.
         if rel > uint64_of (blen (fb_b t) - p) then Inl FrameShort
         else let vec = wrap W (p + wrap W rel)
         in need (le32 (fb_b t) vec) (\<lambda>count.
            if count > uint64_of (wrap W (wrap W (blen (fb_b t) - vec) - 4)) div 4 then Inl FrameShort
            else Inr (wrap W (vec + 4), wrap W count))))"

definition fb_element :: "nat \<Rightarrow> fbTable \<Rightarrow> int \<Rightarrow> int \<Rightarrow> fbTable res" where
  "fb_element W t first i =
     (let addr = wrap W (first + wrap W (4 * i))
      in need (le32 (fb_b t) addr) (\<lambda>rel.
         if rel > uint64_of (wrap W (wrap W (blen (fb_b t) - addr) - 1)) then Inl FrameShort
         else Inr \<lparr>fb_b = fb_b t, fb_pos = wrap W (addr + wrap W rel)\<rparr>))"

section \<open>The schema's size\<close>

definition maxMessages :: nat where "maxMessages = 32"
definition maxSchemaFields :: int where "maxSchemaFields = 256"
definition maxSchemaDepth :: nat where "maxSchemaDepth = 4"

definition vtMessageHeaderType :: int where "vtMessageHeaderType = 6"
definition vtMessageHeader :: int where "vtMessageHeader = 8"
definition vtMessageBodyLength :: int where "vtMessageBodyLength = 10"
definition vtBatchCompression :: int where "vtBatchCompression = 10"
definition vtSchemaFields :: int where "vtSchemaFields = 6"
definition vtSchemaMetadata :: int where "vtSchemaMetadata = 8"
definition vtFieldChildren :: int where "vtFieldChildren = 14"
definition vtFieldMetadata :: int where "vtFieldMetadata = 16"

definition metaVT :: "nat \<Rightarrow> int" where
  "metaVT depth = (if depth = 0 then vtSchemaMetadata else vtFieldMetadata)"

definition listVT :: "nat \<Rightarrow> int" where
  "listVT depth = (if depth = 0 then vtSchemaFields else vtFieldChildren)"

definition spend :: "int \<Rightarrow> int \<Rightarrow> int res" where
  "spend budget n = (if budget - n < 0 then Inl TooManyFields else Inr (budget - n))"

text \<open>
  \<open>countNodes\<close> and its loop over the children, which starts at \<open>i\<close>. The budget the source shares by
  pointer is an argument and the result. The guard on the depth bounds the recursion.
\<close>

function countNodes :: "nat \<Rightarrow> fbTable \<Rightarrow> int \<Rightarrow> nat \<Rightarrow> int res"
  and countChildren :: "nat \<Rightarrow> fbTable \<Rightarrow> int \<Rightarrow> int \<Rightarrow> int \<Rightarrow> int \<Rightarrow> nat \<Rightarrow> int res" where
  "countNodes W t budget depth =
     (if depth > maxSchemaDepth then Inl NestsTooDeep
      else rbind (fb_vector W t (metaVT depth)) (\<lambda>(first, m).
        rbind (spend budget m) (\<lambda>budget.
        rbind (fb_vector W t (listVT depth)) (\<lambda>(first, n).
        rbind (spend budget n) (\<lambda>budget.
          countChildren W t first 0 n budget depth)))))"
| "countChildren W t first i n budget depth =
     (if depth > maxSchemaDepth \<or> \<not> i < n then Inr budget
      else rbind (fb_element W t first i) (\<lambda>child.
        rbind (countNodes W child budget (Suc depth)) (\<lambda>budget.
          countChildren W t first (i + 1) n budget depth)))"
  by pat_completeness auto
termination
  by (relation "measures [\<lambda>x. case x of Inl (W, t, budget, depth) \<Rightarrow> 2 * (maxSchemaDepth + 2 - depth)
      | Inr (W, t, first, i, n, budget, depth) \<Rightarrow> 2 * (maxSchemaDepth + 2 - depth) - 1,
     \<lambda>x. case x of Inl _ \<Rightarrow> 0 | Inr (W, t, first, i, n, budget, depth) \<Rightarrow> nat (n - i)]") auto

declare countNodes.simps [simp del] countChildren.simps [simp del]

text \<open>
  \<open>countChildren\<close> is entered only below the depth guard of \<open>countNodes\<close>, so its own test of the depth
  (which makes its termination independent of the caller) never holds.
\<close>

section \<open>Messages\<close>

text \<open>The numbers of the message types are constants of the Arrow library.\<close>

record arrow =
  MessageSchema :: int
  MessageRecordBatch :: int

record msgHeader =
  hdr_typ :: int
  hdr_compressed :: bool

definition int64_of :: "int \<Rightarrow> int" where "int64_of x = wrap 64 x"

definition inspect_type :: "nat \<Rightarrow> u8 list \<Rightarrow> fbTable \<Rightarrow> int res" where
  "inspect_type W meta root' =
     rbind (fb_field W root' vtMessageHeaderType) (\<lambda>f. case f of
       None \<Rightarrow> Inr 0
     | Some p \<Rightarrow> if p \<ge> blen meta then Inl FrameShort else index_byte meta p)"

definition inspect_length :: "nat \<Rightarrow> u8 list \<Rightarrow> fbTable \<Rightarrow> int res" where
  "inspect_length W meta root' =
     rbind (fb_field W root' vtMessageBodyLength) (\<lambda>f. case f of
       None \<Rightarrow> Inr 0
     | Some p \<Rightarrow> if wrap W (p + 8) > blen meta then Inl FrameShort
                else rbind (le_read 8 meta p) (\<lambda>v. Inr (int64_of v)))"

definition inspectMessage :: "arrow \<Rightarrow> nat \<Rightarrow> u8 list \<Rightarrow> (msgHeader \<times> int) res" where
  "inspectMessage ar W meta =
     rbind (fbRoot W meta) (\<lambda>root'.
     rbind (inspect_type W meta root') (\<lambda>typ.
     rbind (inspect_length W meta root') (\<lambda>bodyLen.
     rbind (if typ = MessageSchema ar
            then rbind (fb_table W root' vtMessageHeader) (\<lambda>s. case s of
                None \<Rightarrow> Inr ()
              | Some schema \<Rightarrow> rbind (countNodes W schema maxSchemaFields 0) (\<lambda>_. Inr ()))
            else Inr ()) (\<lambda>_.
     rbind (if typ = MessageRecordBatch ar
            then rbind (fb_table W root' vtMessageHeader) (\<lambda>s. case s of
                None \<Rightarrow> Inl NoRecordBatch
              | Some batch \<Rightarrow> rbind (fb_field W batch vtBatchCompression) (\<lambda>p. Inr (p \<noteq> None)))
            else Inr False) (\<lambda>compressed.
       Inr (\<lparr>hdr_typ = typ, hdr_compressed = compressed\<rparr>, bodyLen))))))"

text \<open>The length prefix at \<open>off\<close>: the length and the offset behind it.\<close>

definition read_prefix :: "nat \<Rightarrow> u8 list \<Rightarrow> int \<Rightarrow> (int \<times> int) res" where
  "read_prefix W body off =
     rbind (le32 body off) (\<lambda>r. case r of
       None \<Rightarrow> Inl TruncatedPrefix
     | Some n \<Rightarrow>
         let off = wrap W (off + 4)
         in if n = 0xFFFFFFFF
            then rbind (le32 body off) (\<lambda>r. case r of
                None \<Rightarrow> Inl TruncatedPrefix
              | Some n \<Rightarrow> Inr (n, wrap W (off + 4)))
            else Inr (n, off))"

text \<open>\<open>body[off : off+n]\<close>, which panics outside the slice.\<close>

definition slice :: "u8 list \<Rightarrow> int \<Rightarrow> int \<Rightarrow> u8 list res" where
  "slice b lo hi = (if 0 \<le> lo \<and> lo \<le> hi \<and> hi \<le> blen b then Inr (take (nat (hi - lo)) (drop (nat lo) b)) else Inl Panic)"

definition check_header :: "arrow \<Rightarrow> nat \<Rightarrow> msgHeader \<Rightarrow> unit res" where
  "check_header ar messages hdr =
     (if hdr_typ hdr = MessageSchema ar then check (messages \<noteq> 1) SchemaNotFirst
      else if hdr_typ hdr = MessageRecordBatch ar
      then rbind (check (messages = 1) BatchBeforeSchema) (\<lambda>_. check (hdr_compressed hdr) CompressedBatch)
      else Inl (BadMessageType (hdr_typ hdr)))"

text \<open>The loop; every round counts one more message, which bounds it.\<close>

function screen_loop :: "arrow \<Rightarrow> nat \<Rightarrow> u8 list \<Rightarrow> int \<Rightarrow> nat \<Rightarrow> unit res" where
  "screen_loop ar W body off messages =
     (if \<not> off < blen body then Inr ()
      else rbind (read_prefix W body off) (\<lambda>(n, off).
        if n = 0 then Inr ()
        else let messages = Suc messages
        in if messages > maxMessages then Inl TooManyMessages
        else if n > uint64_of (blen body - off) then Inl (HeaderClaims n (blen body - off))
        else rbind (slice body off (wrap W (off + wrap W n))) (\<lambda>meta.
          let off = wrap W (off + wrap W n)
          in rbind (inspectMessage ar W meta) (\<lambda>(hdr, bodyLen).
             rbind (check_header ar messages hdr) (\<lambda>_.
             if bodyLen < 0 \<or> bodyLen > blen body - off then Inl (BodyClaims bodyLen (blen body - off))
             else screen_loop ar W body (wrap W (off + bodyLen)) messages)))))"
  by pat_completeness auto
termination
  by (relation "measure (\<lambda>(ar, W, body, off, messages). Suc maxMessages - messages)") auto

declare screen_loop.simps [simp del]

definition screenFrames :: "arrow \<Rightarrow> nat \<Rightarrow> u8 list \<Rightarrow> unit res" where
  "screenFrames ar W body = screen_loop ar W body 0 0"

section \<open>No read panics\<close>

lemma le_value_range: "0 \<le> le_value xs \<and> le_value xs < 256 ^ length xs"
proof (induction xs)
  case (Cons x xs)
  have "0 \<le> uint x" "uint x < 256" using uint_ge_0 [of x] uint_lt2p [of x] by simp_all
  with Cons show ?case by simp
qed simp

lemma le_read_safe: "le_read k b off \<noteq> Inl Panic \<longleftrightarrow> 0 \<le> off \<and> off + int k \<le> blen b"
  by (simp add: le_read_def)

lemma le_read_range: "le_read k b off = Inr v \<Longrightarrow> 0 \<le> v \<and> v < 256 ^ k"
proof -
  assume "le_read k b off = Inr v"
  then have r: "0 \<le> off" "off + int k \<le> blen b" "v = le_value (take k (drop (nat off) b))"
    by (auto simp: le_read_def split: if_splits)
  then have "length (take k (drop (nat off) b)) = k" by (auto simp: blen_def)
  then show ?thesis using le_value_range [of "take k (drop (nat off) b)"] r(3) by simp
qed

lemma le16_cases:
  "le16 b off \<noteq> Inl Panic"
  "le16 b off = Inr (Some v) \<Longrightarrow> 0 \<le> off \<and> off + 2 \<le> blen b \<and> 0 \<le> v \<and> v < 65536"
  using le_read_safe [of 2 b off] le_read_range [of 2 b off]
  by (auto simp: le16_def result_simps split: if_splits)

lemma le32_cases:
  "le32 b off \<noteq> Inl Panic"
  "le32 b off = Inr (Some v) \<Longrightarrow> 0 \<le> off \<and> off + 4 \<le> blen b \<and> 0 \<le> v \<and> v < 4294967296"
  using le_read_safe [of 4 b off] le_read_range [of 4 b off]
  by (auto simp: le32_def result_simps split: if_splits)

lemma need_panics: "need m f = Inl Panic \<longleftrightarrow> m = Inl Panic \<or> (\<exists>x. m = Inr (Some x) \<and> f x = Inl Panic)"
  by (auto simp: need_def result_simps split: option.splits)

lemma need_Inr_iff [result_simps]: "need m f = Inr y \<longleftrightarrow> (\<exists>x. m = Inr (Some x) \<and> f x = Inr y)"
  by (auto simp: need_def result_simps split: option.splits)

named_theorems no_panic "reads that cannot panic"

lemmas [no_panic] = need_panics rbind_Inl_iff le16_cases(1) le32_cases(1)

lemma fb_field_safe [no_panic]: "fb_field W t vt \<noteq> Inl Panic"
  by (auto simp: fb_field_def Let_def no_panic split: if_splits option.splits)

lemma fb_field_range: "fb_field W t vt = Inr (Some p) \<Longrightarrow> 0 \<le> p \<and> p < blen (fb_b t)"
  by (auto simp: fb_field_def Let_def result_simps not_le split: if_splits)

lemma fbRoot_safe [no_panic]: "fbRoot W b \<noteq> Inl Panic"
  by (auto simp: fbRoot_def Let_def no_panic split: if_splits option.splits)

lemma fb_table_safe [no_panic]: "fb_table W t vt \<noteq> Inl Panic"
  by (auto simp: fb_table_def Let_def no_panic split: if_splits option.splits)

lemma fb_vector_safe [no_panic]: "fb_vector W t vt \<noteq> Inl Panic"
  by (auto simp: fb_vector_def Let_def no_panic split: if_splits option.splits)

lemma fb_element_safe [no_panic]: "fb_element W t first i \<noteq> Inl Panic"
  by (auto simp: fb_element_def Let_def no_panic split: if_splits option.splits)

lemma spend_safe [no_panic]: "spend b n \<noteq> Inl Panic"
  by (simp add: spend_def)

lemma count_safe:
  shows countNodes_safe: "countNodes W t budget depth \<noteq> Inl Panic"
    and countChildren_safe: "countChildren W t first i n budget depth \<noteq> Inl Panic"
proof (induction W t budget depth and W t first i n budget depth rule: countNodes_countChildren.induct)
  case (1 W t budget depth)
  show ?case
    by (subst countNodes.simps) (auto simp: no_panic 1 split: if_splits prod.splits)
next
  case (2 W t first i n budget depth)
  show ?case
    by (subst countChildren.simps) (auto simp: no_panic 2 split: if_splits)
qed

definition fits :: "nat \<Rightarrow> u8 list \<Rightarrow> bool" where
  "fits W b \<longleftrightarrow> W \<in> {32, 64} \<and> blen b + 16 \<le> 2 ^ (W - 1)"

lemma blen_nonneg [simp]: "0 \<le> blen b"
  by (simp add: blen_def)

lemma fits_wrap: "fits W b \<Longrightarrow> 0 \<le> i \<Longrightarrow> i \<le> blen b + 8 \<Longrightarrow> wrap W i = i"
  by (rule wrap_id) (auto simp: fits_def)

lemma inspect_length_safe: "fits W meta \<Longrightarrow> fb_b t = meta \<Longrightarrow> inspect_length W meta t \<noteq> Inl Panic"
proof -
  assume f: "fits W meta" and t: "fb_b t = meta"
  have "le_read 8 meta p \<noteq> Inl Panic"
    if "fb_field W t vtMessageBodyLength = Inr (Some p)" "\<not> wrap W (p + 8) > blen meta" for p
    using fb_field_range [OF that(1)] that(2) fits_wrap [OF f, of "p + 8"] t by (simp add: le_read_safe)
  then show ?thesis
    by (auto simp: inspect_length_def no_panic split: option.splits if_splits)
qed

lemma inspect_type_safe: "fb_b t = meta \<Longrightarrow> inspect_type W meta t \<noteq> Inl Panic"
  using fb_field_range [of W t vtMessageHeaderType]
  by (auto simp: inspect_type_def no_panic index_byte_def split: option.splits if_splits)

lemma fbRoot_b: "fbRoot W b = Inr t \<Longrightarrow> fb_b t = b"
  by (auto simp: fbRoot_def result_simps split: if_splits)

lemma inspectMessage_safe: "fits W meta \<Longrightarrow> inspectMessage ar W meta \<noteq> Inl Panic"
  by (auto simp: inspectMessage_def no_panic countNodes_safe fbRoot_b
      inspect_length_safe inspect_type_safe split: option.splits if_splits)

section \<open>Accepted streams\<close>

text \<open>
  A stream as the reader will see it from an offset: it ends at the end of the body or at an
  end-of-stream marker, or it has a message whose header and body lie inside the body.
\<close>

inductive stream :: "arrow \<Rightarrow> nat \<Rightarrow> u8 list \<Rightarrow> int \<Rightarrow> msgHeader list \<Rightarrow> bool" for ar W body where
  stream_end: "blen body \<le> off \<Longrightarrow> stream ar W body off []"
| stream_eos: "read_prefix W body off = Inr (0, off') \<Longrightarrow> stream ar W body off []"
| stream_msg: "read_prefix W body off = Inr (n, start) \<Longrightarrow> 0 < n \<Longrightarrow> 0 \<le> off \<Longrightarrow> off < start \<Longrightarrow>
    start + n + len \<le> blen body \<Longrightarrow> 0 \<le> len \<Longrightarrow>
    inspectMessage ar W (take (nat n) (drop (nat start) body)) = Inr (hdr, len) \<Longrightarrow>
    stream ar W body (start + n + len) hdrs \<Longrightarrow> stream ar W body off (hdr # hdrs)"

lemma read_prefix_safe [no_panic]: "read_prefix W body off \<noteq> Inl Panic"
  by (auto simp: read_prefix_def Let_def no_panic split: option.splits if_splits)

lemma read_prefix_range:
  assumes "read_prefix W body off = Inr (n, start)" and "fits W body" and "0 \<le> off"
  shows "off < start \<and> start \<le> blen body \<and> 0 \<le> n \<and> n < 4294967296"
proof -
  from assms(1) obtain m where m: "le32 body off = Inr (Some m)"
    by (auto simp: read_prefix_def result_simps split: option.splits)
  then have off: "wrap W (off + 4) = off + 4" and "off + 4 \<le> blen body" and "0 \<le> m" "m < 4294967296"
    using le32_cases(2) [OF m] fits_wrap [OF assms(2), of "off + 4"] by auto
  show ?thesis
  proof (cases "m = 0xFFFFFFFF")
    case True
    with assms(1) m off obtain k where k: "le32 body (off + 4) = Inr (Some k)"
      "n = k" "start = wrap W (off + 4 + 4)"
      by (auto simp: read_prefix_def result_simps split: option.splits)
    then show ?thesis
      using le32_cases(2) [OF k(1)] fits_wrap [OF assms(2), of "off + 4 + 4"] assms(3) by auto
  next
    case False
    with assms(1) m off have "n = m" "start = off + 4"
      by (auto simp: read_prefix_def result_simps)
    then show ?thesis using \<open>off + 4 \<le> blen body\<close> \<open>0 \<le> m\<close> \<open>m < 4294967296\<close> by simp
  qed
qed

lemma fits_slice: "fits W body \<Longrightarrow> fits W (take k (drop j body))"
proof -
  assume "fits W body"
  moreover have "blen (take k (drop j body)) \<le> blen body" by (simp add: blen_def)
  ultimately show ?thesis by (simp add: fits_def)
qed

text \<open>One round of the loop with the wrap-around discharged.\<close>

lemma screen_loop_unfold:
  assumes f: "fits W body" and off: "0 \<le> off"
  shows "screen_loop ar W body off messages =
     (if \<not> off < blen body then Inr ()
      else rbind (read_prefix W body off) (\<lambda>(n, start).
        if n = 0 then Inr ()
        else if Suc messages > maxMessages then Inl TooManyMessages
        else if n > blen body - start then Inl (HeaderClaims n (blen body - start))
        else rbind (inspectMessage ar W (take (nat n) (drop (nat start) body))) (\<lambda>(hdr, len).
             rbind (check_header ar (Suc messages) hdr) (\<lambda>_.
             if len < 0 \<or> len > blen body - (start + n) then Inl (BodyClaims len (blen body - (start + n)))
             else screen_loop ar W body (start + n + len) (Suc messages)))))"
proof -
  have small: "blen body < 2 ^ 64" using f by (auto simp: fits_def)
  have "(let messages' = Suc messages in if messages' > maxMessages then Inl TooManyMessages
        else if n > uint64_of (blen body - start) then Inl (HeaderClaims n (blen body - start))
        else rbind (slice body start (wrap W (start + wrap W n))) (\<lambda>meta.
          let off = wrap W (start + wrap W n)
          in rbind (inspectMessage ar W meta) (\<lambda>(hdr, bodyLen).
             rbind (check_header ar messages' hdr) (\<lambda>_.
             if bodyLen < 0 \<or> bodyLen > blen body - off then Inl (BodyClaims bodyLen (blen body - off))
             else screen_loop ar W body (wrap W (off + bodyLen)) messages')))) =
      (if Suc messages > maxMessages then Inl TooManyMessages
        else if n > blen body - start then Inl (HeaderClaims n (blen body - start))
        else rbind (inspectMessage ar W (take (nat n) (drop (nat start) body))) (\<lambda>(hdr, len).
             rbind (check_header ar (Suc messages) hdr) (\<lambda>_.
             if len < 0 \<or> len > blen body - (start + n) then Inl (BodyClaims len (blen body - (start + n)))
             else screen_loop ar W body (start + n + len) (Suc messages))))"
    if r: "read_prefix W body off = Inr (n, start)" for n start
  proof -
    note range = read_prefix_range [OF r f off]
    have u: "uint64_of (blen body - start) = blen body - start"
      using range small off by (simp add: uint64_of_def)
    show ?thesis
    proof (cases "n > blen body - start")
      case False
      then have w: "wrap W n = n" "wrap W (start + n) = start + n"
        using range off by (auto intro!: fits_wrap [OF f])
      have "slice body start (start + n) = Inr (take (nat n) (drop (nat start) body))"
        using False range off by (simp add: slice_def)
      moreover have "wrap W (start + n + len) = start + n + len" if "0 \<le> len" "len \<le> blen body - (start + n)" for len
        using that range off by (intro fits_wrap [OF f]) auto
      ultimately show ?thesis
        using False by (auto simp: u w Let_def intro!: rbind_cong)
    qed (simp add: u)
  qed
  then show ?thesis
    by (subst screen_loop.simps) (auto intro!: rbind_cong)
qed

lemma screen_loop_safe:
  "fits W body \<Longrightarrow> 0 \<le> off \<Longrightarrow> screen_loop ar W body off messages \<noteq> Inl Panic"
proof (induction "Suc maxMessages - messages" arbitrary: off messages)
  case 0
  then show ?case
    by (simp add: screen_loop_unfold) (auto simp: no_panic result_simps split: if_splits)
next
  case (Suc k)
  have check: "check_header ar m h \<noteq> Inl Panic" for m h
    by (auto simp: check_header_def rbind_Inl_iff)
  have next_safe: "screen_loop ar W body (start + n + len) (Suc messages) \<noteq> Inl Panic"
    if "read_prefix W body off = Inr (n, start)" "0 \<le> len" for n start len
    using Suc read_prefix_range [OF that(1)] that(2) by (intro Suc.hyps(1)) auto
  have inspect: "inspectMessage ar W (take i (drop j body)) \<noteq> Inl Panic" for i j
    using Suc.prems(1) by (intro inspectMessage_safe fits_slice)
  show ?case
    unfolding screen_loop_unfold [OF Suc.prems]
    using next_safe by (auto simp: no_panic check inspect split: if_splits)
qed

text \<open>What the loop accepts is such a stream, of the right messages.\<close>

definition allowed :: "arrow \<Rightarrow> nat \<Rightarrow> msgHeader list \<Rightarrow> bool" where
  "allowed ar messages hdrs \<longleftrightarrow>
     messages + length hdrs \<le> maxMessages \<and>
     (\<forall>k < length hdrs. check_header ar (Suc (messages + k)) (hdrs ! k) = Inr ())"

lemma allowed_Cons:
  "check_header ar (Suc messages) h = Inr () \<Longrightarrow> allowed ar (Suc messages) hs \<Longrightarrow> allowed ar messages (h # hs)"
  by (auto simp: allowed_def nth_Cons split: nat.split)

lemma screen_loop_stream:
  "fits W body \<Longrightarrow> 0 \<le> off \<Longrightarrow> messages \<le> maxMessages \<Longrightarrow> screen_loop ar W body off messages = Inr () \<Longrightarrow>
    \<exists>hdrs. stream ar W body off hdrs \<and> allowed ar messages hdrs"
proof (induction "Suc maxMessages - messages" arbitrary: off messages)
  case (Suc k)
  show ?case
  proof (cases "off < blen body")
    case False
    then show ?thesis using Suc.prems(3) by (intro exI [of _ "[]"]) (simp add: stream_end allowed_def)
  next
    case True
    with Suc.prems(4) obtain n start where r: "read_prefix W body off = Inr (n, start)"
      unfolding screen_loop_unfold [OF Suc.prems(1,2)] by (auto simp: result_simps)
    note range = read_prefix_range [OF r Suc.prems(1,2)]
    show ?thesis
    proof (cases "n = 0")
      case True
      then show ?thesis using r Suc.prems(3)
        by (intro exI [of _ "[]"]) (auto simp: allowed_def intro: stream_eos)
    next
      case False
      with Suc.prems(4) True r obtain hdr len where
        m: "Suc messages \<le> maxMessages" "n \<le> blen body - start"
        "inspectMessage ar W (take (nat n) (drop (nat start) body)) = Inr (hdr, len)"
        "check_header ar (Suc messages) hdr = Inr ()" "0 \<le> len" "len \<le> blen body - (start + n)"
        "screen_loop ar W body (start + n + len) (Suc messages) = Inr ()"
        unfolding screen_loop_unfold [OF Suc.prems(1,2)] by (auto simp: result_simps not_less split: if_splits)
      have k: "k = Suc maxMessages - Suc messages" using Suc.hyps(2) by simp
      have "0 \<le> start + n + len" using range m(5) Suc.prems(2) by simp
      then obtain hdrs where "stream ar W body (start + n + len) hdrs" "allowed ar (Suc messages) hdrs"
        using Suc.hyps(1) [OF _ Suc.prems(1) _ m(1,7)] k by blast
      then show ?thesis
        using stream_msg [OF r _ Suc.prems(2) _ _ m(5,3)] allowed_Cons [OF m(4)] range m False by fastforce
    qed
  qed
qed simp

section \<open>What an accepted schema expands to\<close>

text \<open>
  The nodes the reader will build: a table names its metadata entries and its children, each
  reference counted as often as it is made, and each child expands in turn.
\<close>

inductive expands :: "nat \<Rightarrow> fbTable \<Rightarrow> nat \<Rightarrow> int \<Rightarrow> bool"
  and expands_from :: "nat \<Rightarrow> fbTable \<Rightarrow> int \<Rightarrow> int \<Rightarrow> int \<Rightarrow> nat \<Rightarrow> int \<Rightarrow> bool" for W where
  table: "fb_vector W t (metaVT depth) = Inr (f, m) \<Longrightarrow> fb_vector W t (listVT depth) = Inr (first, n) \<Longrightarrow>
    depth \<le> maxSchemaDepth \<Longrightarrow> expands_from W t first 0 n depth k \<Longrightarrow> expands W t depth (m + n + k)"
| none: "n \<le> i \<Longrightarrow> expands_from W t first i n depth 0"
| child: "i < n \<Longrightarrow> fb_element W t first i = Inr c \<Longrightarrow> expands W c (Suc depth) k \<Longrightarrow>
    expands_from W t first (i + 1) n depth l \<Longrightarrow> expands_from W t first i n depth (k + l)"

lemma count_expands:
  shows "countNodes W t budget depth = Inr budget' \<Longrightarrow> 0 \<le> budget \<Longrightarrow>
      \<exists>k. expands W t depth k \<and> budget' = budget - k \<and> 0 \<le> budget'"
    and "countChildren W t first i n budget depth = Inr budget' \<Longrightarrow> 0 \<le> budget \<Longrightarrow> depth \<le> maxSchemaDepth \<Longrightarrow>
      \<exists>k. expands_from W t first i n depth k \<and> budget' = budget - k \<and> 0 \<le> budget'"
proof (induction W t budget depth and W t first i n budget depth arbitrary: budget' and budget'
    rule: countNodes_countChildren.induct)
  case (1 W t budget depth)
  from 1(2) obtain f m first n where
    d: "depth \<le> maxSchemaDepth" "fb_vector W t (metaVT depth) = Inr (f, m)" "spend budget m = Inr (budget - m)"
    "fb_vector W t (listVT depth) = Inr (first, n)" "spend (budget - m) n = Inr (budget - m - n)"
    "countChildren W t first 0 n (budget - m - n) depth = Inr budget'" "0 \<le> budget - m - n"
    by (subst (asm) countNodes.simps) (auto simp: result_simps spend_def split: if_splits)
  from 1(1) [OF _ d(2) _ d(3) d(4) _ d(5) d(6)] d obtain k where
    "expands_from W t first 0 n depth k" "budget' = budget - m - n - k" "0 \<le> budget'" by auto
  then show ?case using table [OF d(2,4,1)] by (intro exI [of _ "m + n + k"]) auto
next
  case (2 W t first i n budget depth)
  show ?case
  proof (cases "i < n")
    case False
    then show ?thesis using 2(3-5) by (subst (asm) countChildren.simps) (auto intro: none)
  next
    case True
    with 2(3,5) obtain c b where c: "fb_element W t first i = Inr c" "countNodes W c budget (Suc depth) = Inr b"
      "countChildren W t first (i + 1) n b depth = Inr budget'"
      by (subst (asm) countChildren.simps) (auto simp: result_simps split: if_splits)
    from 2(1) [OF _ c(1,2) 2(4)] True 2(5) obtain k where k: "expands W c (Suc depth) k" "b = budget - k" "0 \<le> b"
      by auto
    from 2(2) [OF _ c(1,2,3) k(3) 2(5)] True 2(5) obtain l where
      "expands_from W t first (i + 1) n depth l" "budget' = b - l" "0 \<le> budget'" by auto
    then show ?thesis using child [OF True c(1) k(1)] k(2) by (intro exI [of _ "k + l"]) auto
  qed
qed

section \<open>The allocation limit\<close>

text \<open>
  \<open>limitAllocator\<close> only does the accounting; the allocator beneath it is arrow-go's, which returns
  buffers of the requested length. A refusal (the panic that \<open>DecodeBatch\<close> turns into an error)
  is \<open>Inl\<close> of what was wanted and used.
\<close>

record limitAllocator =
  la_used :: int
  la_limit :: int

definition maxDecodeBytes :: int where "maxDecodeBytes = 64 * 2 ^ 20"

definition newLimitAllocator :: "int \<Rightarrow> limitAllocator" where
  "newLimitAllocator limit = \<lparr>la_used = 0, la_limit = limit\<rparr>"

definition la_take :: "limitAllocator \<Rightarrow> int \<Rightarrow> (int \<times> int) + limitAllocator" where
  "la_take a delta =
     (if delta < 0 \<or> delta > la_limit a - la_used a then Inl (delta, la_used a)
      else Inr (a\<lparr>la_used := la_used a + delta\<rparr>))"

definition la_Allocate :: "limitAllocator \<Rightarrow> int \<Rightarrow> (int \<times> int) + limitAllocator" where
  "la_Allocate a size' = la_take a size'"

definition la_Reallocate :: "limitAllocator \<Rightarrow> int \<Rightarrow> int \<Rightarrow> (int \<times> int) + limitAllocator" where
  "la_Reallocate a size' len_b =
     rbind (if size' < 0 then la_take a size' else Inr a) (\<lambda>a.
       let d = size' - len_b in if d > 0 then la_take a d else Inr a)"

text \<open>What the reader does with it; \<open>live\<close> are the lengths of the buffers it holds.\<close>

datatype alloc_op = OpAllocate int | OpReallocate nat int | OpFree nat

fun alloc_step :: "limitAllocator \<times> int list \<Rightarrow> alloc_op \<Rightarrow> (int \<times> int) + limitAllocator \<times> int list" where
  "alloc_step (a, live) (OpAllocate n) = rbind (la_Allocate a n) (\<lambda>a. Inr (a, live @ [n]))"
| "alloc_step (a, live) (OpReallocate i n) =
     (if i < length live then rbind (la_Reallocate a n (live ! i)) (\<lambda>a. Inr (a, live[i := n]))
      else Inr (a, live))"
| "alloc_step (a, live) (OpFree i) = Inr (a, if i < length live then live[i := 0] else live)"

fun alloc_run :: "limitAllocator \<times> int list \<Rightarrow> alloc_op list \<Rightarrow> (int \<times> int) + limitAllocator \<times> int list" where
  "alloc_run s [] = Inr s"
| "alloc_run s (x # xs) = rbind (alloc_step s x) (\<lambda>s. alloc_run s xs)"

definition alloc_ok :: "int \<Rightarrow> limitAllocator \<times> int list \<Rightarrow> bool" where
  "alloc_ok limit s \<longleftrightarrow> (case s of (a, live) \<Rightarrow> la_limit a = limit \<and> la_used a \<le> limit \<and>
     list_all (\<lambda>n. 0 \<le> n) live \<and> sum_list live \<le> la_used a)"

lemma sum_list_update_int:
  "i < length xs \<Longrightarrow> sum_list (xs[i := (n::int)]) = sum_list xs - xs ! i + n"
  by (induction xs arbitrary: i) (auto split: nat.split)

lemma list_all_update: "list_all P xs \<Longrightarrow> P y \<Longrightarrow> list_all P (xs[i := y])"
  by (induction xs arbitrary: i) (auto split: nat.split)

lemma list_all_nthD: "list_all P xs \<Longrightarrow> i < length xs \<Longrightarrow> P (xs ! i)"
  by (simp add: list_all_length)

lemma alloc_step_ok [invariants]:
  "alloc_ok limit s \<Longrightarrow> alloc_step s x = Inr s' \<Longrightarrow> alloc_ok limit s'"
  by (induction s x rule: alloc_step.induct)
    (auto simp: alloc_ok_def la_Allocate_def la_Reallocate_def la_take_def Let_def result_simps
      sum_list_update_int list_all_update split: if_splits, drule (1) list_all_nthD, simp)

lemma alloc_run_ok: "alloc_ok limit s \<Longrightarrow> alloc_run s xs = Inr s' \<Longrightarrow> alloc_ok limit s'"
  by (induction s xs rule: alloc_run.induct) (auto simp: result_simps dest: alloc_step_ok)

section \<open>Properties\<close>

text \<open>
  Property C11. The screen never panics: whatever bytes an agent sends, on a 32-bit and on a 64-bit
  platform, no read of \<open>screenFrames\<close> or its flatbuffer walk leaves its slice (for a body shorter
  than the largest slice by 16 bytes, far above the body limit of the handler).
\<close>

theorem screen_never_panics:
  assumes "fits W body"
  shows "screenFrames ar W body \<noteq> Inl Panic"
  unfolding screenFrames_def by (rule screen_loop_safe [OF assms]) simp

theorem screen_never_panics_witness:
  "screenFrames \<lparr>MessageSchema = 1, MessageRecordBatch = 3\<rparr> 32 [255, 255, 255, 255, 8, 0, 0, 0, 200, 0] \<noteq> Inl Panic"
  by (rule screen_never_panics) (simp add: fits_def blen_def)

text \<open>
  Property C12. What the reader is given: an accepted body is a chain of at most 32 messages, each
  header and each body inside the bytes that are there, of which the first is the schema and
  every other an uncompressed record batch.
\<close>

theorem accepted_stream:
  assumes "fits W body" and "screenFrames ar W body = Inr ()"
    and "MessageSchema ar \<noteq> MessageRecordBatch ar"
  shows "\<exists>hdrs. stream ar W body 0 hdrs \<and> length hdrs \<le> 32 \<and>
    (case hdrs of [] \<Rightarrow> True
     | h # hs \<Rightarrow> hdr_typ h = MessageSchema ar \<and>
         list_all (\<lambda>h. hdr_typ h = MessageRecordBatch ar \<and> \<not> hdr_compressed h) hs)"
proof -
  from assms(2) obtain hdrs where s: "stream ar W body 0 hdrs" "allowed ar 0 hdrs"
    using screen_loop_stream [OF assms(1), of 0 0] by (auto simp: screenFrames_def)
  have first: "hdr_typ h = MessageSchema ar" if "check_header ar (Suc 0) h = Inr ()" for h
    using that by (auto simp: check_header_def split: if_splits)
  have rest: "hdr_typ h = MessageRecordBatch ar \<and> \<not> hdr_compressed h"
    if "check_header ar (Suc (Suc k)) h = Inr ()" for h k
    using that by (auto simp: check_header_def result_simps split: if_splits)
  show ?thesis
  proof (cases hdrs)
    case Nil
    then show ?thesis using s by (intro exI [of _ hdrs]) simp
  next
    case (Cons h hs)
    have "check_header ar (Suc 0) h = Inr ()" using s(2) Cons by (auto simp: allowed_def)
    moreover have "check_header ar (Suc (Suc k)) (hs ! k) = Inr ()" if "k < length hs" for k
      using s(2) Cons that by (auto simp: allowed_def dest!: spec [of _ "Suc k"])
    ultimately show ?thesis
      using s Cons first rest
      by (intro exI [of _ hdrs]) (auto simp: allowed_def maxMessages_def list_all_length)
  qed
qed

text \<open>A body of one schema message without fields, behind the continuation marker.\<close>

definition example_meta :: "u8 list" where
  "example_meta = [16, 0, 0, 0,  12, 0, 12, 0,  0, 0, 4, 0,  8, 0, 0, 0,
     12, 0, 0, 0,  1, 0, 0, 0,  8, 0, 0, 0,  4, 0, 4, 0,  4, 0, 0, 0]"

definition example_body :: "u8 list" where
  "example_body = [255, 255, 255, 255, 36, 0, 0, 0] @ example_meta"

definition arrow_types :: arrow where
  "arrow_types = \<lparr>MessageSchema = 1, MessageRecordBatch = 3\<rparr>"

lemma example_accepted_body: "screenFrames arrow_types 64 example_body = Inr ()"
  by code_simp

theorem accepted_stream_witness:
  "\<exists>hdrs. stream arrow_types 64 example_body 0 hdrs \<and> length hdrs \<le> 32"
proof -
  have "fits 64 example_body" by (simp add: fits_def blen_def example_body_def example_meta_def)
  from accepted_stream [OF this example_accepted_body] show ?thesis by (auto simp: arrow_types_def)
qed

text \<open>
  Further property. The cost of a schema is bounded by what it expands to: a schema message that passes
  names at most 256 fields and metadata entries, counted once per reference at every level, and
  nests at most four deep.
\<close>

theorem schema_expansion_bounded:
  assumes "inspectMessage ar W meta = Inr (hdr, len)" and "hdr_typ hdr = MessageSchema ar"
    and "fbRoot W meta = Inr root'" and "fb_table W root' vtMessageHeader = Inr (Some schema)"
  shows "\<exists>k \<le> 256. expands W schema 0 k"
proof -
  from assms obtain b where "countNodes W schema maxSchemaFields 0 = Inr b"
    by (auto simp: inspectMessage_def result_simps split: if_splits)
  from count_expands(1) [OF this] show ?thesis by (auto simp: maxSchemaFields_def)
qed

theorem schema_expansion_bounded_witness:
  "\<exists>k \<le> 256. expands 64 \<lparr>fb_b = example_meta, fb_pos = 32\<rparr> 0 k"
proof -
  have i: "inspectMessage arrow_types 64 example_meta = Inr (\<lparr>hdr_typ = 1, hdr_compressed = False\<rparr>, 0)"
    by code_simp
  have r: "fbRoot 64 example_meta = Inr \<lparr>fb_b = example_meta, fb_pos = 16\<rparr>" by code_simp
  have s: "fb_table 64 \<lparr>fb_b = example_meta, fb_pos = 16\<rparr> vtMessageHeader =
      Inr (Some \<lparr>fb_b = example_meta, fb_pos = 32\<rparr>)" by code_simp
  from schema_expansion_bounded [OF i _ r s] show ?thesis by (simp add: arrow_types_def)
qed

text \<open>
  Further property. Decoding is bounded in memory: over any sequence of allocations, reallocations and
  releases that was not refused, the buffers held never exceed the limit in total, and a
  negative size is always refused.
\<close>

theorem decode_allocation_bounded:
  assumes "alloc_run (newLimitAllocator limit, []) ops = Inr (a, live)" and "0 \<le> limit"
  shows "sum_list live \<le> la_used a \<and> la_used a \<le> limit \<and> list_all (\<lambda>n. 0 \<le> n) live"
proof -
  have "alloc_ok limit (newLimitAllocator limit, [])"
    using assms(2) by (simp add: alloc_ok_def newLimitAllocator_def)
  from alloc_run_ok [OF this assms(1)] show ?thesis by (simp add: alloc_ok_def)
qed

theorem decode_allocation_bounded_witness:
  "alloc_run (newLimitAllocator 100, []) [OpAllocate 60, OpReallocate 0 90] =
     Inr (\<lparr>la_used = 90, la_limit = 100\<rparr>, [90]) \<and> sum_list [90 :: int] \<le> 100"
proof -
  have r: "alloc_run (newLimitAllocator 100, []) [OpAllocate 60, OpReallocate 0 90] =
     Inr (\<lparr>la_used = 90, la_limit = 100\<rparr>, [90])"
    by (simp add: newLimitAllocator_def la_Allocate_def la_Reallocate_def la_take_def)
  with decode_allocation_bounded [OF r] show ?thesis by simp
qed

end
