(* ===== verification/Batch.thy ===== *)
theory Batch
  imports MeasureDB Frame
begin

text \<open>
  A submission on the wire: \<open>EncodeBatch\<close> and \<open>DecodeBatch\<close> of \<open>internal/ingest/batch.go\<close>. The Arrow
  library is not part of the repository: what its reader hands over is an argument, a stream of record
  batches with any columns, offsets and validity bitmaps at all, since that is what a hostile
  agent controls. An index out of range is the panic the source recovers from, the error \<open>Malformed\<close>.
\<close>

section \<open>What the Arrow reader hands over\<close>

text \<open>An array: its values, its offset into its buffers and the bytes of its validity bitmap.\<close>

record 'a arr =
  ar_vals :: "'a list"
  ar_off :: nat
  ar_bitmap :: "u8 list"

text \<open>A list column has a length, an offset, a bitmap, its offsets and the column they point into.\<close>

datatype col =
    CInt64 "int arr"
  | CTimestamp "int arr"
  | CUint16 "u16 arr"
  | CUint8 "u8 arr"
  | CUint32 "u32 arr"
  | CInt32 "i32 arr"
  | CList nat nat "u8 list" "int list" col
  | COther

record arecord =
  rb_rows :: nat
  rb_cols :: "(string \<times> col) list"

text \<open>How opening the stream, or the stream itself, ended.\<close>

datatype ending = EndOK | EndError | EndPanic | EndLimit int int

record arrow_stream =
  st_open :: ending
  st_recs :: "arecord list"
  st_end :: ending

datatype batch_error =
    Screened frame_error
  | ReaderFailed
  | OverLimit int int
  | Malformed
  | TooManyRows
  | MissingColumns "string list"
  | ColumnTypes
  | SendErrorType
  | ShortValidity string
  | NotList string
  | NotInt32List string
  | NotUint32Samples
  | NoOffset string nat
  | BadOffsets string nat int int
  | ReplyCount int int nat
  | SeriesTooLong int int string nat
  | WriteFailed

fun ended :: "ending \<Rightarrow> batch_error + unit" where
  "ended EndOK = Inr ()"
| "ended EndError = Inl ReaderFailed"
| "ended EndPanic = Inl Malformed"
| "ended (EndLimit a b) = Inl (OverLimit a b)"

text \<open>\<open>a.Value(i)\<close>, and \<open>a.IsNull(i)\<close>, which reads the bitmap without checking its length.\<close>

definition value_at :: "'a list \<Rightarrow> nat \<Rightarrow> batch_error + 'a" where
  "value_at xs i = (if i < length xs then Inr (xs ! i) else Inl Malformed)"

definition is_null :: "u8 list \<Rightarrow> nat \<Rightarrow> nat \<Rightarrow> batch_error + bool" where
  "is_null bm off i =
     (if bm = [] then Inr False
      else rbind (value_at bm ((off + i) div 8)) (\<lambda>b. Inr (\<not> bit b ((off + i) mod 8))))"

section \<open>Decoding\<close>

definition seriesColumns :: "string list" where
  "seriesColumns = [IPDVSend, IPDVReceive, ServerProcessing]"

definition MaxBatchRows :: nat where "MaxBatchRows = 10000"

definition listBounds :: "int list \<Rightarrow> nat \<Rightarrow> nat \<Rightarrow> string \<Rightarrow> batch_error + (nat \<times> nat)" where
  "listBounds offsets i childLen name =
     (if i + 1 \<ge> length offsets then Inl (NoOffset name i)
      else let lo = offsets ! i; hi = offsets ! (i + 1)
      in if lo < 0 \<or> hi < lo \<or> hi > int childLen then Inl (BadOffsets name i lo hi)
         else Inr (nat lo, nat hi))"

definition checkValidity :: "string \<Rightarrow> nat \<Rightarrow> nat \<Rightarrow> u8 list \<Rightarrow> batch_error + unit" where
  "checkValidity name n off bm =
     (if bm = [] then Inr () else check (length bm < (off + n + 7) div 8) (ShortValidity name))"

text \<open>The columns of a record once they are resolved by name and their types are checked.\<close>

record slist =
  sl_off :: nat
  sl_bitmap :: "u8 list"
  sl_offsets :: "int list"
  sl_vals :: "i32 list"

record columns =
  co_targets :: "int list"
  co_ts :: "int list"
  co_sent :: "u16 list"
  co_recv :: "u16 list"
  co_flags :: "u8 list"
  co_offsets :: "int list"
  co_values :: "u32 list"
  co_icmp :: "u16 arr"
  co_send :: "u8 arr option"
  co_series :: "(string \<times> slist) list"

definition required :: "string list" where
  "required = [''target_id'', ''ts'', ''sent'', ''received'', ''flags'', ''samples'', ''icmp_error'']"

fun series_column :: "(string \<times> col) list \<Rightarrow> string \<Rightarrow> batch_error + slist option" where
  "series_column cols name =
     (case map_of cols name of
        None \<Rightarrow> Inr None
      | Some (CList n off bm offs (CInt32 child)) \<Rightarrow>
          rbind (checkValidity name n off bm) (\<lambda>_.
            Inr (Some \<lparr>sl_off = off, sl_bitmap = bm, sl_offsets = offs, sl_vals = ar_vals child\<rparr>))
      | Some (CList _ _ _ _ _) \<Rightarrow> Inl (NotInt32List name)
      | Some _ \<Rightarrow> Inl (NotList name))"

fun series_columns :: "(string \<times> col) list \<Rightarrow> string list \<Rightarrow> batch_error + (string \<times> slist) list" where
  "series_columns cols [] = Inr []"
| "series_columns cols (name # names) =
     rbind (series_column cols name) (\<lambda>s. rbind (series_columns cols names) (\<lambda>ss.
       Inr (case s of None \<Rightarrow> ss | Some l \<Rightarrow> (name, l) # ss)))"

definition send_column :: "(string \<times> col) list \<Rightarrow> batch_error + u8 arr option" where
  "send_column cols =
     (case map_of cols ''send_error'' of
        None \<Rightarrow> Inr None | Some (CUint8 a) \<Rightarrow> Inr (Some a) | Some _ \<Rightarrow> Inl SendErrorType)"

definition resolve_columns :: "arecord \<Rightarrow> batch_error + columns" where
  "resolve_columns rec =
     (let cols = rb_cols rec; missing = filter (\<lambda>n. map_of cols n = None) required
      in if missing \<noteq> [] then Inl (MissingColumns missing)
         else case map (\<lambda>n. the (map_of cols n)) required of
           [CInt64 targets, CTimestamp ts, CUint16 sent, CUint16 recv, CUint8 flags, CList _ _ _ offs child, CUint16 icmp] \<Rightarrow>
             rbind (send_column cols) (\<lambda>send.
             rbind (checkValidity ''icmp_error'' (length (ar_vals icmp)) (ar_off icmp) (ar_bitmap icmp)) (\<lambda>_.
             rbind (case send of None \<Rightarrow> Inr ()
                    | Some a \<Rightarrow> checkValidity ''send_error'' (length (ar_vals a)) (ar_off a) (ar_bitmap a)) (\<lambda>_.
             rbind (series_columns cols seriesColumns) (\<lambda>series.
               case child of
                 CUint32 values \<Rightarrow>
                   Inr \<lparr>co_targets = ar_vals targets, co_ts = ar_vals ts, co_sent = ar_vals sent, co_recv = ar_vals recv,
                     co_flags = ar_vals flags, co_offsets = offs, co_values = ar_vals values, co_icmp = icmp,
                     co_send = send, co_series = series\<rparr>
               | _ \<Rightarrow> Inl NotUint32Samples))))
         | _ \<Rightarrow> Inl ColumnTypes)"

text \<open>\<open>xs[lo:hi]\<close>, once \<open>listBounds\<close> has accepted the bounds.\<close>

definition sub :: "'a list \<Rightarrow> nat \<times> nat \<Rightarrow> 'a list" where
  "sub xs b = take (snd b - fst b) (drop (fst b) xs)"

definition nullable :: "'a arr \<Rightarrow> nat \<Rightarrow> batch_error + 'a option" where
  "nullable a i = rbind (is_null (ar_bitmap a) (ar_off a) i) (\<lambda>null.
     if null then Inr None else rbind (value_at (ar_vals a) i) (\<lambda>v. Inr (Some v)))"

text \<open>The series of one row, in the order of the columns.\<close>

fun row_series :: "(string \<times> slist) list \<Rightarrow> nat \<Rightarrow> measurement \<Rightarrow> string list \<Rightarrow> batch_error + measurement" where
  "row_series series i m [] = Inr m"
| "row_series series i m (name # names) =
     (case map_of series name of
        None \<Rightarrow> row_series series i m names
      | Some l \<Rightarrow> rbind (is_null (sl_bitmap l) (sl_off l) i) (\<lambda>null.
          if null then row_series series i m names
          else rbind (listBounds (sl_offsets l) i (length (sl_vals l)) name) (\<lambda>b.
            if snd b - fst b > m_Sent m then Inl (SeriesTooLong (m_TargetID m) (m_TS m) name (snd b - fst b))
            else row_series series i (m\<lparr>m_Series := (m_Series m)(name \<mapsto> sort_key sint (sub (sl_vals l) b))\<rparr>) names)))"

text \<open>One row; \<open>None\<close> is a row with more replies than probes, which is dropped.\<close>

definition decode_row :: "int \<Rightarrow> columns \<Rightarrow> nat \<Rightarrow> batch_error + measurement option" where
  "decode_row agentID c i =
     rbind (value_at (co_targets c) i) (\<lambda>target.
     rbind (value_at (co_ts c) i) (\<lambda>ts.
     rbind (value_at (co_sent c) i) (\<lambda>sent.
     rbind (value_at (co_recv c) i) (\<lambda>recv.
     rbind (value_at (co_flags c) i) (\<lambda>flags.
     rbind (listBounds (co_offsets c) i (length (co_values c)) ''samples'') (\<lambda>b.
       let samples = sort (sub (co_values c) b)
       in if unat recv \<noteq> length samples then Inl (ReplyCount target ts (unat recv))
          else if unat recv > unat sent then Inr None
          else
            rbind (nullable (co_icmp c) i) (\<lambda>icmp.
            rbind (case co_send c of None \<Rightarrow> Inr None | Some a \<Rightarrow> nullable a i) (\<lambda>send.
            rbind (row_series (co_series c) i
                     \<lparr>m_TargetID = target, m_AgentID = agentID, m_TS = ts, m_Sent = unat sent, m_Received = unat recv,
                      m_Flags = flags, m_Samples = samples, m_ICMPErr = icmp, m_SendErr = send, m_Series = Map.empty\<rparr>
                     seriesColumns) (\<lambda>m.
              Inr (Some m))))))))))"

definition decode_record :: "int \<Rightarrow> arecord \<Rightarrow> batch_error + measurement list" where
  "decode_record agentID rec =
     rbind (resolve_columns rec) (\<lambda>c.
     rbind (rmap (decode_row agentID c) [0..<rb_rows rec]) (\<lambda>ms. Inr (List.map_filter id ms)))"

fun decode_records :: "int \<Rightarrow> nat \<Rightarrow> arecord list \<Rightarrow> batch_error + measurement list" where
  "decode_records agentID seen [] = Inr []"
| "decode_records agentID seen (rec # recs) =
     (let seen = seen + rb_rows rec
      in if seen > MaxBatchRows then Inl TooManyRows
         else rbind (decode_record agentID rec) (\<lambda>ms.
           rbind (decode_records agentID seen recs) (\<lambda>rest. Inr (ms @ rest))))"

text \<open>\<open>read\<close> is the Arrow reader under an allocation limit.\<close>

definition decodeFrames :: "(int \<Rightarrow> u8 list \<Rightarrow> arrow_stream) \<Rightarrow> u8 list \<Rightarrow> int \<Rightarrow> int \<Rightarrow> batch_error + measurement list" where
  "decodeFrames read body agentID limit =
     (let s = read limit body
      in rbind (ended (st_open s)) (\<lambda>_.
         rbind (decode_records agentID 0 (st_recs s)) (\<lambda>ms.
         rbind (ended (st_end s)) (\<lambda>_. Inr ms))))"

definition DecodeBatch :: "arrow \<Rightarrow> (int \<Rightarrow> u8 list \<Rightarrow> arrow_stream) \<Rightarrow> nat \<Rightarrow> u8 list \<Rightarrow> int \<Rightarrow> batch_error + measurement list" where
  "DecodeBatch ar read W body agentID =
     (case screenFrames ar W body of
        Inl e \<Rightarrow> Inl (Screened e)
      | Inr _ \<Rightarrow> decodeFrames read body agentID maxDecodeBytes)"


section \<open>Encoding\<close>

text \<open>What the builders produce: bitmaps of eight bits to the byte, offsets as 32-bit integers.\<close>

definition pack :: "bool list \<Rightarrow> u8 list" where
  "pack bs = map (\<lambda>j. horner_sum of_bool 2 (take 8 (drop (8 * j) bs))) [0..<(length bs + 7) div 8]"

definition offsets_of :: "nat list \<Rightarrow> int list" where
  "offsets_of lens = map (\<lambda>k. sint (word_of_nat (sum_list (take k lens)) :: i32)) [0..<Suc (length lens)]"

definition plain :: "'a list \<Rightarrow> 'a arr" where
  "plain xs = \<lparr>ar_vals = xs, ar_off = 0, ar_bitmap = []\<rparr>"

definition with_nulls :: "('a::zero) option list \<Rightarrow> 'a arr" where
  "with_nulls xs = \<lparr>ar_vals = map (case_option 0 id) xs, ar_off = 0, ar_bitmap = pack (map (\<lambda>x. x \<noteq> None) xs)\<rparr>"

definition list_column :: "('a list \<Rightarrow> col) \<Rightarrow> 'a list option list \<Rightarrow> col" where
  "list_column child xs =
     CList (length xs) 0 (pack (map (\<lambda>x. x \<noteq> None) xs))
       (offsets_of (map (\<lambda>x. length (case_option [] id x)) xs)) (child (concat (map (case_option [] id) xs)))"

definition encode_record :: "measurement list \<Rightarrow> arecord" where
  "encode_record ms =
     \<lparr>rb_rows = length ms,
      rb_cols =
        [(''target_id'', CInt64 (plain (map m_TargetID ms))),
         (''ts'', CTimestamp (plain (map m_TS ms))),
         (''sent'', CUint16 (plain (map (\<lambda>m. word_of_nat (m_Sent m)) ms))),
         (''received'', CUint16 (plain (map (\<lambda>m. word_of_nat (m_Received m)) ms))),
         (''flags'', CUint8 (plain (map m_Flags ms))),
         (''samples'', list_column (CUint32 \<circ> plain) (map (Some \<circ> m_Samples) ms)),
         (''icmp_error'', CUint16 (with_nulls (map m_ICMPErr ms))),
         (''send_error'', CUint8 (with_nulls (map m_SendErr ms)))] @
        map (\<lambda>name. (name, list_column (CInt32 \<circ> plain) (map (\<lambda>m. m_Series m name) ms))) seriesColumns\<rparr>"

text \<open>\<open>write\<close> is the Arrow writer.\<close>

definition EncodeBatch :: "(arecord \<Rightarrow> u8 list option) \<Rightarrow> measurement list \<Rightarrow> batch_error + u8 list" where
  "EncodeBatch write ms = (case write (encode_record ms) of None \<Rightarrow> Inl WriteFailed | Some b \<Rightarrow> Inr b)"

section \<open>Anything at all on the wire\<close>

text \<open>What a measurement from the wire has to be for the store to take it.\<close>

definition submission_ok :: "int \<Rightarrow> measurement \<Rightarrow> bool" where
  "submission_ok agentID m \<longleftrightarrow> m_AgentID m = agentID \<and> m_Received m = length (m_Samples m) \<and> m_Received m \<le> m_Sent m \<and>
     m_Sent m < 65536 \<and> sorted (m_Samples m) \<and>
     (\<forall>name vs. m_Series m name = Some vs \<longrightarrow> name \<in> set seriesColumns \<and> sorted (map sint vs) \<and> length vs \<le> m_Sent m)"

lemma listBounds_Inr:
  "listBounds offs i n name = Inr b \<Longrightarrow> fst b \<le> snd b \<and> snd b \<le> n \<and> i + 1 < length offs \<and>
     int (fst b) = offs ! i \<and> int (snd b) = offs ! (i + 1)"
  by (auto simp: listBounds_def Let_def split: if_split_asm)

lemma length_sub: "fst b \<le> snd b \<Longrightarrow> snd b \<le> length xs \<Longrightarrow> length (sub xs b) = snd b - fst b"
  by (simp add: sub_def)

lemma row_series_ok:
  "row_series series i m names = Inr m' \<Longrightarrow> submission_ok a m \<Longrightarrow> set names \<subseteq> set seriesColumns \<Longrightarrow> submission_ok a m'"
proof (induction series i m names rule: row_series.induct)
  case (2 series i m name names)
  show ?case
  proof (cases "map_of series name")
    case None
    then show ?thesis using 2(1) 2(4-6) by simp
  next
    case (Some l)
    then obtain nl where nl: "is_null (sl_bitmap l) (sl_off l) i = Inr nl"
      using 2(4) by (auto simp: rbind_Inr_iff)
    show ?thesis
    proof (cases nl)
      case True
      then show ?thesis using 2(2) [OF Some nl True] 2(4-6) Some nl by simp
    next
      case False
      then obtain b where b: "listBounds (sl_offsets l) i (length (sl_vals l)) name = Inr b" "\<not> snd b - fst b > m_Sent m"
        and rest: "row_series series i (m\<lparr>m_Series := (m_Series m)(name \<mapsto> sort_key sint (sub (sl_vals l) b))\<rparr>) names = Inr m'"
        using 2(4) Some nl by (auto simp: rbind_Inr_iff split: if_split_asm)
      have "length (sub (sl_vals l) b) \<le> m_Sent m" using listBounds_Inr [OF b(1)] b(2) by (simp add: length_sub)
      then have "submission_ok a (m\<lparr>m_Series := (m_Series m)(name \<mapsto> sort_key sint (sub (sl_vals l) b))\<rparr>)"
        using 2(5,6) by (auto simp: submission_ok_def)
      then show ?thesis using 2(3) [OF Some nl _ b] False rest 2(6) by simp
    qed
  qed
qed simp

lemma decode_row_ok:
  assumes "decode_row a c i = Inr (Some m)"
  shows "submission_ok a m"
proof -
  from assms obtain target ts flags b and sent recv :: u16 where
    b: "listBounds (co_offsets c) i (length (co_values c)) ''samples'' = Inr b"
    and r: "(if unat recv \<noteq> length (sort (sub (co_values c) b)) then Inl (ReplyCount target ts (unat recv))
          else if unat recv > unat sent then Inr None
          else
            rbind (nullable (co_icmp c) i) (\<lambda>icmp.
            rbind (case co_send c of None \<Rightarrow> Inr None | Some a \<Rightarrow> nullable a i) (\<lambda>send.
            rbind (row_series (co_series c) i
                     \<lparr>m_TargetID = target, m_AgentID = a, m_TS = ts, m_Sent = unat sent, m_Received = unat recv,
                      m_Flags = flags, m_Samples = sort (sub (co_values c) b), m_ICMPErr = icmp, m_SendErr = send,
                      m_Series = Map.empty\<rparr>
                     seriesColumns) (\<lambda>m.
              Inr (Some m))))) = Inr (Some m)"
    unfolding decode_row_def rbind_Inr_iff Let_def by (elim exE conjE) (rule that)
  then have s: "unat recv = length (sort (sub (co_values c) b))" "\<not> unat recv > unat sent"
    by (auto split: if_split_asm)
  with r obtain icmp send where
    m: "row_series (co_series c) i
        \<lparr>m_TargetID = target, m_AgentID = a, m_TS = ts, m_Sent = unat sent, m_Received = unat recv, m_Flags = flags,
          m_Samples = sort (sub (co_values c) b), m_ICMPErr = icmp, m_SendErr = send, m_Series = Map.empty\<rparr>
        seriesColumns = Inr m"
    by (simp add: rbind_Inr_iff) blast
  have "unat sent < 2 ^ LENGTH(16)" by (rule unsigned_less)
  then have "unat sent < 65536" by simp
  then show ?thesis using row_series_ok [OF m _ subset_refl] s by (simp add: submission_ok_def)
qed


lemma rmap_Inr_mem: "rmap f xs = Inr ys \<Longrightarrow> y \<in> set ys \<Longrightarrow> \<exists>x \<in> set xs. f x = Inr y"
  by (induction xs arbitrary: ys) (auto simp: rbind_Inr_iff)

lemma decode_records_ok:
  "decode_records a n recs = Inr ms \<Longrightarrow> (\<forall>m \<in> set ms. submission_ok a m) \<and> length ms + n \<le> max n MaxBatchRows"
proof (induction a n recs arbitrary: ms rule: decode_records.induct)
  case (2 a n rec recs)
  let ?n = "n + rb_rows rec"
  obtain xs rest where x: "\<not> ?n > MaxBatchRows" "decode_record a rec = Inr xs" "decode_records a ?n recs = Inr rest"
    "ms = xs @ rest"
    using 2(2) by (auto simp: Let_def rbind_Inr_iff split: if_split_asm)
  obtain c ys where ys: "rmap (decode_row a c) [0..<rb_rows rec] = Inr ys" "xs = List.map_filter id ys"
    using x(2) by (auto simp: decode_record_def rbind_Inr_iff)
  have "submission_ok a m" if "m \<in> set xs" for m
  proof -
    have "Some m \<in> set ys" using that ys(2) by (auto simp: List.map_filter_def)
    then show ?thesis using rmap_Inr_mem [OF ys(1)] decode_row_ok by blast
  qed
  moreover have "length xs \<le> rb_rows rec"
    using rmap_Inr_length [OF ys(1)] ys(2) by (auto simp: List.map_filter_def intro: order_trans [OF length_filter_le])
  moreover note 2(1) [OF refl x(1) x(2) x(3)]
  ultimately show ?case using x(1,4) by (auto simp: max_def split: if_split_asm)
qed simp

text \<open>What has the shape of a submission is written: no row of it can fail the transaction.\<close>

lemma put_series_total:
  assumes "distinct names" and "\<forall>n \<in> set names. series_Valid n \<and> sorted (map sint (the (m_Series m n)))"
    and "\<forall>q \<in> set rows. skey q = (m_TargetID m, m_AgentID m, m_TS m) \<longrightarrow> sr_series q \<notin> set names"
  shows "\<exists>rows'. put_series m names rows = Inr rows'"
  using assms
proof (induction names arbitrary: rows)
  case (Cons n names)
  let ?b = "Version2 # sample_bytes_signed (the (m_Series m n))"
  have e: "EncodeSigned (the (m_Series m n)) = Inr ?b" using Cons.prems(2) by (simp add: EncodeSigned_eq)
  have i: "insert_series (srow_of m n ?b) rows = Inr (rows @ [srow_of m n ?b])"
    using Cons.prems(3) by (auto simp: insert_series_def)
  have "\<exists>rows'. put_series m names (rows @ [srow_of m n ?b]) = Inr rows'"
    using Cons.prems by (intro Cons.IH) auto
  then show ?case using Cons.prems(2) e i by simp
qed simp

lemma finite_series: "submission_ok a m \<Longrightarrow> finite (dom (m_Series m)) \<and> dom (m_Series m) \<subseteq> set seriesColumns"
  by (auto simp: submission_ok_def dom_def intro: finite_subset [of _ "set seriesColumns"])

lemma write_one_total:
  assumes "submission_ok a m"
  shows "\<exists>s'. write_one False m s = Inr s'"
proof -
  obtain db n where s: "s = (db, n)" by (cases s)
  let ?b = "Version1 # sample_bytes (m_Samples m)" and ?k = "(m_TargetID m, m_AgentID m, m_TS m)"
  have e: "m_Received m = length (m_Samples m)" "Encode (m_Samples m) = Inr ?b"
    using assms by (simp_all add: submission_ok_def Encode_eq)
  have dom: "set (series_names m) = dom (m_Series m)" "distinct (series_names m)"
    using finite_series [OF assms] by (simp_all add: series_names_def)
  have "series_Valid x \<and> sorted (map sint (the (m_Series m x)))" if "x \<in> dom (m_Series m)" for x
    using assms that by (auto simp: submission_ok_def seriesColumns_def series_Valid_def series_All_def)
  then have "\<exists>rows'. put_series m (series_names m) (delete_series ?k (t_series db)) = Inr rows'"
    using dom by (intro put_series_total) (auto simp: delete_series_def)
  then show ?thesis using e s by (cases "has_key (row_of m ?b) (t_measurements db)") (auto simp: write_one_def)
qed

lemma write_all_total: "\<forall>m \<in> set ms. submission_ok a m \<Longrightarrow> \<exists>s'. write_all False ms s = Inr s'"
proof (induction ms arbitrary: s)
  case (Cons m ms)
  then obtain s1 where s1: "write_one False m s = Inr s1" using write_one_total [of a m s] by auto
  then show ?case using Cons.IH [of s1] Cons.prems by simp
qed simp

lemma IngestMeasurements_total:
  assumes "\<forall>m \<in> set ms. submission_ok a m"
  shows "\<exists>db' dup. IngestMeasurements ms db = (db', Inr dup)"
  using write_all_total [OF assms, of "(db, 0)"]
  by (cases "ms = []") (auto simp: IngestMeasurements_def writeMeasurements_def split: prod.splits)


section \<open>An honest batch arrives as it was sent\<close>

text \<open>
  What reading back a written record preserves: names, values, offsets and which slots are null. The
  bitmaps may be laid out anew, or left out where nothing is null.
\<close>

definition same_nulls :: "nat \<Rightarrow> nat \<Rightarrow> u8 list \<Rightarrow> nat \<Rightarrow> u8 list \<Rightarrow> bool" where
  "same_nulls n off bm off' bm' \<longleftrightarrow> (bm' = [] \<or> (off' + n + 7) div 8 \<le> length bm') \<and>
     (\<forall>i < n. is_null bm' off' i = is_null bm off i)"

fun same_col :: "col \<Rightarrow> col \<Rightarrow> bool" where
  "same_col (CInt64 a) (CInt64 b) = (ar_vals b = ar_vals a)"
| "same_col (CTimestamp a) (CTimestamp b) = (ar_vals b = ar_vals a)"
| "same_col (CUint16 a) (CUint16 b) = (ar_vals b = ar_vals a \<and> same_nulls (length (ar_vals a)) (ar_off a) (ar_bitmap a) (ar_off b) (ar_bitmap b))"
| "same_col (CUint8 a) (CUint8 b) = (ar_vals b = ar_vals a \<and> same_nulls (length (ar_vals a)) (ar_off a) (ar_bitmap a) (ar_off b) (ar_bitmap b))"
| "same_col (CUint32 a) (CUint32 b) = (ar_vals b = ar_vals a)"
| "same_col (CInt32 a) (CInt32 b) = (ar_vals b = ar_vals a)"
| "same_col (CList n off bm offs c) (CList n' off' bm' offs' c') = (n' = n \<and> offs' = offs \<and> same_nulls n off bm off' bm' \<and> same_col c c')"
| "same_col _ _ = False"

definition arrives :: "arecord \<Rightarrow> arecord \<Rightarrow> bool" where
  "arrives rec rec' \<longleftrightarrow> rb_rows rec' = rb_rows rec \<and>
     list_all2 (\<lambda>(n, c) (n', c'). n' = n \<and> same_col c c') (rb_cols rec) (rb_cols rec')"

text \<open>What an agent submits: measurements the probing code makes, at most a batch of them.\<close>

definition batch_ok :: "measurement list \<Rightarrow> bool" where
  "batch_ok ms \<longleftrightarrow> (\<forall>m \<in> set ms. submission_ok (m_AgentID m) m) \<and> length ms \<le> MaxBatchRows \<and>
     sum_list (map (\<lambda>m. length (m_Samples m)) ms) < 2 ^ 31 \<and>
     (\<forall>name. sum_list (map (\<lambda>m. length (case_option [] id (m_Series m name))) ms) < 2 ^ 31)"

lemma length_pack: "length (pack bs) = (length bs + 7) div 8"
  by (simp add: pack_def)

lemma is_null_pack:
  assumes "i < length bs"
  shows "is_null (pack bs) 0 i = Inr (\<not> bs ! i)"
proof -
  have "(i + 8) div 8 \<le> (length bs + 7) div 8" using assms by (intro div_le_mono) simp
  then have d: "i div 8 < (length bs + 7) div 8" by simp
  have p: "pack bs \<noteq> []" using d length_pack [of bs] by auto
  have "8 * (i div 8) + i mod 8 = i" by simp
  moreover have "i mod 8 < length (drop (8 * (i div 8)) bs)"
  proof -
    have "8 * (i div 8) + i mod 8 < length bs" using assms by simp
    then show ?thesis unfolding length_drop by linarith
  qed
  ultimately have "bit (pack bs ! (i div 8)) (i mod 8) = bs ! i"
    using d by (simp add: pack_def bit_horner_sum_bit_word_iff)
  then show ?thesis using d p by (simp add: is_null_def value_at_def length_pack)
qed

lemma sum_take_le: "sum_list (take k (xs :: nat list)) \<le> sum_list xs"
  by (metis append_take_drop_id le_add1 sum_list_append)

lemma offsets_of_nth:
  assumes "sum_list lens < 2 ^ 31" and "k \<le> length lens"
  shows "offsets_of lens ! k = int (sum_list (take k lens))"
proof -
  have "sum_list (take k lens) < 2 ^ 31" using assms(1) sum_take_le [of k lens] by linarith
  then have "sint (word_of_nat (sum_list (take k lens)) :: i32) = int (sum_list (take k lens))"
    by (simp add: signed_take_bit_int_eq_self signed_of_nat)
  then show ?thesis using assms(2) by (simp add: offsets_of_def nth_append del: upt_Suc)
qed

lemma listBounds_offsets:
  assumes "sum_list lens < 2 ^ 31" and "i < length lens"
  shows "listBounds (offsets_of lens) i (sum_list lens) name = Inr (sum_list (take i lens), sum_list (take (Suc i) lens))"
proof -
  have "length (offsets_of lens) = Suc (length lens)" by (simp add: offsets_of_def)
  moreover have "sum_list (take i lens) \<le> sum_list (take (Suc i) lens)"
    using assms(2) by (simp add: take_Suc_conv_app_nth)
  moreover have "sum_list (take (Suc i) lens) \<le> sum_list lens" by (rule sum_take_le)
  ultimately show ?thesis
    using assms offsets_of_nth [of lens i] offsets_of_nth [of lens "Suc i"] by (simp add: listBounds_def Let_def)
qed

lemma sub_concat:
  assumes "i < length xss"
  shows "sub (concat xss) (sum_list (take i (map length xss)), sum_list (take (Suc i) (map length xss))) = xss ! i"
  using assms
proof (induction xss arbitrary: i)
  case (Cons xs xss)
  then show ?case by (cases i) (simp_all add: sub_def take_map)
qed simp


lemma same_col_simps:
  "same_col (CInt64 a) c \<longleftrightarrow> (\<exists>b. c = CInt64 b \<and> ar_vals b = ar_vals a)"
  "same_col (CTimestamp a) c \<longleftrightarrow> (\<exists>b. c = CTimestamp b \<and> ar_vals b = ar_vals a)"
  "same_col (CUint32 u) c \<longleftrightarrow> (\<exists>b. c = CUint32 b \<and> ar_vals b = ar_vals u)"
  "same_col (CInt32 w) c \<longleftrightarrow> (\<exists>b. c = CInt32 b \<and> ar_vals b = ar_vals w)"
  "same_col (CUint16 x) c \<longleftrightarrow> (\<exists>b. c = CUint16 b \<and> ar_vals b = ar_vals x \<and>
     same_nulls (length (ar_vals x)) (ar_off x) (ar_bitmap x) (ar_off b) (ar_bitmap b))"
  "same_col (CUint8 y) c \<longleftrightarrow> (\<exists>b. c = CUint8 b \<and> ar_vals b = ar_vals y \<and>
     same_nulls (length (ar_vals y)) (ar_off y) (ar_bitmap y) (ar_off b) (ar_bitmap b))"
  "same_col (CList n off bm offs d) c \<longleftrightarrow> (\<exists>off' bm' d'. c = CList n off' bm' offs d' \<and> same_nulls n off bm off' bm' \<and> same_col d d')"
  by (cases c; auto)+

text \<open>An array of optional values, and a list column, as they arrive.\<close>

definition arrived_nulls :: "'a option list \<Rightarrow> nat \<Rightarrow> u8 list \<Rightarrow> bool" where
  "arrived_nulls xs off bm \<longleftrightarrow> (bm = [] \<or> (off + length xs + 7) div 8 \<le> length bm) \<and>
     (\<forall>i < length xs. is_null bm off i = Inr (xs ! i = None))"

lemma same_nulls_pack:
  "same_nulls (length xs) 0 (pack (map (\<lambda>x. x \<noteq> None) xs)) off bm \<longleftrightarrow> arrived_nulls xs off bm"
  by (auto simp: same_nulls_def arrived_nulls_def is_null_pack)

definition arrived_list :: "'a list option list \<Rightarrow> nat \<Rightarrow> u8 list \<Rightarrow> int list \<Rightarrow> 'a list \<Rightarrow> bool" where
  "arrived_list xs off bm offs vals \<longleftrightarrow> arrived_nulls xs off bm \<and>
     offs = offsets_of (map (length \<circ> case_option [] id) xs) \<and> vals = concat (map (case_option [] id) xs)"

lemma same_list_column:
  "same_col (list_column (CUint32 \<circ> plain) xs) c \<longleftrightarrow>
     (\<exists>off bm offs a. c = CList (length xs) off bm offs (CUint32 a) \<and> arrived_list xs off bm offs (ar_vals a))"
  "same_col (list_column (CInt32 \<circ> plain) ys) c \<longleftrightarrow>
     (\<exists>off bm offs a. c = CList (length ys) off bm offs (CInt32 a) \<and> arrived_list ys off bm offs (ar_vals a))"
  by (auto simp: list_column_def same_col_simps same_nulls_pack arrived_list_def plain_def comp_def simp del: not_None_eq)

definition arrived_arr :: "('a::zero) option list \<Rightarrow> 'a arr \<Rightarrow> bool" where
  "arrived_arr xs a \<longleftrightarrow> arrived_nulls xs (ar_off a) (ar_bitmap a) \<and> ar_vals a = map (case_option 0 id) xs"

lemma same_with_nulls:
  "same_col (CUint16 (with_nulls xs)) c \<longleftrightarrow> (\<exists>a. c = CUint16 a \<and> arrived_arr xs a)"
  "same_col (CUint8 (with_nulls ys)) c \<longleftrightarrow> (\<exists>a. c = CUint8 a \<and> arrived_arr ys a)"
  by (auto simp: with_nulls_def same_col_simps arrived_arr_def same_nulls_pack [symmetric] simp del: not_None_eq)

lemma checkValidity_arrived: "arrived_nulls xs off bm \<Longrightarrow> checkValidity name (length xs) off bm = Inr ()"
  by (auto simp: arrived_nulls_def checkValidity_def check_def)

lemma nullable_arrived: "arrived_arr xs a \<Longrightarrow> i < length xs \<Longrightarrow> nullable a i = Inr (xs ! i)"
  by (auto simp: nullable_def arrived_arr_def arrived_nulls_def value_at_def split: option.split)

lemma resolve_arrived:
  assumes "arrives (encode_record ms) rec'"
  shows "\<exists>c off bm. resolve_columns rec' = Inr c \<and> co_targets c = map m_TargetID ms \<and> co_ts c = map m_TS ms \<and>
    co_sent c = map (\<lambda>m. word_of_nat (m_Sent m)) ms \<and> co_recv c = map (\<lambda>m. word_of_nat (m_Received m)) ms \<and>
    co_flags c = map m_Flags ms \<and> arrived_list (map (Some \<circ> m_Samples) ms) off bm (co_offsets c) (co_values c) \<and>
    arrived_arr (map m_ICMPErr ms) (co_icmp c) \<and> (\<exists>a. co_send c = Some a \<and> arrived_arr (map m_SendErr ms) a) \<and>
    (\<forall>name \<in> set seriesColumns. \<exists>l. map_of (co_series c) name = Some l \<and>
       arrived_list (map (\<lambda>m. m_Series m name) ms) (sl_off l) (sl_bitmap l) (sl_offsets l) (sl_vals l))"
proof -
  from assms obtain a1 a2 a3 a4 a5 off bm offs a6 a7 a8 o1 b1 f1 s1 o2 b2 f2 s2 o3 b3 f3 s3 where
    cols: "rb_cols rec' = [(''target_id'', CInt64 a1), (''ts'', CTimestamp a2), (''sent'', CUint16 a3), (''received'', CUint16 a4),
      (''flags'', CUint8 a5), (''samples'', CList (length ms) off bm offs (CUint32 a6)), (''icmp_error'', CUint16 a7),
      (''send_error'', CUint8 a8), (IPDVSend, CList (length ms) o1 b1 f1 (CInt32 s1)),
      (IPDVReceive, CList (length ms) o2 b2 f2 (CInt32 s2)), (ServerProcessing, CList (length ms) o3 b3 f3 (CInt32 s3))]"
    and vals: "ar_vals a1 = map m_TargetID ms" "ar_vals a2 = map m_TS ms" "ar_vals a3 = map (\<lambda>m. word_of_nat (m_Sent m)) ms"
      "ar_vals a4 = map (\<lambda>m. word_of_nat (m_Received m)) ms" "ar_vals a5 = map m_Flags ms"
    and lists: "arrived_list (map (Some \<circ> m_Samples) ms) off bm offs (ar_vals a6)"
      "arrived_list (map (\<lambda>m. m_Series m IPDVSend) ms) o1 b1 f1 (ar_vals s1)"
      "arrived_list (map (\<lambda>m. m_Series m IPDVReceive) ms) o2 b2 f2 (ar_vals s2)"
      "arrived_list (map (\<lambda>m. m_Series m ServerProcessing) ms) o3 b3 f3 (ar_vals s3)"
    and arrs: "arrived_arr (map m_ICMPErr ms) a7" "arrived_arr (map m_SendErr ms) a8"
    by (auto simp: arrives_def encode_record_def seriesColumns_def list_all2_Cons1 same_list_column same_with_nulls
        same_col_simps(1-4) plain_def)
      (auto simp: same_col_simps)
  have names: "IPDVSend = ''ipdv_send''" "IPDVReceive = ''ipdv_receive''" "ServerProcessing = ''server_processing''"
    by (simp_all add: IPDVSend_def IPDVReceive_def ServerProcessing_def)
  have l: "length (ar_vals a7) = length ms" "length (ar_vals a8) = length ms" using arrs by (simp_all add: arrived_arr_def)
  have v: "checkValidity ''icmp_error'' (length ms) (ar_off a7) (ar_bitmap a7) = Inr ()"
    "checkValidity ''send_error'' (length ms) (ar_off a8) (ar_bitmap a8) = Inr ()"
    "checkValidity ''ipdv_send'' (length ms) o1 b1 = Inr ()" "checkValidity ''ipdv_receive'' (length ms) o2 b2 = Inr ()"
    "checkValidity ''server_processing'' (length ms) o3 b3 = Inr ()"
    using arrs lists checkValidity_arrived [of "map m_ICMPErr ms"] checkValidity_arrived [of "map m_SendErr ms"]
      checkValidity_arrived [of "map (\<lambda>m. m_Series m IPDVSend) ms"] checkValidity_arrived [of "map (\<lambda>m. m_Series m IPDVReceive) ms"]
      checkValidity_arrived [of "map (\<lambda>m. m_Series m ServerProcessing) ms"]
    by (simp_all add: arrived_arr_def arrived_list_def)
  show ?thesis
    by (rule exI [of _ "\<lparr>co_targets = ar_vals a1, co_ts = ar_vals a2, co_sent = ar_vals a3, co_recv = ar_vals a4,
        co_flags = ar_vals a5, co_offsets = offs, co_values = ar_vals a6, co_icmp = a7, co_send = Some a8,
        co_series = [(IPDVSend, \<lparr>sl_off = o1, sl_bitmap = b1, sl_offsets = f1, sl_vals = ar_vals s1\<rparr>),
          (IPDVReceive, \<lparr>sl_off = o2, sl_bitmap = b2, sl_offsets = f2, sl_vals = ar_vals s2\<rparr>),
          (ServerProcessing, \<lparr>sl_off = o3, sl_bitmap = b3, sl_offsets = f3, sl_vals = ar_vals s3\<rparr>)]\<rparr>"],
        rule exI [of _ off], rule exI [of _ bm])
      (use lists in \<open>simp add: resolve_columns_def cols required_def seriesColumns_def names send_column_def l v vals arrs\<close>)
qed


lemma arrived_list_row:
  assumes "arrived_list xs off bm offs vals" and "i < length xs" and "sum_list (map (length \<circ> case_option [] id) xs) < 2 ^ 31"
  shows "\<exists>b. listBounds offs i (length vals) name = Inr b \<and> fst b \<le> snd b \<and> snd b \<le> length vals \<and> sub vals b = case_option [] id (xs ! i)"
proof -
  let ?yss = "map (case_option [] id) xs" and ?l = "map (length \<circ> case_option [] id) xs"
  have e: "offs = offsets_of ?l" "vals = concat ?yss" "length vals = sum_list ?l"
    using assms(1) by (simp_all add: arrived_list_def length_concat)
  have "listBounds offs i (length vals) name = Inr (sum_list (take i ?l), sum_list (take (Suc i) ?l))"
    using listBounds_offsets [of ?l i name] assms(2,3) e by simp
  moreover have "sub vals (sum_list (take i ?l), sum_list (take (Suc i) ?l)) = ?yss ! i"
    using sub_concat [of i ?yss] assms(2) e(2) by simp
  ultimately show ?thesis using listBounds_Inr [of offs i "length vals" name] assms(2) by auto
qed

lemma sort_sint: "sorted (map sint vs) \<Longrightarrow> sort_key sint (vs :: i32 list) = vs"
  by (rule sort_key_id_if_sorted)

lemma row_series_arrived:
  assumes "\<forall>name \<in> set names. \<exists>l. map_of series name = Some l \<and>
       arrived_list (map (\<lambda>m. m_Series m name) ms) (sl_off l) (sl_bitmap l) (sl_offsets l) (sl_vals l)"
    and "batch_ok ms" and "i < length ms" and "m_Sent m0 = m_Sent (ms ! i)" and "distinct names"
  shows "row_series series i m0 names =
    Inr (m0\<lparr>m_Series := \<lambda>n. if n \<in> set names \<and> m_Series (ms ! i) n \<noteq> None then m_Series (ms ! i) n else m_Series m0 n\<rparr>)"
  using assms(1,4,5)
proof (induction names arbitrary: m0)
  case (Cons name names)
  then obtain l where l: "map_of series name = Some l"
    "arrived_list (map (\<lambda>m. m_Series m name) ms) (sl_off l) (sl_bitmap l) (sl_offsets l) (sl_vals l)" by auto
  let ?s = "m_Series (ms ! i) name"
  have nl: "is_null (sl_bitmap l) (sl_off l) i = Inr (?s = None)"
    using l(2) assms(3) by (auto simp: arrived_list_def arrived_nulls_def)
  show ?case
  proof (cases ?s)
    case None
    have "row_series series i m0 (name # names) = row_series series i m0 names" using l(1) nl None by simp
    also have "\<dots> = Inr (m0\<lparr>m_Series := \<lambda>n. if n \<in> set names \<and> m_Series (ms ! i) n \<noteq> None then m_Series (ms ! i) n else m_Series m0 n\<rparr>)"
      using Cons.prems by (intro Cons.IH) auto
    also have "(\<lambda>n. if n \<in> set names \<and> m_Series (ms ! i) n \<noteq> None then m_Series (ms ! i) n else m_Series m0 n) =
        (\<lambda>n. if n \<in> set (name # names) \<and> m_Series (ms ! i) n \<noteq> None then m_Series (ms ! i) n else m_Series m0 n)"
      using None by (intro ext) auto
    finally show ?thesis .
  next
    case (Some vs)
    have ok: "submission_ok (m_AgentID (ms ! i)) (ms ! i)" using assms(2,3) by (simp add: batch_ok_def)
    then have vs: "sorted (map sint vs)" "length vs \<le> m_Sent m0" using Some Cons.prems(2) by (auto simp: submission_ok_def)
    have "sum_list (map (length \<circ> case_option [] id) (map (\<lambda>m. m_Series m name) ms)) < 2 ^ 31"
      using assms(2) by (simp add: batch_ok_def comp_def)
    from arrived_list_row [OF l(2) _ this, of i name] obtain b where
      b: "listBounds (sl_offsets l) i (length (sl_vals l)) name = Inr b" "fst b \<le> snd b" "snd b \<le> length (sl_vals l)" "sub (sl_vals l) b = vs"
      using assms(3) Some by auto
    have len: "snd b - fst b = length vs" using length_sub [OF b(2,3)] b(4) by simp
    let ?m1 = "m0\<lparr>m_Series := (m_Series m0)(name \<mapsto> vs)\<rparr>"
    have "row_series series i m0 (name # names) = row_series series i ?m1 names"
      using l(1) nl Some b(1,4) len vs sort_sint [OF vs(1)] by simp
    also have "\<dots> = Inr (?m1\<lparr>m_Series := \<lambda>n. if n \<in> set names \<and> m_Series (ms ! i) n \<noteq> None then m_Series (ms ! i) n else m_Series ?m1 n\<rparr>)"
      using Cons.prems by (intro Cons.IH) auto
    also have "(\<lambda>n. if n \<in> set names \<and> m_Series (ms ! i) n \<noteq> None then m_Series (ms ! i) n else m_Series ?m1 n) =
        (\<lambda>n. if n \<in> set (name # names) \<and> m_Series (ms ! i) n \<noteq> None then m_Series (ms ! i) n else m_Series m0 n)"
      using Some Cons.prems(3) by (intro ext) auto
    finally show ?thesis by simp
  qed
qed simp

lemma decode_row_arrived:
  assumes c: "co_targets c = map m_TargetID ms" "co_ts c = map m_TS ms"
    "co_sent c = map (\<lambda>m. word_of_nat (m_Sent m)) ms" "co_recv c = map (\<lambda>m. word_of_nat (m_Received m)) ms"
    "co_flags c = map m_Flags ms" "arrived_list (map (Some \<circ> m_Samples) ms) off bm (co_offsets c) (co_values c)"
    "arrived_arr (map m_ICMPErr ms) (co_icmp c)" "co_send c = Some a" "arrived_arr (map m_SendErr ms) a"
    "\<forall>name \<in> set seriesColumns. \<exists>l. map_of (co_series c) name = Some l \<and>
       arrived_list (map (\<lambda>m. m_Series m name) ms) (sl_off l) (sl_bitmap l) (sl_offsets l) (sl_vals l)"
    and ok: "batch_ok ms" and i: "i < length ms"
  shows "decode_row agentID c i = Inr (Some ((ms ! i)\<lparr>m_AgentID := agentID\<rparr>))"
proof -
  let ?m = "ms ! i"
  have m: "submission_ok (m_AgentID ?m) ?m" using ok i by (simp add: batch_ok_def)
  then have r: "m_Received ?m = length (m_Samples ?m)" "m_Received ?m \<le> m_Sent ?m" "m_Sent ?m < 65536" "sorted (m_Samples ?m)"
    by (simp_all add: submission_ok_def)
  have "sum_list (map (length \<circ> case_option [] id) (map (Some \<circ> m_Samples) ms)) < 2 ^ 31"
    using ok by (simp add: batch_ok_def comp_def)
  from arrived_list_row [OF c(6) _ this, of i "''samples''"] obtain b where
    b: "listBounds (co_offsets c) i (length (co_values c)) ''samples'' = Inr b" "sub (co_values c) b = m_Samples ?m"
    using i by auto
  have w: "unat (word_of_nat (m_Sent ?m) :: u16) = m_Sent ?m" "unat (word_of_nat (m_Received ?m) :: u16) = m_Received ?m"
    using r(2,3) by (simp_all add: unsigned_of_nat take_bit_nat_eq_self)
  let ?row = "\<lparr>m_TargetID = m_TargetID ?m, m_AgentID = agentID, m_TS = m_TS ?m, m_Sent = m_Sent ?m, m_Received = m_Received ?m,
      m_Flags = m_Flags ?m, m_Samples = m_Samples ?m, m_ICMPErr = m_ICMPErr ?m, m_SendErr = m_SendErr ?m, m_Series = Map.empty\<rparr>"
  let ?F = "\<lambda>n. if n \<in> set seriesColumns \<and> m_Series ?m n \<noteq> None then m_Series ?m n else m_Series ?row n"
  have "distinct seriesColumns"
    by (simp add: seriesColumns_def IPDVSend_def IPDVReceive_def ServerProcessing_def)
  then have s: "row_series (co_series c) i ?row seriesColumns = Inr (?row\<lparr>m_Series := ?F\<rparr>)"
    by (intro row_series_arrived [OF c(10) ok i]) simp_all
  have "?F n = m_Series ?m n" for n using m by (cases "m_Series ?m n") (auto simp: submission_ok_def)
  then have "?row\<lparr>m_Series := ?F\<rparr> = ?m\<lparr>m_AgentID := agentID\<rparr>" by (intro measurement.equality) auto
  with s have s: "row_series (co_series c) i ?row seriesColumns = Inr (?m\<lparr>m_AgentID := agentID\<rparr>)" by (simp only:)
  have n: "nullable (co_icmp c) i = Inr (m_ICMPErr ?m)" "nullable a i = Inr (m_SendErr ?m)"
    using nullable_arrived [OF c(7)] nullable_arrived [OF c(9)] i by simp_all
  show ?thesis
    using i b n s w r c(8) sorted_sort_id [OF r(4)]
    by (simp add: decode_row_def value_at_def c(1-5) Let_def)
qed


lemma decode_record_arrived:
  assumes "arrives (encode_record ms) rec'" and "batch_ok ms"
  shows "decode_record a rec' = Inr (map (\<lambda>m. m\<lparr>m_AgentID := a\<rparr>) ms)" and "rb_rows rec' = length ms"
proof -
  show rows: "rb_rows rec' = length ms" using assms(1) by (simp add: arrives_def encode_record_def)
  obtain c off bm s where c: "resolve_columns rec' = Inr c"
    and r: "co_targets c = map m_TargetID ms" "co_ts c = map m_TS ms"
    "co_sent c = map (\<lambda>m. word_of_nat (m_Sent m)) ms" "co_recv c = map (\<lambda>m. word_of_nat (m_Received m)) ms"
    "co_flags c = map m_Flags ms" "arrived_list (map (Some \<circ> m_Samples) ms) off bm (co_offsets c) (co_values c)"
    "arrived_arr (map m_ICMPErr ms) (co_icmp c)" "co_send c = Some s" "arrived_arr (map m_SendErr ms) s"
    "\<forall>name \<in> set seriesColumns. \<exists>l. map_of (co_series c) name = Some l \<and>
       arrived_list (map (\<lambda>m. m_Series m name) ms) (sl_off l) (sl_bitmap l) (sl_offsets l) (sl_vals l)"
    using resolve_arrived [OF assms(1)] by blast
  have row: "decode_row a c i = Inr (Some ((ms ! i)\<lparr>m_AgentID := a\<rparr>))" if "i < length ms" for i
    by (rule decode_row_arrived [OF r assms(2) that])
  have "rmap (decode_row a c) is = Inr (map (\<lambda>i. Some ((ms ! i)\<lparr>m_AgentID := a\<rparr>)) is)" if "\<forall>i \<in> set is. i < length ms" for "is"
    using that by (induction "is") (simp_all add: row)
  then have "rmap (decode_row a c) [0..<rb_rows rec'] = Inr (map (\<lambda>i. Some ((ms ! i)\<lparr>m_AgentID := a\<rparr>)) [0..<length ms])"
    using rows by simp
  moreover have "List.map_filter id (map (\<lambda>i. Some (f (ms ! i))) [0..<length ms]) = map f ms" for f :: "measurement \<Rightarrow> measurement"
    by (rule nth_equalityI) (simp_all add: List.map_filter_def comp_def)
  ultimately show "decode_record a rec' = Inr (map (\<lambda>m. m\<lparr>m_AgentID := a\<rparr>) ms)"
    using c by (simp add: decode_record_def)
qed

section \<open>Properties\<close>

text \<open>
  Property C31. Whatever an agent sends, what is decoded can be stored. Take any bytes and any stream
  of records the Arrow reader makes of them, with any columns, list offsets and validity bitmaps: the
  batch is either refused with an error, or it yields at most 10000 measurements, each stamped with the
  authenticated agent, with as many samples as replies, no more replies than probes, ascending
  samples and series, only the three known series and no longer than the probes sent; and then
  writing any part of it never fails, on any tables, so no such batch is refused at the write.
\<close>

theorem decoded_can_be_stored:
  assumes "DecodeBatch ar read W body agentID = Inr ms"
  shows "(\<forall>m \<in> set ms. submission_ok agentID m) \<and> length ms \<le> 10000 \<and>
    (\<forall>kept db. set kept \<subseteq> set ms \<longrightarrow> (\<exists>db' dup. IngestMeasurements kept db = (db', Inr dup)))"
proof -
  obtain recs where recs: "decode_records agentID 0 recs = Inr ms"
    using assms by (auto simp: DecodeBatch_def decodeFrames_def Let_def rbind_Inr_iff split: sum.split_asm)
  have ok: "\<forall>m \<in> set ms. submission_ok agentID m" "length ms \<le> 10000"
    using decode_records_ok [OF recs] by (simp_all add: MaxBatchRows_def)
  have "\<exists>db' dup. IngestMeasurements kept db = (db', Inr dup)" if "set kept \<subseteq> set ms" for kept db
    by (rule IngestMeasurements_total [of _ agentID]) (use ok(1) that in blast)
  then show ?thesis using ok by blast
qed

text \<open>
  Property C32. An honest batch arrives exactly. What the probing code measures, encoded by the agent
  and decoded by the master, is the same measurements in the same order, every field bit for bit
  (absent errors and absent series stay absent, an empty series stays empty), under the id of the agent
  that signed it; this rests on the Arrow library reading back the columns it wrote.
\<close>

theorem batch_roundtrip:
  assumes "EncodeBatch write ms = Inr body" and "batch_ok ms"
    and "screenFrames ar W body = Inr ()" and "arrives (encode_record ms) rec'"
    and "read maxDecodeBytes body = \<lparr>st_open = EndOK, st_recs = [rec'], st_end = EndOK\<rparr>"
  shows "DecodeBatch ar read W body agentID = Inr (map (\<lambda>m. m\<lparr>m_AgentID := agentID\<rparr>) ms)"
  using assms decode_record_arrived [OF assms(4,2)]
  by (simp add: DecodeBatch_def decodeFrames_def batch_ok_def)


section \<open>The properties on a small batch\<close>

definition example_read :: "int \<Rightarrow> u8 list \<Rightarrow> arrow_stream" where
  "example_read limit body = \<lparr>st_open = EndOK, st_recs = [encode_record [example_m]], st_end = EndOK\<rparr>"

lemma example_m_ok: "batch_ok [example_m]"
  by (simp add: batch_ok_def submission_ok_def example_m_def MaxBatchRows_def seriesColumns_def word_le_nat_alt)

lemma same_nulls_refl: "bm = [] \<or> (off + n + 7) div 8 \<le> length bm \<Longrightarrow> same_nulls n off bm off bm"
  by (simp add: same_nulls_def)

lemma arrives_refl: "arrives (encode_record ms) (encode_record ms)"
  by (simp add: arrives_def encode_record_def seriesColumns_def plain_def with_nulls_def list_column_def
      same_nulls_refl length_pack)

theorem batch_roundtrip_witness:
  "DecodeBatch arrow_types example_read 64 example_body 5 = Inr [example_m\<lparr>m_AgentID := 5\<rparr>]"
proof -
  have "EncodeBatch (\<lambda>_. Some example_body) [example_m] = Inr example_body" by (simp add: EncodeBatch_def)
  from batch_roundtrip [OF this example_m_ok example_accepted_body arrives_refl, of example_read 5]
  show ?thesis by (simp add: example_read_def)
qed

theorem decoded_can_be_stored_witness:
  "\<exists>ms. DecodeBatch arrow_types example_read 64 example_body 5 = Inr ms \<and> length ms = 1 \<and> submission_ok 5 (hd ms)"
proof -
  have "decode_record 5 (encode_record [example_m]) = Inr [example_m\<lparr>m_AgentID := 5\<rparr>]"
    using decode_record_arrived(1) [OF arrives_refl example_m_ok] by simp
  moreover have "rb_rows (encode_record [example_m]) = 1" by (simp add: encode_record_def)
  ultimately have d: "DecodeBatch arrow_types example_read 64 example_body 5 = Inr [example_m\<lparr>m_AgentID := 5\<rparr>]"
    by (simp add: DecodeBatch_def example_accepted_body decodeFrames_def example_read_def MaxBatchRows_def)
  from decoded_can_be_stored [OF d] d show ?thesis by simp
qed

end
