(* ===== verification/Verifier.thy ===== *)
theory Verifier
  imports Prelude
begin

text \<open>
  The signed agent protocol, \<open>internal/ingest/sign.go\<close>: the canonical string, parsing the
  credentials of a request, and \<open>Verifier.Check\<close> with its nonce cache and token buckets. The digest,
  the signature check, base64 and the enrolment lookup are the parameter \<open>crypto\<close>; times are
  nanoseconds of one clock that does not go back (Go compares monotonic readings). The lemmas show
  that a request without a valid signature changes nothing, that no request is admitted twice,
  that an agent is admitted no faster than its bucket refills, and that the signed bytes
  determine the request.
\<close>

section \<open>Requests\<close>

type_synonym bytes = string

record signed =
  sg_Method :: string
  sg_Path :: string
  sg_AgentID :: int
  sg_Timestamp :: int
  sg_Nonce :: string
  sg_Signature :: bytes
  sg_Body :: bytes

record agent =
  ag_ID :: int
  ag_Name :: string
  ag_PubKey :: bytes
  ag_Enabled :: bool

record crypto =
  cr_sha256_hex :: "bytes \<Rightarrow> string"                        \<comment> \<open>\<open>hex.EncodeToString(sha256.Sum256(body))\<close>\<close>
  cr_verify :: "bytes \<Rightarrow> string \<Rightarrow> bytes \<Rightarrow> bool"      \<comment> \<open>\<open>ed25519.Verify\<close>\<close>
  cr_base64 :: "string \<Rightarrow> bytes option"                       \<comment> \<open>\<open>base64.StdEncoding.DecodeString\<close>\<close>
  cr_lookup :: "int \<Rightarrow> agent option"                         \<comment> \<open>\<open>Verifier.Lookup\<close>\<close>

definition Domain :: string where "Domain = ''smokeng-ingest-v1''"

definition CanonicalString :: "crypto \<Rightarrow> signed \<Rightarrow> string" where
  "CanonicalString cr s = join [CHR 0x0A]
     [Domain, sg_Method s, sg_Path s, show_int (sg_AgentID s), show_int (sg_Timestamp s), sg_Nonce s,
      cr_sha256_hex cr (sg_Body s)]"

definition nonceBytes :: nat where "nonceBytes = 16"

datatype parse_error = BadID | BadTime | MissingNonce | BadNonce | BadSig | ReadingBody

text \<open>The parts of an HTTP request that \<open>Parse\<close> reads; a header that is absent is empty.\<close>

record http_request =
  rq_Method :: string
  rq_Path :: string
  rq_ID :: string
  rq_Time :: string
  rq_Nonce :: string
  rq_Sig :: string
  rq_Body :: bytes

text \<open>\<open>MaxBytesReader\<close> fails on a body of more than \<open>maxBody\<close> bytes.\<close>

definition Parse :: "crypto \<Rightarrow> http_request \<Rightarrow> nat \<Rightarrow> parse_error + signed" where
  "Parse cr r maxBody =
     (case ParseInt (rq_ID r) of None \<Rightarrow> Inl BadID
      | Some agentID \<Rightarrow>
        (case ParseInt (rq_Time r) of None \<Rightarrow> Inl BadTime
         | Some ts \<Rightarrow>
           if rq_Nonce r = '''' then Inl MissingNonce
           else (case cr_base64 cr (rq_Nonce r) of None \<Rightarrow> Inl BadNonce
             | Some raw \<Rightarrow>
               if length raw \<noteq> nonceBytes then Inl BadNonce
               else (case cr_base64 cr (rq_Sig r) of None \<Rightarrow> Inl BadSig
                 | Some sig \<Rightarrow>
                   if length (rq_Body r) > maxBody then Inl ReadingBody
                   else Inr \<lparr>sg_Method = rq_Method r, sg_Path = rq_Path r, sg_AgentID = agentID,
                     sg_Timestamp = ts, sg_Nonce = rq_Nonce r, sg_Signature = sig, sg_Body = rq_Body r\<rparr>))))"

section \<open>The verifier's state\<close>

definition second :: int where "second = 1000000000"
definition MaxSkew :: int where "MaxSkew = 5 * 60 * second"
definition NonceTTL :: int where "NonceTTL = 10 * 60 * second"
definition nonceSweepEvery :: int where "nonceSweepEvery = 60 * second"
definition burstSize :: real where "burstSize = 30"
definition refillRate :: real where "refillRate = 30 / 60"

record bucket =
  b_tokens :: real
  b_last :: int

record nonce_cache =
  nc_seen :: "string \<Rightarrow> int option"
  nc_swept :: int

record verifier =
  v_nonces :: nonce_cache
  v_buckets :: "int \<Rightarrow> bucket option"
  v_accepted :: int
  v_rejected :: int

text \<open>The zero \<open>time.Time\<close>, the year 1, on the scale of the Unix epoch.\<close>

definition zero_time :: int where "zero_time = - 62135596800 * second"

definition new_verifier :: verifier where
  "new_verifier = \<lparr>v_nonces = \<lparr>nc_seen = (\<lambda>_. None), nc_swept = zero_time\<rparr>, v_buckets = (\<lambda>_. None),
     v_accepted = 0, v_rejected = 0\<rparr>"

datatype admission = AdmitOK | AdmitReplay | AdmitLimited

definition allow :: "(int \<Rightarrow> bucket option) \<Rightarrow> int \<Rightarrow> int \<Rightarrow> (int \<Rightarrow> bucket option) \<times> bool" where
  "allow buckets i now =
     (case buckets i of
        None \<Rightarrow> (buckets(i \<mapsto> \<lparr>b_tokens = burstSize - 1, b_last = now\<rparr>), True)
      | Some b \<Rightarrow>
        let tokens = min burstSize (b_tokens b + real_of_int (now - b_last b) / real_of_int second * refillRate)
        in if tokens < 1 then (buckets(i \<mapsto> \<lparr>b_tokens = tokens, b_last = now\<rparr>), False)
           else (buckets(i \<mapsto> \<lparr>b_tokens = tokens - 1, b_last = now\<rparr>), True))"

definition sweep :: "nonce_cache \<Rightarrow> int \<Rightarrow> nonce_cache" where
  "sweep c now =
     (if now - nc_swept c \<ge> nonceSweepEvery
      then \<lparr>nc_seen = (\<lambda>n. case nc_seen c n of None \<Rightarrow> None
              | Some t \<Rightarrow> if now - t > NonceTTL then None else Some t),
            nc_swept = now\<rparr>
      else c)"

text \<open>
  \<open>admit\<close> with the closure \<open>allow\<close> of the source, which runs only for a nonce that is not a replay:
  the buckets are the second half of the state it passes on.
\<close>

definition admit :: "nonce_cache \<Rightarrow> (int \<Rightarrow> bucket option) \<Rightarrow> string \<Rightarrow> int \<Rightarrow> int \<Rightarrow>
    nonce_cache \<times> (int \<Rightarrow> bucket option) \<times> admission" where
  "admit c buckets nonce i now =
     (let c = sweep c now
      in if (case nc_seen c nonce of None \<Rightarrow> False | Some t \<Rightarrow> now - t \<le> NonceTTL) then (c, buckets, AdmitReplay)
      else case allow buckets i now of (buckets, ok) \<Rightarrow>
        if \<not> ok then (c, buckets, AdmitLimited)
        else (c\<lparr>nc_seen := (nc_seen c)(nonce \<mapsto> now)\<rparr>, buckets, AdmitOK))"

datatype reject = UnknownAgent int | Disabled string | Skewed string int | BadSignature string
  | ReusedNonce string | OverRate string

definition check_signed :: "crypto \<Rightarrow> verifier \<Rightarrow> signed \<Rightarrow> int \<Rightarrow> verifier \<times> (reject + agent)" where
  "check_signed cr v s now =
     (case cr_lookup cr (sg_AgentID s) of
        None \<Rightarrow> (v, Inl (UnknownAgent (sg_AgentID s)))
      | Some ag \<Rightarrow>
        if \<not> ag_Enabled ag then (v, Inl (Disabled (ag_Name ag)))
        else
          let skew = now - sg_Timestamp s * second
          in if skew < - MaxSkew \<or> skew > MaxSkew then (v, Inl (Skewed (ag_Name ag) skew))
          else if \<not> cr_verify cr (ag_PubKey ag) (CanonicalString cr s) (sg_Signature s)
          then (v, Inl (BadSignature (ag_Name ag)))
          else case admit (v_nonces v) (v_buckets v) (sg_Nonce s) (sg_AgentID s) now of
            (nonces, buckets, res) \<Rightarrow>
              let v = v\<lparr>v_nonces := nonces, v_buckets := buckets\<rparr>
              in (case res of
                    AdmitReplay \<Rightarrow> (v, Inl (ReusedNonce (ag_Name ag)))
                  | AdmitLimited \<Rightarrow> (v, Inl (OverRate (ag_Name ag)))
                  | AdmitOK \<Rightarrow> (v, Inr ag)))"

definition Check :: "crypto \<Rightarrow> verifier \<Rightarrow> signed \<Rightarrow> int \<Rightarrow> verifier \<times> (reject + agent)" where
  "Check cr v s now =
     (case check_signed cr v s now of
        (v, Inl e) \<Rightarrow> (v\<lparr>v_rejected := v_rejected v + 1\<rparr>, Inl e)
      | (v, Inr ag) \<Rightarrow> (v\<lparr>v_accepted := v_accepted v + 1\<rparr>, Inr ag))"

definition Stats :: "verifier \<Rightarrow> int \<times> int" where
  "Stats v = (v_accepted v, v_rejected v)"

section \<open>A history of checks\<close>

fun run_checks :: "crypto \<Rightarrow> verifier \<Rightarrow> (signed \<times> int) list \<Rightarrow> verifier" where
  "run_checks cr v [] = v"
| "run_checks cr v ((s, now) # h) = run_checks cr (fst (Check cr v s now)) h"

text \<open>How many requests of one agent a history admits.\<close>

fun admitted :: "crypto \<Rightarrow> verifier \<Rightarrow> int \<Rightarrow> (signed \<times> int) list \<Rightarrow> nat" where
  "admitted cr v i [] = 0"
| "admitted cr v i ((s, now) # h) =
     (case Check cr v s now of (v', res) \<Rightarrow>
        (case res of Inr _ \<Rightarrow> (if sg_AgentID s = i then 1 else 0) | Inl _ \<Rightarrow> 0) + admitted cr v' i h)"

definition in_order :: "int \<Rightarrow> (signed \<times> int) list \<Rightarrow> bool" where
  "in_order t h \<longleftrightarrow> sorted (t # map snd h)"

lemma in_order_Cons [simp]: "in_order t ((s, now) # h) \<longleftrightarrow> t \<le> now \<and> in_order now h"
  by (auto simp: in_order_def)

lemma in_order_Nil [simp]: "in_order t []"
  by (simp add: in_order_def)

lemma in_order_append:
  "in_order t (g @ h) \<longleftrightarrow> in_order t g \<and> in_order (last (t # map snd g)) h"
  by (induction g arbitrary: t) auto

section \<open>What reaches the state\<close>

definition authentic :: "crypto \<Rightarrow> signed \<Rightarrow> int \<Rightarrow> bool" where
  "authentic cr s now \<longleftrightarrow>
     (\<exists>ag. cr_lookup cr (sg_AgentID s) = Some ag \<and> ag_Enabled ag \<and>
        \<bar>now - sg_Timestamp s * second\<bar> \<le> MaxSkew \<and>
        cr_verify cr (ag_PubKey ag) (CanonicalString cr s) (sg_Signature s))"

lemma check_signed_not_authentic:
  "\<not> authentic cr s now \<Longrightarrow> \<exists>e. check_signed cr v s now = (v, Inl e)"
  by (auto simp: check_signed_def authentic_def Let_def abs_le_iff split: option.split)

lemma check_signed_authentic:
  assumes "authentic cr s now"
  obtains ag where "cr_lookup cr (sg_AgentID s) = Some ag"
    "check_signed cr v s now = (case admit (v_nonces v) (v_buckets v) (sg_Nonce s) (sg_AgentID s) now of
        (nonces, buckets, res) \<Rightarrow>
          (v\<lparr>v_nonces := nonces, v_buckets := buckets\<rparr>,
           case res of AdmitReplay \<Rightarrow> Inl (ReusedNonce (ag_Name ag)) | AdmitLimited \<Rightarrow> Inl (OverRate (ag_Name ag))
           | AdmitOK \<Rightarrow> Inr ag))"
  using assms that
  by (auto simp: check_signed_def authentic_def Let_def abs_le_iff split: option.split admission.split prod.split)

text \<open>The state and verdict of \<open>Check\<close>, apart from the two counters.\<close>

lemma Check_state:
  "v_nonces (fst (Check cr v s now)) = v_nonces (fst (check_signed cr v s now))"
  "v_buckets (fst (Check cr v s now)) = v_buckets (fst (check_signed cr v s now))"
  "snd (Check cr v s now) = snd (check_signed cr v s now)"
  by (simp_all add: Check_def split: prod.split sum.split)

lemma check_cases:
  assumes auth: "authentic cr s now"
  shows "v_nonces (fst (Check cr v s now)) = fst (admit (v_nonces v) (v_buckets v) (sg_Nonce s) (sg_AgentID s) now)"
    and "v_buckets (fst (Check cr v s now)) = fst (snd (admit (v_nonces v) (v_buckets v) (sg_Nonce s) (sg_AgentID s) now))"
    and "(\<exists>ag. snd (Check cr v s now) = Inr ag) \<longleftrightarrow>
      snd (snd (admit (v_nonces v) (v_buckets v) (sg_Nonce s) (sg_AgentID s) now)) = AdmitOK"
  by (rule check_signed_authentic [OF auth, of v];
      auto simp: Check_state split: prod.split admission.split)+

lemma unauthentic_unchanged:
  assumes "\<not> authentic cr s now"
  shows "v_nonces (fst (Check cr v s now)) = v_nonces v" "v_buckets (fst (Check cr v s now)) = v_buckets v"
    "\<exists>e. snd (Check cr v s now) = Inl e"
  using check_signed_not_authentic [OF assms, of v] by (auto simp: Check_state)

section \<open>Replays\<close>

text \<open>A nonce admitted at \<open>t0\<close> is remembered as long as it matters.\<close>

definition remembered :: "nonce_cache \<Rightarrow> string \<Rightarrow> int \<Rightarrow> int \<Rightarrow> bool" where
  "remembered c nonce t0 now \<longleftrightarrow>
     (now - t0 \<le> NonceTTL \<longrightarrow> (\<exists>t. nc_seen c nonce = Some t \<and> t0 \<le> t \<and> t \<le> now))"

lemma remembered_sweep:
  "remembered c nonce t0 t \<Longrightarrow> t0 \<le> t \<Longrightarrow> t \<le> now \<Longrightarrow> remembered (sweep c now) nonce t0 now"
  by (auto simp: remembered_def sweep_def)

lemma admit_remembered:
  assumes "remembered c nonce t0 t" "t0 \<le> t" "t \<le> now"
  shows "remembered (fst (admit c buckets n i now)) nonce t0 now"
  using remembered_sweep [OF assms] assms(2,3)
  by (auto simp: admit_def Let_def remembered_def split: prod.split option.splits)

lemma admit_replay:
  assumes "remembered c nonce t0 t" "t0 \<le> t" "t \<le> now" "now - t0 \<le> NonceTTL"
  shows "admit c buckets nonce i now = (sweep c now, buckets, AdmitReplay)"
  using remembered_sweep [OF assms(1-3)] assms(4)
  by (auto simp: admit_def Let_def remembered_def)

lemma Check_remembered:
  assumes "remembered (v_nonces v) nonce t0 t" "t0 \<le> t" "t \<le> now"
  shows "remembered (v_nonces (fst (Check cr v s now))) nonce t0 now"
proof (cases "authentic cr s now")
  case True
  then show ?thesis using admit_remembered [OF assms] by (simp add: check_cases)
next
  case False
  then show ?thesis using assms by (auto simp: unauthentic_unchanged remembered_def)
qed

lemma run_remembered:
  "remembered (v_nonces v) nonce t0 t \<Longrightarrow> t0 \<le> t \<Longrightarrow> in_order t h \<Longrightarrow>
    remembered (v_nonces (run_checks cr v h)) nonce t0 (last (t # map snd h))"
proof (induction h arbitrary: v t)
  case (Cons x h)
  obtain s now where x: "x = (s, now)" by fastforce
  with Cons.prems have "t \<le> now" "in_order now h" by auto
  with Cons.IH [of "fst (Check cr v s now)" now] Check_remembered [OF Cons.prems(1,2)] Cons.prems(2)
  show ?case by (simp add: x)
qed simp

lemma accepted_remembered:
  assumes "Check cr v s t0 = (v', Inr ag)"
  shows "remembered (v_nonces v') (sg_Nonce s) t0 t0" and "authentic cr s t0"
proof -
  show auth: "authentic cr s t0" using assms unauthentic_unchanged(3) [of cr s t0 v] by auto
  have "snd (snd (admit (v_nonces v) (v_buckets v) (sg_Nonce s) (sg_AgentID s) t0)) = AdmitOK"
    using assms check_cases(3) [OF auth, of v] by auto
  then have "nc_seen (fst (admit (v_nonces v) (v_buckets v) (sg_Nonce s) (sg_AgentID s) t0)) (sg_Nonce s) = Some t0"
    by (auto simp: admit_def Let_def split: prod.splits if_splits)
  then show "remembered (v_nonces v') (sg_Nonce s) t0 t0"
    using check_cases(1) [OF auth, of v] assms by (simp add: remembered_def)
qed

section \<open>The rate bound\<close>

definition refill :: "int \<Rightarrow> int \<Rightarrow> real" where
  "refill t now = real_of_int (now - t) / real_of_int second * refillRate"

lemma refill_simps [simp]: "refill t t = 0" "t \<le> now \<Longrightarrow> 0 \<le> refill t now"
  by (simp_all add: refill_def second_def refillRate_def)

lemma refill_add: "refill a b + refill b c = refill a c"
  by (simp add: refill_def second_def refillRate_def field_simps)

text \<open>What an agent can still spend at a time.\<close>

definition avail :: "(int \<Rightarrow> bucket option) \<Rightarrow> int \<Rightarrow> int \<Rightarrow> real" where
  "avail bs i now = (case bs i of None \<Rightarrow> burstSize
     | Some b \<Rightarrow> min burstSize (b_tokens b + refill (b_last b) now))"

definition buckets_ok :: "(int \<Rightarrow> bucket option) \<Rightarrow> int \<Rightarrow> bool" where
  "buckets_ok bs now \<longleftrightarrow> (\<forall>i b. bs i = Some b \<longrightarrow> 0 \<le> b_tokens b \<and> b_tokens b \<le> burstSize \<and> b_last b \<le> now)"

lemma buckets_ok_mono: "buckets_ok bs t \<Longrightarrow> t \<le> now \<Longrightarrow> buckets_ok bs now"
  by (fastforce simp: buckets_ok_def)

lemma avail_mono: "t \<le> now \<Longrightarrow> avail bs i now \<le> avail bs i t + refill t now"
proof -
  assume "t \<le> now"
  then have r: "0 \<le> refill t now" by simp
  show ?thesis
  proof (cases "bs i")
    case (Some b)
    have "refill (b_last b) now = refill (b_last b) t + refill t now" by (simp add: refill_add)
    with r Some show ?thesis by (auto simp: avail_def min_def)
  qed (use r in \<open>simp add: avail_def\<close>)
qed

lemma avail_bounds: "buckets_ok bs now \<Longrightarrow> 0 \<le> avail bs i now \<and> avail bs i now \<le> burstSize"
  by (fastforce simp: avail_def buckets_ok_def burstSize_def split: option.split)

lemma allow_eq:
  "allow bs i now = (let a = avail bs i now in
     if bs i \<noteq> None \<and> a < 1 then (bs(i \<mapsto> \<lparr>b_tokens = a, b_last = now\<rparr>), False)
     else (bs(i \<mapsto> \<lparr>b_tokens = a - 1, b_last = now\<rparr>), True))"
  by (auto simp: allow_def avail_def refill_def Let_def split: option.split)

lemma allow_buckets_ok [invariants]:
  assumes "buckets_ok bs now"
  shows "buckets_ok (fst (allow bs i now)) now"
  using assms avail_bounds [OF assms, of i]
  by (auto simp: allow_eq Let_def buckets_ok_def avail_def burstSize_def split: if_splits)

lemma allow_avail:
  "buckets_ok bs now \<Longrightarrow>
    avail (fst (allow bs i now)) j now = avail bs j now - (if i = j \<and> snd (allow bs i now) then 1 else 0)"
  using avail_bounds [of bs now i]
  by (auto simp: allow_eq Let_def avail_def burstSize_def split: option.split)

lemma admit_buckets:
  "fst (snd (admit c bs n i now)) = bs \<and> snd (snd (admit c bs n i now)) = AdmitReplay \<or>
   fst (snd (admit c bs n i now)) = fst (allow bs i now) \<and>
     (snd (snd (admit c bs n i now)) = AdmitOK \<longleftrightarrow> snd (allow bs i now))"
  by (auto simp: admit_def Let_def split: prod.split option.split)

lemma Check_avail:
  assumes "buckets_ok (v_buckets v) now"
  shows "buckets_ok (v_buckets (fst (Check cr v s now))) now \<and>
    avail (v_buckets (fst (Check cr v s now))) i now =
      avail (v_buckets v) i now -
        (case snd (Check cr v s now) of Inr _ \<Rightarrow> (if sg_AgentID s = i then 1 else 0) | Inl _ \<Rightarrow> 0)"
proof (cases "authentic cr s now")
  case False
  then show ?thesis using unauthentic_unchanged [OF False, of v] assms by auto
next
  case True
  define r where "r = admit (v_nonces v) (v_buckets v) (sg_Nonce s) (sg_AgentID s) now"
  have b: "v_buckets (fst (Check cr v s now)) = fst (snd r)"
    and a: "(\<exists>ag. snd (Check cr v s now) = Inr ag) \<longleftrightarrow> snd (snd r) = AdmitOK"
    using check_cases(2,3) [OF True, of v] by (simp_all add: r_def)
  show ?thesis
    using admit_buckets [of "v_nonces v" "v_buckets v" "sg_Nonce s" "sg_AgentID s" now] a
      allow_buckets_ok [OF assms] allow_avail [OF assms] assms
    unfolding r_def [symmetric] b by (cases "snd (Check cr v s now)") auto
qed

lemma admitted_bound:
  "buckets_ok (v_buckets v) t \<Longrightarrow> in_order t h \<Longrightarrow>
    real (admitted cr v i h) \<le> avail (v_buckets v) i t + refill t (last (t # map snd h))"
proof (induction h arbitrary: v t)
  case Nil
  then show ?case using avail_bounds by simp
next
  case (Cons x h)
  obtain s now where x: "x = (s, now)" by fastforce
  with Cons.prems have t: "t \<le> now" and h: "in_order now h" by auto
  let ?v = "fst (Check cr v s now)"
  have ok: "buckets_ok (v_buckets v) now" using Cons.prems(1) t by (rule buckets_ok_mono)
  note step = Check_avail [OF ok, of cr s i]
  have "real (admitted cr ?v i h) \<le> avail (v_buckets ?v) i now + refill now (last (now # map snd h))"
    using step h by (intro Cons.IH) auto
  moreover have "refill t now + refill now (last (now # map snd h)) = refill t (last (now # map snd h))"
    by (rule refill_add)
  ultimately show ?case
    using avail_mono [OF t, of "v_buckets v" i] step by (auto simp: x split: prod.splits sum.splits)
qed

lemma run_buckets_ok:
  "buckets_ok (v_buckets v) t \<Longrightarrow> in_order t h \<Longrightarrow>
    buckets_ok (v_buckets (run_checks cr v h)) (last (t # map snd h))"
proof (induction h arbitrary: v t)
  case (Cons x h)
  obtain s now where x: "x = (s, now)" by fastforce
  with Cons.prems have "t \<le> now" "in_order now h" by auto
  then show ?case
    using Cons.IH [of "fst (Check cr v s now)" now] Check_avail [OF buckets_ok_mono [OF Cons.prems(1)], of now cr s]
    by (simp add: x)
qed simp

section \<open>The canonical string\<close>

definition newline_free :: "string \<Rightarrow> bool" where
  "newline_free s \<longleftrightarrow> CHR 0x0A \<notin> set s"

lemma newline_free_show_int: "newline_free (show_int i)"
  using show_int_chars [of "CHR 0x0A" i] by (auto simp: newline_free_def is_digit_def)

lemma cut_first:
  "newline_free u \<Longrightarrow> newline_free v \<Longrightarrow> u @ CHR 0x0A # x = v @ CHR 0x0A # y \<Longrightarrow> u = v \<and> x = y"
  by (auto simp: newline_free_def append_eq_append_conv2 append_eq_Cons_conv Cons_eq_append_conv)

lemma cut_last:
  "newline_free u \<Longrightarrow> newline_free v \<Longrightarrow> x @ CHR 0x0A # u = y @ CHR 0x0A # v \<Longrightarrow> x = y \<and> u = v"
proof -
  assume "newline_free u" "newline_free v" "x @ CHR 0x0A # u = y @ CHR 0x0A # v"
  then have "rev u @ CHR 0x0A # rev x = rev v @ CHR 0x0A # rev y"
    by (metis (no_types) append.assoc append_Cons append_Nil rev.simps(2) rev_append)
  then show ?thesis
    using cut_first [of "rev u" "rev v" "rev x" "rev y"] \<open>newline_free u\<close> \<open>newline_free v\<close>
    by (simp add: newline_free_def)
qed

lemma CanonicalString_unfold:
  "CanonicalString cr s = Domain @ CHR 0x0A # sg_Method s @ CHR 0x0A # ((((sg_Path s @ CHR 0x0A # show_int (sg_AgentID s))
     @ CHR 0x0A # show_int (sg_Timestamp s)) @ CHR 0x0A # sg_Nonce s) @ CHR 0x0A # cr_sha256_hex cr (sg_Body s))"
  by (simp add: CanonicalString_def)

section \<open>Properties\<close>

text \<open>
  Property C10. Only a request whose origin is proven reaches per-agent state: unless the agent is
  enrolled and enabled, the timestamp is within five minutes and the signature verifies, the
  check is refused and neither the nonce cache nor any rate bucket changes; and when it does, the
  buckets of other agents stay as they are.
\<close>

theorem unproven_requests_change_nothing:
  "(\<not> authentic cr s now \<longrightarrow>
      (\<exists>e. snd (Check cr v s now) = Inl e) \<and> v_nonces (fst (Check cr v s now)) = v_nonces v \<and>
      v_buckets (fst (Check cr v s now)) = v_buckets v) \<and>
   (\<forall>i. i \<noteq> sg_AgentID s \<longrightarrow> v_buckets (fst (Check cr v s now)) i = v_buckets v i)"
proof -
  have other: "fst (allow bs j now) i = bs i" if "i \<noteq> j" for bs i j
    using that by (simp add: allow_eq Let_def)
  have "v_buckets (fst (Check cr v s now)) i = v_buckets v i" if "i \<noteq> sg_AgentID s" for i
    using that unauthentic_unchanged(2) [of cr s now v] check_cases(2) [of cr s now v]
      admit_buckets [of "v_nonces v" "v_buckets v" "sg_Nonce s" "sg_AgentID s" now] other
    by (cases "authentic cr s now") auto
  then show ?thesis using unauthentic_unchanged [of cr s now v] by blast
qed

definition open_crypto :: crypto where
  "open_crypto = \<lparr>cr_sha256_hex = (\<lambda>b. ''00''), cr_verify = (\<lambda>k m s. s = ''good''), cr_base64 = Some,
     cr_lookup = (\<lambda>i. if i = 7 then Some \<lparr>ag_ID = 7, ag_Name = ''probe'', ag_PubKey = ''k'', ag_Enabled = True\<rparr> else None)\<rparr>"

definition example_signed :: signed where
  "example_signed = \<lparr>sg_Method = ''POST'', sg_Path = ''/api/v1/ingest'', sg_AgentID = 7, sg_Timestamp = 100,
     sg_Nonce = ''n1'', sg_Signature = ''good'', sg_Body = ''''\<rparr>"

lemma example_accepted:
  "snd (Check open_crypto new_verifier example_signed (101 * second)) =
    Inr \<lparr>ag_ID = 7, ag_Name = ''probe'', ag_PubKey = ''k'', ag_Enabled = True\<rparr>"
  by code_simp

theorem unproven_requests_change_nothing_witness:
  "v_buckets (fst (Check open_crypto new_verifier (example_signed\<lparr>sg_Signature := ''bad''\<rparr>) (101 * second))) = (\<lambda>_. None)"
proof -
  have "\<not> authentic open_crypto (example_signed\<lparr>sg_Signature := ''bad''\<rparr>) (101 * second)"
    by (simp add: authentic_def open_crypto_def)
  then show ?thesis
    using unproven_requests_change_nothing [of open_crypto "example_signed\<lparr>sg_Signature := ''bad''\<rparr>" "101 * second" new_verifier]
    by (simp add: new_verifier_def)
qed

text \<open>
  Property C8. No request is admitted twice: once a signed request has been accepted, then
  after any further checks, at any later time, the same request (indeed any request with its
  nonce while its own timestamp could still pass) is refused, and the refusal does not spend the agent's rate
  budget. The ten minutes a nonce is kept are exactly what twice the permitted skew needs.
\<close>

theorem accepted_only_once:
  assumes "Check cr v s t0 = (v', Inr ag)" and "in_order t0 (h @ [(s', t1)])"
    and "sg_Nonce s' = sg_Nonce s" and "sg_Timestamp s' = sg_Timestamp s"
  shows "(\<exists>e. snd (Check cr (run_checks cr v' h) s' t1) = Inl e) \<and>
    v_buckets (fst (Check cr (run_checks cr v' h) s' t1)) = v_buckets (run_checks cr v' h)"
proof (cases "authentic cr s' t1")
  case False
  then show ?thesis using unauthentic_unchanged [OF False] by auto
next
  case True
  let ?t = "last (t0 # map snd h)"
  let ?v = "run_checks cr v' h"
  have "in_order t0 h" "?t \<le> t1" using assms(2) by (auto simp: in_order_append)
  moreover from this(1) have "t0 \<le> ?t" by (cases h rule: rev_cases) (auto simp: in_order_def)
  moreover have "remembered (v_nonces ?v) (sg_Nonce s) t0 ?t"
    using accepted_remembered(1) [OF assms(1)] \<open>in_order t0 h\<close> by (intro run_remembered) auto
  moreover have "t1 - t0 \<le> NonceTTL"
    using True accepted_remembered(2) [OF assms(1)] assms(4)
    by (auto simp: authentic_def NonceTTL_def MaxSkew_def abs_le_iff)
  ultimately have "admit (v_nonces ?v) (v_buckets ?v) (sg_Nonce s') (sg_AgentID s') t1 =
      (sweep (v_nonces ?v) t1, v_buckets ?v, AdmitReplay)"
    using admit_replay assms(3) by metis
  then show ?thesis
    using check_cases(2,3) [OF True, of ?v] by (cases "snd (Check cr ?v s' t1)") auto
qed

theorem accepted_only_once_witness:
  "\<exists>e. snd (Check open_crypto (fst (Check open_crypto new_verifier example_signed (101 * second)))
      example_signed (399 * second)) = Inl e"
proof -
  let ?c = "Check open_crypto new_verifier example_signed (101 * second)"
  have "?c = (fst ?c, Inr \<lparr>ag_ID = 7, ag_Name = ''probe'', ag_PubKey = ''k'', ag_Enabled = True\<rparr>)"
    using example_accepted by (metis prod.collapse)
  from accepted_only_once [OF this, of "[]" example_signed "399 * second"]
  show ?thesis by (simp add: second_def)
qed

text \<open>
  Property C9. The rate bound: whatever requests arrive before and in it, in any window of time
  the verifier admits at most 30 requests of one agent plus one for every two seconds of the window's length.
\<close>

theorem rate_bounded:
  assumes "in_order t0 (g @ h)" and "w = last (t0 # map snd g)"
  shows "real (admitted cr (run_checks cr new_verifier g) i h) \<le>
    30 + real_of_int (last (w # map snd h) - w) / 1000000000 / 2"
proof -
  let ?v = "run_checks cr new_verifier g"
  have g: "in_order t0 g" and h: "in_order w h" using assms by (auto simp: in_order_append)
  have "buckets_ok (v_buckets new_verifier) t0" by (simp add: buckets_ok_def new_verifier_def)
  then have ok: "buckets_ok (v_buckets ?v) w" using run_buckets_ok g assms(2) by blast
  have "real (admitted cr ?v i h) \<le> avail (v_buckets ?v) i w + refill w (last (w # map snd h))"
    by (rule admitted_bound [OF ok h])
  then show ?thesis
    using avail_bounds [OF ok, of i] by (simp add: refill_def second_def refillRate_def burstSize_def)
qed

theorem rate_bounded_witness:
  "real (admitted open_crypto new_verifier 7 [(example_signed, 101 * second), (example_signed, 103 * second)]) \<le> 31"
  using rate_bounded [of "101 * second" "[]" "[(example_signed, 101 * second), (example_signed, 103 * second)]" "101 * second"
      open_crypto 7]
  by (simp add: second_def)

text \<open>
  Further property. A signature covers one request only: when the method, the nonce and the digest
  hold no newline, requests with the same canonical string have the same method, path, agent,
  timestamp, nonce and body digest, even though the path itself may hold any characters.
\<close>

theorem CanonicalString_binds:
  assumes "CanonicalString cr a = CanonicalString cr b"
    and "\<forall>x. newline_free (cr_sha256_hex cr x)"
    and "newline_free (sg_Method a)" and "newline_free (sg_Method b)"
    and "newline_free (sg_Nonce a)" and "newline_free (sg_Nonce b)"
  shows "sg_Method a = sg_Method b \<and> sg_Path a = sg_Path b \<and> sg_AgentID a = sg_AgentID b \<and>
    sg_Timestamp a = sg_Timestamp b \<and> sg_Nonce a = sg_Nonce b \<and>
    cr_sha256_hex cr (sg_Body a) = cr_sha256_hex cr (sg_Body b)"
proof -
  have "newline_free Domain" by (simp add: newline_free_def Domain_def)
  from cut_first [OF this this assms(1) [unfolded CanonicalString_unfold]] have
    e1: "sg_Method a @ CHR 0x0A # ((((sg_Path a @ CHR 0x0A # show_int (sg_AgentID a))
     @ CHR 0x0A # show_int (sg_Timestamp a)) @ CHR 0x0A # sg_Nonce a) @ CHR 0x0A # cr_sha256_hex cr (sg_Body a)) =
     sg_Method b @ CHR 0x0A # ((((sg_Path b @ CHR 0x0A # show_int (sg_AgentID b))
     @ CHR 0x0A # show_int (sg_Timestamp b)) @ CHR 0x0A # sg_Nonce b) @ CHR 0x0A # cr_sha256_hex cr (sg_Body b))" by blast
  note m = cut_first [OF assms(3,4) e1]
  note d = cut_last [OF assms(2) [rule_format] assms(2) [rule_format] m [THEN conjunct2]]
  note n = cut_last [OF assms(5,6) d [THEN conjunct1]]
  note ts = cut_last [OF newline_free_show_int newline_free_show_int n [THEN conjunct1]]
  note ag = cut_last [OF newline_free_show_int newline_free_show_int ts [THEN conjunct1]]
  show ?thesis using m d n ts ag show_int_inj by blast
qed

theorem CanonicalString_binds_witness:
  "CanonicalString open_crypto (example_signed\<lparr>sg_AgentID := 8\<rparr>) \<noteq> CanonicalString open_crypto example_signed"
proof
  assume "CanonicalString open_crypto (example_signed\<lparr>sg_AgentID := 8\<rparr>) = CanonicalString open_crypto example_signed"
  from CanonicalString_binds [OF this] show False
    by (simp add: open_crypto_def example_signed_def newline_free_def)
qed

end
