(* ===== verification/Outbox.thy ===== *)
theory Outbox
  imports TableView Batch Enrol Verifier
begin

text \<open>
  How a measurement of a remote agent reaches the master: the outbox of the agent
  (\<open>PendingMeasurements\<close>, \<open>DropSubmitted\<close> of \<open>internal/store/agents.go\<close>), the loop that drains it
  (\<open>pushMeasurements\<close> of \<open>internal/agent/agent.go\<close>), and what the master does with a submission
  (\<open>handleIngest\<close> of \<open>internal/api/ingest.go\<close>). The network between them is an adversary that loses requests
  and answers as it likes; the Arrow library, ed25519 and SHA-256 are arguments, as in \<open>Batch\<close> and \<open>Verifier\<close>.
\<close>

section \<open>The outbox\<close>

datatype outbox_error = PendingDecode enc_error | PendingSeries string enc_error

text \<open>
  What SQLite and the Go runtime leave open: the order among rows of one instant, the order of rows
  without an \<open>ORDER BY\<close>, and the order of the keys of a map.
\<close>

record orders =
  or_pending :: "mrow list \<Rightarrow> mrow list"
  or_series :: "srow list \<Rightarrow> srow list"
  or_pairs :: "(int \<times> int) list \<Rightarrow> (int \<times> int) list"

definition orders_ok :: "orders \<Rightarrow> bool" where
  "orders_ok ord \<longleftrightarrow> (\<forall>rows. mset (or_pending ord rows) = mset rows \<and> sorted (map mr_ts (or_pending ord rows))) \<and>
     (\<forall>rows. mset (or_series ord rows) = mset rows) \<and> (\<forall>ps. mset (or_pairs ord ps) = mset ps)"

definition pendingSeriesChunk :: nat where "pendingSeriesChunk = 100"

definition scan_row :: "mrow \<Rightarrow> outbox_error + measurement" where
  "scan_row r = (case Decode (mr_samples r) of Inl e \<Rightarrow> Inl (PendingDecode e) | Inr xs \<Rightarrow> Inr (measurement_of r xs))"

abbreviation pair_of :: "measurement \<Rightarrow> int \<times> int" where
  "pair_of m \<equiv> (m_TargetID m, m_AgentID m)"

definition span_add :: "measurement \<Rightarrow> (int \<times> int \<Rightarrow> (int \<times> int) option) \<Rightarrow> int \<times> int \<Rightarrow> (int \<times> int) option" where
  "span_add m spans =
     (case spans (pair_of m) of
        None \<Rightarrow> spans(pair_of m \<mapsto> (m_TS m, m_TS m))
      | Some (lo, hi) \<Rightarrow> spans(pair_of m \<mapsto> (if m_TS m < lo then m_TS m else lo, if m_TS m > hi then m_TS m else hi)))"

definition in_span :: "(int \<times> int \<Rightarrow> (int \<times> int) option) \<Rightarrow> (int \<times> int) list \<Rightarrow> srow \<Rightarrow> bool" where
  "in_span spans pairs q \<longleftrightarrow>
     (\<exists>p \<in> set pairs. p = (sr_target q, sr_agent q) \<and>
        (case spans p of None \<Rightarrow> False | Some (lo, hi) \<Rightarrow> lo \<le> sr_ts q \<and> sr_ts q \<le> hi))"

fun attach_pending :: "srow list \<Rightarrow> measurement list \<Rightarrow> outbox_error + measurement list" where
  "attach_pending [] ms = Inr ms"
| "attach_pending (q # qs) ms =
     (if skey q \<notin> key_of ` set ms then attach_pending qs ms
      else case DecodeSigned (sr_samples q) of
        Inl e \<Rightarrow> Inl (PendingSeries (sr_series q) e)
      | Inr vals \<Rightarrow> attach_pending qs (map (\<lambda>m. if key_of m = skey q
          then m\<lparr>m_Series := (m_Series m)(sr_series q \<mapsto> vals)\<rparr> else m) ms))"

definition readPendingSeriesChunk :: "orders \<Rightarrow> mdb \<Rightarrow> (int \<times> int) list \<Rightarrow> (int \<times> int \<Rightarrow> (int \<times> int) option) \<Rightarrow>
    measurement list \<Rightarrow> outbox_error + measurement list" where
  "readPendingSeriesChunk ord db pairs spans ms = attach_pending (or_series ord (filter (in_span spans pairs) (t_series db))) ms"

text \<open>\<open>slices.Chunk\<close>\<close>

function chunks :: "nat \<Rightarrow> 'a list \<Rightarrow> 'a list list" where
  "chunks n xs = (if xs = [] \<or> n = 0 then [] else take n xs # chunks n (drop n xs))"
  by auto
termination by (relation "measure (\<lambda>(n, xs). length xs)") auto

declare chunks.simps [simp del]

fun attach_chunks :: "orders \<Rightarrow> mdb \<Rightarrow> (int \<times> int \<Rightarrow> (int \<times> int) option) \<Rightarrow> (int \<times> int) list list \<Rightarrow>
    measurement list \<Rightarrow> outbox_error + measurement list" where
  "attach_chunks ord db spans [] ms = Inr ms"
| "attach_chunks ord db spans (c # cs) ms =
     rbind (readPendingSeriesChunk ord db c spans ms) (attach_chunks ord db spans cs)"

definition attachPendingSeries :: "orders \<Rightarrow> mdb \<Rightarrow> measurement list \<Rightarrow> outbox_error + measurement list" where
  "attachPendingSeries ord db ms =
     (if ms = [] then Inr ms
      else attach_chunks ord db (fold span_add ms (\<lambda>_. None))
        (chunks pendingSeriesChunk (or_pairs ord (remdups (map pair_of ms)))) ms)"

text \<open>\<open>SELECT ... WHERE submitted = 0 ORDER BY ts LIMIT ?\<close>: no row of an outbox is ever marked submitted.\<close>

definition PendingMeasurements :: "orders \<Rightarrow> nat \<Rightarrow> mdb \<Rightarrow> outbox_error + measurement list" where
  "PendingMeasurements ord limit db =
     rbind (rmap scan_row (take limit (or_pending ord (t_measurements db)))) (attachPendingSeries ord db)"

definition DropSubmitted :: "measurement list \<Rightarrow> mdb \<Rightarrow> mdb" where
  "DropSubmitted ms db = fold forget ms db"

section \<open>The outbox as a map\<close>

lemma DropSubmitted_ok: "db_ok db \<Longrightarrow> db_ok (DropSubmitted ms db)"
  unfolding DropSubmitted_def by (induction ms arbitrary: db) (simp_all add: forget_ok)

lemma view_DropSubmitted: "view (DropSubmitted ms db) = view db |` (- key_of ` set ms)"
  unfolding DropSubmitted_def
  by (induction ms arbitrary: db) (auto simp: view_forget restrict_map_def fun_eq_iff)

text \<open>What attaching a set of series rows does to a measurement.\<close>

definition overlay :: "mdb \<Rightarrow> srow list \<Rightarrow> measurement \<Rightarrow> measurement" where
  "overlay db qs m = m\<lparr>m_Series := (\<lambda>name. if (key_of m, name) \<in> sname ` set qs then series_at db (key_of m) name else m_Series m name)\<rparr>"

lemma key_of_overlay [simp]: "key_of (overlay db qs m) = key_of m"
  by (simp add: overlay_def key_of_def)

lemma overlay_Nil [simp]: "overlay db [] = id"
  by (simp add: overlay_def fun_eq_iff)

lemma key_of_Series [simp]: "key_of (m\<lparr>m_Series := f\<rparr>) = key_of m"
  by (simp add: key_of_def)

lemma overlay_append: "overlay db qs' (overlay db qs m) = overlay db (qs @ qs') m"
  by (simp add: overlay_def fun_eq_iff image_Un cong: if_cong)

lemma series_at_row:
  assumes "db_ok db" and "q \<in> set (t_series db)" and "DecodeSigned (sr_samples q) = Inr vs"
  shows "series_at db (skey q) (sr_series q) = Some vs"
proof -
  obtain q' where f: "find (\<lambda>x. skey x = skey q \<and> sr_series x = sr_series q) (t_series db) = Some q'"
    using assms(2) by (cases "find (\<lambda>x. skey x = skey q \<and> sr_series x = sr_series q) (t_series db)") (auto simp: find_None_iff)
  then have "q' \<in> set (t_series db)" "sname q' = sname q" by (auto simp: find_Some_iff sname_def)
  then have "q' = q" using assms(1,2) by (auto simp: db_ok_def distinct_map inj_on_def)
  then show ?thesis using f assms(3) by (simp add: series_at_def)
qed

lemma attach_pending_overlay:
  assumes "db_ok db" and "set qs \<subseteq> set (t_series db)"
  shows "attach_pending qs ms = Inr (map (overlay db qs) ms)"
  using assms(2)
proof (induction qs arbitrary: ms)
  case (Cons q qs)
  obtain vs where vs: "DecodeSigned (sr_samples q) = Inr vs"
    using assms(1) Cons.prems by (auto simp: db_ok_def list_all_iff srow_ok_def)
  have at: "series_at db (skey q) (sr_series q) = Some vs" using Cons.prems vs by (intro series_at_row assms(1)) auto
  have one: "(if key_of m = skey q then m\<lparr>m_Series := (m_Series m)(sr_series q \<mapsto> vs)\<rparr> else m) = overlay db [q] m" for m
    using at by (auto simp: overlay_def sname_def fun_eq_iff)
  have step: "overlay db (q # qs) m = overlay db qs (overlay db [q] m)" for m by (simp add: overlay_append)
  show ?case
  proof (cases "skey q \<in> key_of ` set ms")
    case True
    then show ?thesis using Cons.IH [of "map (overlay db [q]) ms"] Cons.prems vs by (simp add: one step)
  next
    case False
    then have "overlay db [q] m = m" if "m \<in> set ms" for m using one [of m] that by (metis imageI)
    then have "map (overlay db (q # qs)) ms = map (overlay db qs) ms" unfolding step by simp
    then show ?thesis using False Cons.IH [of ms] Cons.prems by simp
  qed
qed simp


text \<open>The spans cover the page, and the chunks cover the pairs.\<close>

lemma concat_chunks: "0 < n \<Longrightarrow> concat (chunks n xs) = xs"
  by (induction n xs rule: chunks.induct) (subst chunks.simps, auto)

lemma span_grows: "spans p = Some (lo, hi) \<Longrightarrow> \<exists>lo' hi'. fold span_add ms spans p = Some (lo', hi') \<and> lo' \<le> lo \<and> hi \<le> hi'"
proof (induction ms arbitrary: spans lo hi)
  case (Cons m ms)
  have "\<exists>lo1 hi1. span_add m spans p = Some (lo1, hi1) \<and> lo1 \<le> lo \<and> hi \<le> hi1"
  proof (cases "p = pair_of m")
    case True
    then show ?thesis using Cons.prems by (simp add: span_add_def)
  next
    case False
    then have "span_add m spans p = spans p" by (simp add: span_add_def split: option.split prod.split)
    then show ?thesis using Cons.prems by simp
  qed
  then obtain lo1 hi1 where "span_add m spans p = Some (lo1, hi1)" "lo1 \<le> lo" "hi \<le> hi1" by blast
  then show ?case using Cons.IH [of "span_add m spans" lo1 hi1] by fastforce
qed simp

lemma span_covers:
  "m \<in> set ms \<Longrightarrow> \<exists>lo hi. fold span_add ms spans (pair_of m) = Some (lo, hi) \<and> lo \<le> m_TS m \<and> m_TS m \<le> hi"
proof (induction ms arbitrary: spans)
  case (Cons x ms)
  show ?case
  proof (cases "m = x")
    case True
    obtain lo hi where "span_add x spans (pair_of m) = Some (lo, hi)" "lo \<le> m_TS m" "m_TS m \<le> hi"
      using True by (cases "spans (pair_of x)") (auto simp: span_add_def split: prod.split if_split)
    then show ?thesis using span_grows [of "span_add x spans" "pair_of m" lo hi ms] by fastforce
  qed (use Cons in simp)
qed simp

lemma attach_chunks_overlay:
  assumes "db_ok db" and "orders_ok ord"
  shows "\<exists>qs. attach_chunks ord db spans cs ms = Inr (map (overlay db qs) ms) \<and>
    set qs = {q \<in> set (t_series db). in_span spans (concat cs) q}"
proof (induction cs arbitrary: ms)
  case (Cons c cs)
  let ?q = "or_series ord (filter (in_span spans c) (t_series db))"
  have s: "set ?q = {q \<in> set (t_series db). in_span spans c q}"
    using assms(2) by (metis orders_ok_def set_filter set_mset_mset)
  have one: "readPendingSeriesChunk ord db c spans ms = Inr (map (overlay db ?q) ms)"
    unfolding readPendingSeriesChunk_def by (rule attach_pending_overlay [OF assms(1)]) (use s in auto)
  obtain qs where qs: "attach_chunks ord db spans cs (map (overlay db ?q) ms) = Inr (map (overlay db qs) (map (overlay db ?q) ms))"
    "set qs = {q \<in> set (t_series db). in_span spans (concat cs) q}" using Cons.IH by blast
  have "map (overlay db qs) (map (overlay db ?q) ms) = map (overlay db (?q @ qs)) ms" by (simp add: overlay_append)
  moreover have "set (?q @ qs) = {q \<in> set (t_series db). in_span spans (concat (c # cs)) q}"
    unfolding set_append s qs(2) by (auto simp: in_span_def)
  ultimately show ?case using one qs(1) by (intro exI [of _ "?q @ qs"]) simp
qed (intro exI [of _ "[]"], simp add: in_span_def)

lemma scan_row_ok: "db_ok db \<Longrightarrow> r \<in> set (t_measurements db) \<Longrightarrow> scan_row r = Inr (decoded r)"
  by (auto simp: db_ok_def list_all_iff row_ok_def scan_row_def decoded_def)

lemma rmap_map: "(\<And>x. x \<in> set xs \<Longrightarrow> f x = Inr (g x)) \<Longrightarrow> rmap f xs = Inr (map g xs)"
  by (induction xs) simp_all

lemma series_at_none: "(k, name) \<notin> sname ` set (t_series db) \<Longrightarrow> series_at db k name = None"
proof -
  assume "(k, name) \<notin> sname ` set (t_series db)"
  then have "find (\<lambda>q. skey q = k \<and> sr_series q = name) (t_series db) = None" by (auto simp: find_None_iff sname_def)
  then show ?thesis by (simp add: series_at_def)
qed

lemma PendingMeasurements_oldest:
  assumes "db_ok db" and "orders_ok ord"
  shows "PendingMeasurements ord limit db = Inr (map (content db) (take limit (or_pending ord (t_measurements db))))"
proof -
  let ?rows = "take limit (or_pending ord (t_measurements db))"
  have sub: "set ?rows \<subseteq> set (t_measurements db)"
    using assms(2) by (metis orders_ok_def set_mset_mset set_take_subset)
  then have scan: "rmap scan_row ?rows = Inr (map decoded ?rows)"
    by (intro rmap_map scan_row_ok [OF assms(1)]) blast
  let ?ms = "map decoded ?rows" and ?spans = "fold span_add (map decoded ?rows) (\<lambda>_. None)"
  let ?pairs = "or_pairs ord (remdups (map pair_of ?ms))"
  have pairs: "set ?pairs = pair_of ` set ?ms"
  proof -
    have "mset ?pairs = mset (remdups (map pair_of ?ms))" using assms(2) unfolding orders_ok_def by blast
    then have "set ?pairs = set (remdups (map pair_of ?ms))" by (rule mset_eq_setD)
    then show ?thesis by (simp only: set_remdups set_map)
  qed
  obtain qs where qs: "attach_chunks ord db ?spans (chunks pendingSeriesChunk ?pairs) ?ms = Inr (map (overlay db qs) ?ms)"
    "set qs = {q \<in> set (t_series db). in_span ?spans ?pairs q}"
    using attach_chunks_overlay [OF assms, of ?spans "chunks pendingSeriesChunk ?pairs" ?ms]
    by (auto simp: concat_chunks pendingSeriesChunk_def)
  have key: "key_of (decoded r) = mkey r" for r by (simp add: decoded_def measurement_of_def key_of_def mkey_def)
  have "overlay db qs (decoded r) = content db r" if r: "r \<in> set ?rows" for r
  proof -
    have "(mkey r, name) \<in> sname ` set qs \<longleftrightarrow> (mkey r, name) \<in> sname ` set (t_series db)" for name
    proof
      assume "(mkey r, name) \<in> sname ` set (t_series db)"
      then obtain q where q: "q \<in> set (t_series db)" "skey q = mkey r" "sr_series q = name" by (auto simp: sname_def)
      have m: "decoded r \<in> set ?ms" using r by simp
      from span_covers [OF m, of "\<lambda>_. None"] obtain lo hi where sp: "?spans (pair_of (decoded r)) = Some (lo, hi)"
        "lo \<le> m_TS (decoded r)" "m_TS (decoded r) \<le> hi" by blast
      have eq: "pair_of (decoded r) = (sr_target q, sr_agent q)" "m_TS (decoded r) = sr_ts q"
      proof -
        have "key_of (decoded r) = skey q" unfolding key q(2) ..
        then show "pair_of (decoded r) = (sr_target q, sr_agent q)" "m_TS (decoded r) = sr_ts q"
          unfolding skey_def key_of_def prod.inject by blast+
      qed
      have "pair_of (decoded r) \<in> set ?pairs" unfolding pairs using m by (rule imageI)
      then have "in_span ?spans ?pairs q" using sp unfolding in_span_def eq by auto
      then show "(mkey r, name) \<in> sname ` set qs" using q qs(2) by (auto simp: sname_def image_iff)
    qed (use qs(2) in auto)
    moreover have "m_Series (decoded r) = (\<lambda>_. None)" by (simp add: decoded_def measurement_of_def)
    ultimately have "(\<lambda>name. if (mkey r, name) \<in> sname ` set qs then series_at db (mkey r) name else m_Series (decoded r) name) =
        series_at db (mkey r)" using series_at_none [of "mkey r" _ db] by (intro ext) simp
    then show ?thesis unfolding overlay_def content_def key by simp
  qed
  then have "map (overlay db qs) ?ms = map (content db) ?rows" by simp
  then show ?thesis using qs(1) unfolding PendingMeasurements_def scan attachPendingSeries_def by auto
qed


section \<open>What the master does with a submission\<close>

text \<open>Bytes as characters, as requests hold them, and as numbers, as the decoder reads them.\<close>

definition octets :: "bytes \<Rightarrow> u8 list" where
  "octets s = map of_char s"

definition raw :: "u8 list \<Rightarrow> bytes" where
  "raw bs = map (\<lambda>b. char_of (unat b)) bs"

definition maxIngestBody :: nat where "maxIngestBody = 8 * 2 ^ 20"

record master =
  ma_ver :: verifier
  ma_db :: mdb
  ma_tables :: enroldb

definition agentAuth :: "crypto \<Rightarrow> http_request \<Rightarrow> int \<Rightarrow> master \<Rightarrow> master \<times> (agent \<times> bytes) option" where
  "agentAuth cr req now st =
     (case Parse cr req maxIngestBody of
        Inl _ \<Rightarrow> (st, None)
      | Inr s \<Rightarrow>
          (case Check cr (ma_ver st) s now of
             (v, Inl _) \<Rightarrow> (st\<lparr>ma_ver := v\<rparr>, None)
           | (v, Inr ag) \<Rightarrow> (st\<lparr>ma_ver := v\<rparr>, Some (ag, sg_Body s))))"

definition assignedTo :: "string \<Rightarrow> string \<Rightarrow> bool" where
  "assignedTo list name \<longleftrightarrow> name \<in> set (Prelude.fields list)"

fun assigned_loop :: "tree \<Rightarrow> string \<Rightarrow> target list \<Rightarrow> int list \<Rightarrow> tree_error + int list" where
  "assigned_loop tr name [] out = Inr out"
| "assigned_loop tr name (n # ns) out =
     (if t_Host n = None then assigned_loop tr name ns out
      else rbind (Resolve (t_nodes tr) (t_ID n)) (\<lambda>res.
        assigned_loop tr name ns (if assignedTo (v_Effective (res_Agents res)) name then out @ [t_ID n] else out)))"

definition assignedTargets :: "target list \<Rightarrow> string \<Rightarrow> tree_error + int list" where
  "assignedTargets targets name = rbind (New targets) (\<lambda>tr. assigned_loop tr name targets [])"

text \<open>The version an agent claims: the header, trimmed and cut, if it is plainly a version.\<close>

definition version_char :: "char \<Rightarrow> bool" where
  "version_char c \<longleftrightarrow> (let n = of_char c :: nat in 97 \<le> n \<and> n \<le> 122 \<or> 65 \<le> n \<and> n \<le> 90 \<or> 48 \<le> n \<and> n \<le> 57) \<or> c \<in> set ''.-+_/ ()''"

definition agentVersion :: "string \<Rightarrow> string" where
  "agentVersion header = (let v = take 64 (trim_space header) in if list_all version_char v then v else '''')"

text \<open>
  The whole handler: the state afterwards and the status. \<open>slot\<close> is whether a decode slot is free,
  \<open>header\<close> the version header; the clock is read once. Rows for targets not assigned to the agent and rows
  from the future are left out, the others are written unless they are there.
\<close>

definition handleIngest :: "crypto \<Rightarrow> arrow \<Rightarrow> (int \<Rightarrow> u8 list \<Rightarrow> arrow_stream) \<Rightarrow> nat \<Rightarrow> bool \<Rightarrow> http_request \<Rightarrow> string \<Rightarrow> int \<Rightarrow> master \<Rightarrow> master \<times> int" where
  "handleIngest cr ar read W slot req header now st =
     (case agentAuth cr req now st of
        (st, None) \<Rightarrow> (st, 401)
      | (st, Some (ag, body)) \<Rightarrow>
          if \<not> slot then (st, 503)
          else (case DecodeBatch ar read W (octets body) (ag_ID ag) of
              Inl _ \<Rightarrow> (st, 400)
            | Inr measurements \<Rightarrow>
                (case assignedTargets (en_targets (ma_tables st)) (ag_Name ag) of
                   Inl _ \<Rightarrow> (st, 500)
                 | Inr assigned \<Rightarrow>
                     let horizon = unix (now + MaxSkew);
                         kept = filter (\<lambda>m. m_TargetID m \<in> set assigned \<and> \<not> m_TS m > horizon) measurements
                     in (case IngestMeasurements kept (ma_db st) of
                           (db, Inl _) \<Rightarrow> (st\<lparr>ma_db := db\<rparr>, 500)
                         | (db, Inr dup) \<Rightarrow>
                             (st\<lparr>ma_db := db, ma_tables := TouchAgent (ag_ID ag) (unix now) (agentVersion header) (ma_tables st)\<rparr>,
                              200)))))"

section \<open>Draining the outbox\<close>

definition pushBatch :: nat where "pushBatch = 2000"

text \<open>How a push ended; every branch is a line in the log of the agent.\<close>

datatype push_end =
    ReadFailed outbox_error
  | EncodeFailed' batch_error
  | Drained
  | Unreachable
  | Undecodable
  | Rejected int

text \<open>
  \<open>post\<close> signs and sends a body and gives the status, if an answer came; \<open>'w\<close> is everything outside
  the agent. The result holds what was sent and answered, in order. The first argument bounds the rounds.
\<close>

fun pushMeasurements :: "nat \<Rightarrow> orders \<Rightarrow> (arecord \<Rightarrow> u8 list option) \<Rightarrow> (u8 list \<Rightarrow> 'w \<Rightarrow> 'w \<times> int option) \<Rightarrow> mdb \<Rightarrow> 'w \<Rightarrow>
    (mdb \<times> 'w \<times> (measurement list \<times> int option) list \<times> push_end) option" where
  "pushMeasurements 0 ord write post db w = None"
| "pushMeasurements (Suc n) ord write post db w =
     (case PendingMeasurements ord pushBatch db of
        Inl e \<Rightarrow> Some (db, w, [], ReadFailed e)
      | Inr batch \<Rightarrow>
          if batch = [] then Some (db, w, [], Drained)
          else (case EncodeBatch write batch of
              Inl e \<Rightarrow> Some (db, w, [], EncodeFailed' e)
            | Inr body \<Rightarrow>
                (case post body w of
                   (w, None) \<Rightarrow> Some (db, w, [(batch, None)], Unreachable)
                 | (w, Some status) \<Rightarrow>
                     if status = 400 then Some (DropSubmitted batch db, w, [(batch, Some status)], Undecodable)
                     else if status \<noteq> 200 then Some (db, w, [(batch, Some status)], Rejected status)
                     else if length batch < pushBatch then Some (DropSubmitted batch db, w, [(batch, Some status)], Drained)
                     else map_option (\<lambda>(db, w, sent, e). (db, w, (batch, Some status) # sent, e))
                       (pushMeasurements n ord write post (DropSubmitted batch db) w))))"


section \<open>A page of the outbox\<close>

lemma rows_DropSubmitted:
  "t_measurements (DropSubmitted ms db) = filter (\<lambda>r. mkey r \<notin> key_of ` set ms) (t_measurements db)"
proof (induction ms arbitrary: db)
  case (Cons m ms)
  have "t_measurements (DropSubmitted (m # ms) db) = filter (\<lambda>r. mkey r \<notin> key_of ` set ms) (t_measurements (forget m db))"
    using Cons.IH [of "forget m db"] by (simp add: DropSubmitted_def)
  then show ?case by (auto simp: forget_def intro: filter_cong)
qed (simp add: DropSubmitted_def)

lemma content_TS: "m_TS (content db r) = mr_ts r"
  by (simp add: content_def decoded_def measurement_of_def)

lemma pending_page:
  assumes "db_ok db" and "orders_ok ord" and "PendingMeasurements ord limit db = Inr batch"
  shows "\<forall>m \<in> set batch. view db (key_of m) = Some m"
    and "sorted (map m_TS batch)"
    and "length batch = min (length (t_measurements db)) limit"
    and "view (DropSubmitted batch db) k = Some m \<Longrightarrow> b \<in> set batch \<Longrightarrow> m_TS b \<le> m_TS m"
    and "length batch < limit \<Longrightarrow> view (DropSubmitted batch db) = (\<lambda>_. None)"
    and "batch \<noteq> [] \<Longrightarrow> length (t_measurements (DropSubmitted batch db)) < length (t_measurements db)"
proof -
  let ?rows = "or_pending ord (t_measurements db)"
  have ord: "mset ?rows = mset (t_measurements db)" "sorted (map mr_ts ?rows)" using assms(2) by (simp_all add: orders_ok_def)
  then have set: "set ?rows = set (t_measurements db)" and len: "length ?rows = length (t_measurements db)"
    by (auto dest: mset_eq_setD mset_eq_length)
  have b: "batch = map (content db) (take limit ?rows)" using PendingMeasurements_oldest [OF assms(1,2)] assms(3) by simp
  have dist: "distinct (map mkey (t_measurements db))" using assms(1) by (simp add: db_ok_def)
  have keys: "key_of ` set batch = mkey ` set (take limit ?rows)" by (simp add: b image_image)
  show view: "\<forall>m \<in> set batch. view db (key_of m) = Some m"
  proof
    fix m assume "m \<in> set batch"
    then obtain r where "r \<in> set (take limit ?rows)" "m = content db r" by (auto simp: b)
    then show "view db (key_of m) = Some m" using view_row [OF dist, of r] set by (auto dest: in_set_takeD)
  qed
  have "map m_TS batch = take limit (map mr_ts ?rows)" by (simp add: b take_map content_TS)
  then show "sorted (map m_TS batch)" using ord(2) by (simp add: sorted_wrt_take)
  show "length batch = min (length (t_measurements db)) limit" by (simp add: b len)
  show "m_TS b \<le> m_TS m" if v: "view (DropSubmitted batch db) k = Some m" and bb: "b \<in> set batch"
  proof -
    have k: "k \<notin> key_of ` set batch" and vk: "view db k = Some m"
      using v by (auto simp: view_DropSubmitted restrict_map_def split: if_split_asm)
    from vk have "k \<in> mkey ` set ?rows" using view_dom [of k db] set by auto
    then obtain r where r: "r \<in> set ?rows" "mkey r = k" by blast
    then have "r \<notin> set (take limit ?rows)" using k keys by auto
    then have "r \<in> set (drop limit ?rows)" using r(1) by (metis append_take_drop_id in_set_conv_decomp Un_iff set_append)
    moreover obtain q where q: "q \<in> set (take limit ?rows)" "b = content db q" using bb by (auto simp: b)
    moreover have "sorted (map mr_ts (take limit ?rows @ drop limit ?rows))" using ord(2) by simp
    ultimately have "mr_ts q \<le> mr_ts r" unfolding map_append sorted_append by auto
    moreover have "m = content db r" using view_row [OF dist, of r] r vk set by simp
    ultimately show ?thesis using q(2) by (simp add: content_TS)
  qed
  show "view (DropSubmitted batch db) = (\<lambda>_. None)" if short: "length batch < limit"
  proof
    fix k
    have "take limit ?rows = ?rows" using short by (simp add: b)
    then have "key_of ` set batch = mkey ` set (t_measurements db)" using keys set by simp
    then show "view (DropSubmitted batch db) k = None"
      using view_dom [of k db] by (auto simp: view_DropSubmitted restrict_map_def)
  qed
  show "length (t_measurements (DropSubmitted batch db)) < length (t_measurements db)" if ne: "batch \<noteq> []"
  proof -
    obtain m where "m \<in> set batch" using ne by (cases batch) auto
    then have "key_of m \<in> mkey ` set (t_measurements db)" using view view_dom [of "key_of m" db] by auto
    then obtain r where "r \<in> set (t_measurements db)" "mkey r = key_of m" by auto
    moreover from this have "mkey r \<in> key_of ` set batch" using \<open>m \<in> set batch\<close> by simp
    ultimately show ?thesis
      unfolding rows_DropSubmitted using length_filter_less [of r "t_measurements db" "\<lambda>r. mkey r \<notin> key_of ` set batch"] by simp
  qed
qed

lemma pending_distinct:
  assumes "db_ok db" and "orders_ok ord" and "PendingMeasurements ord limit db = Inr batch"
  shows "distinct (map key_of batch)"
proof -
  let ?rows = "or_pending ord (t_measurements db)"
  have "mset (map mkey ?rows) = mset (map mkey (t_measurements db))" using assms(2) by (simp add: orders_ok_def)
  then have "distinct (map mkey ?rows)" using assms(1) by (metis db_ok_def mset_eq_imp_distinct_iff)
  moreover have "batch = map (content db) (take limit ?rows)"
    using PendingMeasurements_oldest [OF assms(1,2), of limit] assms(3) by simp
  then have "map key_of batch = take limit (map mkey ?rows)" by (simp add: take_map)
  ultimately show ?thesis by simp
qed

section \<open>No measurement is lost on the way\<close>

definition settled :: "int option \<Rightarrow> bool" where
  "settled answer \<longleftrightarrow> answer = Some 200 \<or> answer = Some 400"

text \<open>The keys that were in a batch the master answered.\<close>

fun gone :: "(measurement list \<times> int option) list \<Rightarrow> mkeys set" where
  "gone [] = {}"
| "gone ((b, answer) # sent) = (if settled answer then key_of ` set b else {}) \<union> gone sent"

definition pushed_ok :: "mdb \<Rightarrow> mdb \<Rightarrow> (measurement list \<times> int option) list \<Rightarrow> push_end \<Rightarrow> bool" where
  "pushed_ok db db' sent e \<longleftrightarrow> db_ok db' \<and>
     view db' = view db |` (- gone sent) \<and>
     (\<forall>(b, answer) \<in> set sent. b \<noteq> [] \<and> length b \<le> pushBatch \<and> (\<forall>m \<in> set b. view db (key_of m) = Some m)) \<and>
     sorted (map m_TS (concat (map fst sent))) \<and>
     (e = Drained \<longrightarrow> view db' = (\<lambda>_. None) \<and> (\<forall>(b, answer) \<in> set sent. answer = Some 200))"

lemma pushed_none: "db_ok db \<Longrightarrow> e \<noteq> Drained \<Longrightarrow> pushed_ok db db [] e"
  by (simp add: pushed_ok_def restrict_map_def)

lemma pushed_last:
  assumes "db_ok db" and "orders_ok ord" and "PendingMeasurements ord pushBatch db = Inr batch" and "batch \<noteq> []"
    and "e = Drained \<longrightarrow> answer = Some 200 \<and> length batch < pushBatch"
  shows "pushed_ok db (if settled answer then DropSubmitted batch db else db) [(batch, answer)] e"
  using assms pending_page [OF assms(1-3)]
  by (auto simp: pushed_ok_def settled_def DropSubmitted_ok view_DropSubmitted restrict_map_def fun_eq_iff)

lemma pushed_step:
  assumes "db_ok db" and "orders_ok ord" and "PendingMeasurements ord pushBatch db = Inr batch" and "batch \<noteq> []"
    and "pushed_ok (DropSubmitted batch db) db' sent e"
  shows "pushed_ok db db' ((batch, Some 200) # sent) e"
proof -
  note page = pending_page [OF assms(1-3)]
  note r = assms(5) [unfolded pushed_ok_def]
  have "view (DropSubmitted batch db) (key_of m) = Some m" if "m \<in> set (concat (map fst sent))" for m
    using r that by fastforce
  then have "m_TS b \<le> m_TS m" if "m \<in> set (concat (map fst sent))" "b \<in> set batch" for b m using page(4) that by blast
  then have "sorted (map m_TS (batch @ concat (map fst sent)))"
    using page(2) r unfolding map_append sorted_append by auto
  then have "sorted (map m_TS (concat (map fst ((batch, Some 200 :: int option) # sent))))" by simp
  moreover have "view db' = view db |` (- gone ((batch, Some 200) # sent))"
    using r by (auto simp: settled_def view_DropSubmitted Int_commute)
  moreover have "\<forall>(b, answer) \<in> set ((batch, Some 200) # sent). b \<noteq> [] \<and> length b \<le> pushBatch \<and> (\<forall>m \<in> set b. view db (key_of m) = Some m)"
  proof -
    have sub: "view db (key_of m) = Some m" if "view (DropSubmitted batch db) (key_of m) = Some m" for m
      using that by (auto simp: view_DropSubmitted restrict_map_def split: if_split_asm)
    have "\<forall>(b, answer) \<in> set sent. b \<noteq> [] \<and> length b \<le> pushBatch \<and> (\<forall>m \<in> set b. view db (key_of m) = Some m)"
      using r sub by fast
    then show ?thesis using page(1,3) assms(4) by simp
  qed
  moreover have "db_ok db'" "e = Drained \<longrightarrow> view db' = (\<lambda>_. None)" using r by blast+
  moreover have "e = Drained \<longrightarrow> (\<forall>(b, answer) \<in> set ((batch, Some 200) # sent). answer = Some 200)" using r by fastforce
  ultimately show ?thesis unfolding pushed_ok_def by blast
qed

text \<open>
  Property C39. The push loop ends and forgets exactly the batches answered with 200 or, as undecodable, with 400. Whatever the
  network and the master answer, a push
  over consistent tables ends within as many rounds as there are buffered measurements; the outbox stays consistent and
  has lost exactly the measurements of those batches, while what was sent and got another answer, or none, stays buffered;
  every batch is full of
  buffered measurements and at most 2000 of them, and over all batches they go out oldest first; and
  if the push ended by finding the outbox drained, every batch was answered with 200 and the outbox is empty.
\<close>

theorem push_loses_nothing:
  assumes "db_ok db" and "orders_ok ord" and "length (t_measurements db) < n"
  shows "\<exists>db' w' sent e. pushMeasurements n ord write post db w = Some (db', w', sent, e) \<and> pushed_ok db db' sent e"
  using assms
proof (induction n arbitrary: db w)
  case (Suc n)
  obtain batch where p: "PendingMeasurements ord pushBatch db = Inr batch"
    using PendingMeasurements_oldest [OF Suc.prems(1,2)] by blast
  note last = pushed_last [OF Suc.prems(1,2) p]
  show ?case
  proof (cases "batch = []")
    case True
    then have "view db = (\<lambda>_. None)" using pending_page(5) [OF Suc.prems(1,2) p] by (simp add: pushBatch_def DropSubmitted_def)
    then show ?thesis using True p Suc.prems(1) by (simp add: pushed_ok_def)
  next
    case ne: False
    show ?thesis
    proof (cases "EncodeBatch write batch")
      case (Inl e)
      then show ?thesis using ne p pushed_none [OF Suc.prems(1)] by simp
    next
      case (Inr body)
      obtain w1 answer where post: "post body w = (w1, answer)" by (cases "post body w")
      show ?thesis
      proof (cases "answer = Some 200 \<and> \<not> length batch < pushBatch")
        case True
        have "length (t_measurements (DropSubmitted batch db)) < n"
          using pending_page(6) [OF Suc.prems(1,2) p ne] Suc.prems(3) by simp
        from Suc.IH [OF DropSubmitted_ok [OF Suc.prems(1)] Suc.prems(2) this, of w1] obtain db' w' sent e where
          rest: "pushMeasurements n ord write post (DropSubmitted batch db) w1 = Some (db', w', sent, e)"
            "pushed_ok (DropSubmitted batch db) db' sent e" by blast
        have "pushMeasurements (Suc n) ord write post db w = Some (db', w', (batch, Some 200) # sent, e)"
          using p ne Inr post True rest(1) by simp
        then show ?thesis using pushed_step [OF Suc.prems(1,2) p ne rest(2)] by blast
      next
        case False
        then show ?thesis using p ne Inr post last [of Unreachable answer] last [of Undecodable answer] last [of "Rejected (the answer)" answer] last [of Drained answer]
          by (cases answer) (auto simp: settled_def split: if_split_asm)
      qed
    qed
  qed
qed simp


section \<open>What a submission may change\<close>

definition may_submit :: "target list \<Rightarrow> string \<Rightarrow> int \<Rightarrow> bool" where
  "may_submit targets name i \<longleftrightarrow>
     (\<exists>tr n res. New targets = Inr tr \<and> n \<in> set targets \<and> t_ID n = i \<and> t_Host n \<noteq> None \<and>
        Resolve (t_nodes tr) i = Inr res \<and> name \<in> set (Prelude.fields (v_Effective (res_Agents res))))"

lemma assigned_loop_set:
  "assigned_loop tr name ns out = Inr l \<Longrightarrow>
    set l = set out \<union> {i. \<exists>n res. n \<in> set ns \<and> t_ID n = i \<and> t_Host n \<noteq> None \<and> Resolve (t_nodes tr) i = Inr res \<and>
      assignedTo (v_Effective (res_Agents res)) name}"
proof (induction ns arbitrary: out)
  case (Cons n ns)
  show ?case
  proof (cases "t_Host n = None")
    case True
    then show ?thesis using Cons by auto
  next
    case False
    then obtain res where res: "Resolve (t_nodes tr) (t_ID n) = Inr res"
      and l: "assigned_loop tr name ns (if assignedTo (v_Effective (res_Agents res)) name then out @ [t_ID n] else out) = Inr l"
      using Cons.prems by (auto simp: rbind_Inr_iff)
    show ?thesis using Cons.IH [OF l] False res by auto
  qed
qed simp

lemma assignedTargets_may:
  assumes "assignedTargets targets name = Inr l"
  shows "i \<in> set l \<longleftrightarrow> may_submit targets name i"
proof -
  from assms obtain tr where tr: "New targets = Inr tr" "assigned_loop tr name targets [] = Inr l"
    by (auto simp: assignedTargets_def rbind_Inr_iff)
  show ?thesis using assigned_loop_set [OF tr(2)] tr(1) by (auto simp: may_submit_def assignedTo_def)
qed

lemma DecodeBatch_submission:
  assumes "DecodeBatch ar read W body i = Inr ms"
  shows "\<forall>m \<in> set ms. submission_ok i m"
proof -
  obtain recs where recs: "decode_records i 0 recs = Inr ms"
    using assms by (auto simp: DecodeBatch_def decodeFrames_def Let_def rbind_Inr_iff split: sum.split_asm)
  show ?thesis using decode_records_ok [OF recs] by simp
qed

lemma view_Ingest:
  assumes "\<forall>m \<in> set ms. submission_ok i m" and "IngestMeasurements ms db = (db', r)"
  shows "view db' = fold (put False) ms (view db)" and "\<exists>dup. r = Inr dup"
proof -
  have fin: "\<forall>m \<in> set ms. finite (dom (m_Series m))" using finite_series assms(1) by blast
  from IngestMeasurements_total [OF assms(1), of db] assms(2) obtain dup where r: "r = Inr dup" by auto
  then show "\<exists>dup. r = Inr dup" ..
  from assms(2) r obtain n where "writeMeasurements False ms db = (db', Inr n)"
    by (cases "writeMeasurements False ms db"; cases "snd (writeMeasurements False ms db)") (auto simp: IngestMeasurements_def)
  then show "view db' = fold (put False) ms (view db)" by (rule view_writeMeasurements) (rule fin)
qed

definition accepted :: "target list \<Rightarrow> string \<Rightarrow> int \<Rightarrow> measurement list \<Rightarrow> measurement list" where
  "accepted targets name now ms = filter (\<lambda>m. may_submit targets name (m_TargetID m) \<and> m_TS m \<le> unix (now + MaxSkew)) ms"

lemma Check_accepts:
  assumes "Check cr v s now = (v', Inr ag)"
  shows "cr_lookup cr (sg_AgentID s) = Some ag" and "authentic cr s now"
proof -
  show "authentic cr s now" using assms unauthentic_unchanged(3) [of cr s now v] by auto
  from check_signed_authentic [OF this, of v] obtain ag' where l: "cr_lookup cr (sg_AgentID s) = Some ag'"
    and c: "check_signed cr v s now = (case admit (v_nonces v) (v_buckets v) (sg_Nonce s) (sg_AgentID s) now of
        (nonces, buckets, res) \<Rightarrow> (v\<lparr>v_nonces := nonces, v_buckets := buckets\<rparr>,
           case res of AdmitReplay \<Rightarrow> Inl (ReusedNonce (ag_Name ag')) | AdmitLimited \<Rightarrow> Inl (OverRate (ag_Name ag')) | AdmitOK \<Rightarrow> Inr ag'))" .
  have "snd (check_signed cr v s now) = Inr ag" using assms Check_state(3) [of cr v s now] by simp
  then have "ag' = ag" unfolding c by (auto split: prod.split_asm admission.split_asm)
  then show "cr_lookup cr (sg_AgentID s) = Some ag" using l by simp
qed

lemma handleIngest_cases:
  assumes "handleIngest cr ar read W slot req header now st = (st', status)"
  obtains (refused) "status \<noteq> 200" "ma_db st' = ma_db st" "ma_tables st' = ma_tables st"
      "status = 400 \<Longrightarrow> \<exists>s ag e. Parse cr req maxIngestBody = Inr s \<and> cr_lookup cr (sg_AgentID s) = Some ag \<and>
        DecodeBatch ar read W (octets (sg_Body s)) (ag_ID ag) = Inl e"
  | (stored) s ag ms where "status = 200" "Parse cr req maxIngestBody = Inr s" "authentic cr s now"
      "cr_lookup cr (sg_AgentID s) = Some ag" "DecodeBatch ar read W (octets (sg_Body s)) (ag_ID ag) = Inr ms"
      "ma_db st' = fst (IngestMeasurements (accepted (en_targets (ma_tables st)) (ag_Name ag) now ms) (ma_db st))"
      "view (ma_db st') = fold (put False) (accepted (en_targets (ma_tables st)) (ag_Name ag) now ms) (view (ma_db st))"
      "ma_tables st' = TouchAgent (ag_ID ag) (unix now) (agentVersion header) (ma_tables st)"
proof -
  show thesis
  proof (cases "Parse cr req maxIngestBody")
    case (Inl e)
    then show ?thesis using assms by (intro refused) (auto simp: handleIngest_def agentAuth_def)
  next
    case (Inr s)
    obtain v r where c: "Check cr (ma_ver st) s now = (v, r)" by (cases "Check cr (ma_ver st) s now")
    show ?thesis
    proof (cases r)
      case (Inl e)
      then show ?thesis using assms Inr c by (intro refused) (auto simp: handleIngest_def agentAuth_def)
    next
      case (Inr ag)
      note acc = Check_accepts [OF c [unfolded Inr]]
      have auth: "agentAuth cr req now st = (st\<lparr>ma_ver := v\<rparr>, Some (ag, sg_Body s))"
        using \<open>Parse cr req maxIngestBody = Inr s\<close> c Inr by (simp add: agentAuth_def)
      show ?thesis
      proof (cases "\<not> slot \<or> (\<exists>e. DecodeBatch ar read W (octets (sg_Body s)) (ag_ID ag) = Inl e)
          \<or> (\<exists>e. assignedTargets (en_targets (ma_tables st)) (ag_Name ag) = Inl e)")
        case True
        then show ?thesis using assms auth \<open>Parse cr req maxIngestBody = Inr s\<close> acc(1)
          by (intro refused) (auto simp: handleIngest_def split: if_split_asm sum.split_asm)
      next
        case False
        then obtain ms l where ms: "DecodeBatch ar read W (octets (sg_Body s)) (ag_ID ag) = Inr ms"
          and l: "assignedTargets (en_targets (ma_tables st)) (ag_Name ag) = Inr l" and slot: slot
          by (meson sumE)
        have kept: "filter (\<lambda>m. m_TargetID m \<in> set l \<and> \<not> m_TS m > unix (now + MaxSkew)) ms =
            accepted (en_targets (ma_tables st)) (ag_Name ag) now ms"
          unfolding accepted_def assignedTargets_may [OF l] by (simp add: not_less)
        let ?k = "accepted (en_targets (ma_tables st)) (ag_Name ag) now ms"
        obtain db r' where i: "IngestMeasurements ?k (ma_db st) = (db, r')" by (cases "IngestMeasurements ?k (ma_db st)")
        have sub: "\<forall>m \<in> set ?k. submission_ok (ag_ID ag) m" using DecodeBatch_submission [OF ms] by (simp add: accepted_def)
        obtain dup where "r' = Inr dup" using view_Ingest(2) [OF sub i] by blast
        then have "handleIngest cr ar read W slot req header now st = (st\<lparr>ma_ver := v, ma_db := db,
            ma_tables := TouchAgent (ag_ID ag) (unix now) (agentVersion header) (ma_tables st)\<rparr>, 200)"
          using auth slot ms l kept i by (simp add: handleIngest_def Let_def)
        then show ?thesis
          using assms \<open>Parse cr req maxIngestBody = Inr s\<close> acc ms i view_Ingest(1) [OF sub i]
          by (intro stored [of s ag ms]) auto
      qed
    qed
  qed
qed


text \<open>
  Property C40. What a request to the ingest endpoint can change. Whatever bytes arrive, no stored measurement is changed or
  removed and the tables stay consistent; unless the answer is 200 nothing is stored at all; and every measurement that
  appears was in a batch signed by an enrolled, enabled agent, carries the id of that agent, is for a target with
  a host that names this agent among its resolved agents, does not lie beyond the permitted clock skew in the future and has
  the shape a stored measurement must have. The targets stay what they are.
\<close>

theorem ingest_confined:
  assumes "handleIngest cr ar read W slot req header now st = (st', status)"
  shows "(\<forall>k m. view (ma_db st) k = Some m \<longrightarrow> view (ma_db st') k = Some m) \<and> (db_ok (ma_db st) \<longrightarrow> db_ok (ma_db st')) \<and>
    (status \<noteq> 200 \<longrightarrow> ma_db st' = ma_db st \<and> ma_tables st' = ma_tables st) \<and>
    en_targets (ma_tables st') = en_targets (ma_tables st) \<and>
    (\<forall>k m. view (ma_db st) k = None \<and> view (ma_db st') k = Some m \<longrightarrow>
      (\<exists>s ag. Parse cr req maxIngestBody = Inr s \<and> authentic cr s now \<and> cr_lookup cr (sg_AgentID s) = Some ag \<and>
        k = (m_TargetID m, ag_ID ag, m_TS m) \<and> may_submit (en_targets (ma_tables st)) (ag_Name ag) (m_TargetID m) \<and>
        m_TS m \<le> unix (now + MaxSkew) \<and> submission_ok (ag_ID ag) m))"
  using assms
proof (cases rule: handleIngest_cases)
  case refused
  then show ?thesis by auto
next
  case (stored s ag ms)
  let ?k = "accepted (en_targets (ma_tables st)) (ag_Name ag) now ms"
  have new: "m \<in> set ?k \<and> key_of m = k" if "view (ma_db st) k = None" "view (ma_db st') k = Some m" for k m
    using fold_put_cases [of ?k "view (ma_db st)" k m] that stored(7) by simp
  have ok: "db_ok (ma_db st) \<longrightarrow> db_ok (ma_db st')"
    unfolding stored(6) IngestMeasurements_def using writeMeasurements_ok by (auto split: prod.split) (metis fst_conv)
  have sub: "\<forall>m \<in> set ms. submission_ok (ag_ID ag) m" by (rule DecodeBatch_submission [OF stored(5)])
  have src: "\<exists>s ag. Parse cr req maxIngestBody = Inr s \<and> authentic cr s now \<and> cr_lookup cr (sg_AgentID s) = Some ag \<and>
      k = (m_TargetID m, ag_ID ag, m_TS m) \<and> may_submit (en_targets (ma_tables st)) (ag_Name ag) (m_TargetID m) \<and>
      m_TS m \<le> unix (now + MaxSkew) \<and> submission_ok (ag_ID ag) m"
    if n: "view (ma_db st) k = None" "view (ma_db st') k = Some m" for k m
  proof -
    from new [OF n] have m: "m \<in> set ms" "may_submit (en_targets (ma_tables st)) (ag_Name ag) (m_TargetID m)"
      "m_TS m \<le> unix (now + MaxSkew)" "key_of m = k" by (auto simp: accepted_def)
    from sub m(1) have ok: "submission_ok (ag_ID ag) m" ..
    then have "k = (m_TargetID m, ag_ID ag, m_TS m)" using m(4) by (auto simp: key_of_def submission_ok_def)
    then show ?thesis using stored(2-4) m ok by blast
  qed
  have keep: "view (ma_db st') k = Some m" if "view (ma_db st) k = Some m" for k m
    unfolding stored(7) using that by (rule fold_put_keep)
  have "en_targets (ma_tables st') = en_targets (ma_tables st)" by (simp add: stored(8) TouchAgent_def update_agent_def)
  then show ?thesis using keep ok src stored(1) by blast
qed

section \<open>From the agent to the master\<close>

text \<open>\<open>Sign\<close>: \<open>sig\<close> is the base64 of the ed25519 signature of the canonical string, \<open>nonce\<close> that of the random bytes.\<close>

definition Sign :: "crypto \<Rightarrow> (string \<Rightarrow> string) \<Rightarrow> string \<Rightarrow> string \<Rightarrow> int \<Rightarrow> string \<Rightarrow> int \<Rightarrow> bytes \<Rightarrow> http_request" where
  "Sign cr sig method path agentID nonce ts body =
     \<lparr>rq_Method = method, rq_Path = path, rq_ID = show_int agentID, rq_Time = show_int ts, rq_Nonce = nonce,
      rq_Sig = sig (CanonicalString cr \<lparr>sg_Method = method, sg_Path = path, sg_AgentID = agentID, sg_Timestamp = ts,
        sg_Nonce = nonce, sg_Signature = '''', sg_Body = body\<rparr>), rq_Body = body\<rparr>"

text \<open>
  The environment of a push, which is no code of the agent. What becomes of one request: it does not arrive, it arrives and the answer does not, both arrive, or
  something in between answers. With it: whether the master has a decode slot, its clock, the
  agent's clock and the nonce.
\<close>

datatype fate = Lost | AnswerLost | Delivered | Instead int

record exchange =
  ex_fate :: fate
  ex_slot :: bool
  ex_now :: int
  ex_ts :: int
  ex_nonce :: string

definition post_over :: "crypto \<Rightarrow> (string \<Rightarrow> string) \<Rightarrow> arrow \<Rightarrow> (int \<Rightarrow> u8 list \<Rightarrow> arrow_stream) \<Rightarrow> nat \<Rightarrow> int \<Rightarrow> string \<Rightarrow>
    u8 list \<Rightarrow> master \<times> exchange list \<Rightarrow> (master \<times> exchange list) \<times> int option" where
  "post_over cr sig ar read W agentID version body w =
     (case w of
        (st, []) \<Rightarrow> ((st, []), None)
      | (st, x # xs) \<Rightarrow>
          (case ex_fate x of
             Lost \<Rightarrow> ((st, xs), None)
           | Instead status \<Rightarrow> ((st, xs), Some status)
           | fate \<Rightarrow>
               (case handleIngest cr ar read W (ex_slot x)
                   (Sign cr sig ''POST'' ''/api/v1/ingest'' agentID (ex_nonce x) (ex_ts x) (raw body)) version (ex_now x) st of
                  (st, status) \<Rightarrow> ((st, xs), if fate = AnswerLost then None else Some status))))"

text \<open>What the Arrow library is relied on for: a batch it wrote is read back, and stays within the reader's limit.\<close>

definition carries :: "(arecord \<Rightarrow> u8 list option) \<Rightarrow> arrow \<Rightarrow> (int \<Rightarrow> u8 list \<Rightarrow> arrow_stream) \<Rightarrow> nat \<Rightarrow> measurement list \<Rightarrow> bool" where
  "carries write ar read W ms \<longleftrightarrow>
     (\<exists>body rec'. write (encode_record ms) = Some body \<and> screenFrames ar W body = Inr () \<and> arrives (encode_record ms) rec' \<and>
        read maxDecodeBytes body = \<lparr>st_open = EndOK, st_recs = [rec'], st_end = EndOK\<rparr>)"

definition relabel :: "int \<Rightarrow> measurement \<Rightarrow> measurement" where
  "relabel i m = m\<lparr>m_AgentID := i\<rparr>"

lemma octets_raw [simp]: "octets (raw b) = b"
proof -
  have "of_char (char_of (unat (x :: u8)) :: char) = x" for x
  proof -
    have "unat x < 256" using unsigned_less [of x, where ?'a = nat] by simp
    then have "(of_char (char_of (unat x) :: char) :: nat) = unat x" by simp
    moreover have "(of_char (char_of (unat x) :: char) :: u8) = of_nat (of_char (char_of (unat x) :: char))" by (rule of_nat_of_char [symmetric])
    moreover have "(of_nat (unat x) :: u8) = x" by transfer simp
    ultimately show ?thesis by simp
  qed
  then show ?thesis by (simp add: octets_def raw_def comp_def)
qed

lemma batch_of_pending:
  assumes "\<forall>m \<in> set ms. submission_ok LocalAgentID m" and "length ms \<le> pushBatch"
  shows "batch_ok ms"
proof -
  have small: "sum_list (map f ms) < 2 ^ 31" if f: "\<And>m. m \<in> set ms \<Longrightarrow> f m \<le> 65535" for f :: "measurement \<Rightarrow> nat"
  proof -
    have "sum_list (map f ms) \<le> sum_list (map (\<lambda>_. 65535) ms)" by (rule sum_list_mono) (rule f)
    also have "\<dots> = length ms * 65535" by (simp add: sum_list_triv)
    also have "\<dots> \<le> 2000 * 65535" using assms(2) by (simp add: pushBatch_def)
    finally show ?thesis by simp
  qed
  have "length (m_Samples m) \<le> 65535" if "m \<in> set ms" for m using assms(1) that by (auto simp: submission_ok_def)
  moreover have "length (case_option [] id (m_Series m name)) \<le> 65535" if "m \<in> set ms" for m name
    using assms(1) that by (fastforce simp: submission_ok_def split: option.split)
  ultimately have "sum_list (map (\<lambda>m. length (m_Samples m)) ms) < 2 ^ 31"
    and "sum_list (map (\<lambda>m. length (case_option [] id (m_Series m name))) ms) < 2 ^ 31" for name
    using small [of "\<lambda>m. length (m_Samples m)"] small [of "\<lambda>m. length (case_option [] id (m_Series m name))" for name] by blast+
  then show ?thesis using assms by (auto simp: batch_ok_def submission_ok_def pushBatch_def MaxBatchRows_def)
qed

lemma carried:
  assumes "carries write ar read W ms" and "batch_ok ms" and "EncodeBatch write ms = Inr body"
  shows "DecodeBatch ar read W body i = Inr (map (relabel i) ms)"
proof -
  from assms(1,3) obtain rec' where b: "screenFrames ar W body = Inr ()" "arrives (encode_record ms) rec'"
    "read maxDecodeBytes body = \<lparr>st_open = EndOK, st_recs = [rec'], st_end = EndOK\<rparr>"
    by (auto simp: carries_def EncodeBatch_def)
  then show ?thesis
    using assms(2) decode_record_arrived [OF b(2) assms(2)]
    by (simp add: DecodeBatch_def decodeFrames_def batch_ok_def relabel_def)
qed


text \<open>
  Where a delivery stands, for the outbox \<open>db0\<close> and the master \<open>st0\<close> it began with: a measurement is still in the
  outbox, or the master has one for its target and interval, or the master refused it at one of the exchanges \<open>xs\<close>.
\<close>

definition refused_at :: "master \<Rightarrow> string \<Rightarrow> exchange list \<Rightarrow> measurement \<Rightarrow> bool" where
  "refused_at st0 name xs m \<longleftrightarrow> \<not> may_submit (en_targets (ma_tables st0)) name (m_TargetID m) \<or>
     (\<exists>x \<in> set xs. m_TS m > unix (ex_now x + MaxSkew))"

definition delivery :: "int \<Rightarrow> string \<Rightarrow> exchange list \<Rightarrow> mdb \<Rightarrow> master \<Rightarrow> mdb \<Rightarrow> master \<Rightarrow> bool" where
  "delivery i name xs db0 st0 db st \<longleftrightarrow>
     en_targets (ma_tables st) = en_targets (ma_tables st0) \<and>
     (\<forall>k m. view db k = Some m \<longrightarrow> view db0 k = Some m) \<and>
     (\<forall>k m. view (ma_db st0) k = Some m \<longrightarrow> view (ma_db st) k = Some m) \<and>
     (\<forall>k m. view (ma_db st0) k = None \<and> view (ma_db st) k = Some m \<longrightarrow>
        (\<exists>m0. view db0 (key_of m0) = Some m0 \<and> m = relabel i m0)) \<and>
     (\<forall>m. view db0 (key_of m) = Some m \<longrightarrow>
        view db (key_of m) = Some m \<or> (m_TargetID m, i, m_TS m) \<in> dom (view (ma_db st)) \<or> refused_at st0 name xs m)"

lemma key_relabel [simp]: "key_of (relabel i m) = (m_TargetID m, i, m_TS m)"
  by (simp add: relabel_def key_of_def)

lemma delivery_start: "delivery i name xs db0 st0 db0 st0"
  by (auto simp: delivery_def)

text \<open>The master takes a batch: everything in it is stored or refused.\<close>

lemma delivery_stored:
  assumes "delivery i name xs db0 st0 db st" and "x \<in> set xs"
    and "\<forall>m \<in> set batch. view db (key_of m) = Some m"
    and "view (ma_db st') = fold (put False) (accepted (en_targets (ma_tables st)) name (ex_now x) (map (relabel i) batch)) (view (ma_db st))"
    and "en_targets (ma_tables st') = en_targets (ma_tables st)"
  shows "delivery i name xs db0 st0 db st'" and "delivery i name xs db0 st0 (DropSubmitted batch db) st'"
proof -
  note d = assms(1) [unfolded delivery_def]
  let ?k = "accepted (en_targets (ma_tables st)) name (ex_now x) (map (relabel i) batch)"
  have keep: "view (ma_db st') k = Some m" if "view (ma_db st) k = Some m" for k m
    unfolding assms(4) using that by (rule fold_put_keep)
  have new: "\<exists>m0. view db0 (key_of m0) = Some m0 \<and> m = relabel i m0"
    if "view (ma_db st0) k = None" "view (ma_db st') k = Some m" for k m
  proof (cases "view (ma_db st) k = Some m")
    case True
    then show ?thesis using d that(1) by blast
  next
    case False
    then have "m \<in> set ?k" using fold_put_cases that(2) unfolding assms(4) by blast
    then obtain m0 where "m0 \<in> set batch" "m = relabel i m0" by (auto simp: accepted_def)
    then show ?thesis using assms(3) d by blast
  qed
  have taken: "(m_TargetID m, i, m_TS m) \<in> dom (view (ma_db st')) \<or> refused_at st0 name xs m" if "m \<in> set batch" for m
  proof (cases "relabel i m \<in> set ?k")
    case True
    then have "key_of (relabel i m) \<in> dom (view (ma_db st'))" unfolding assms(4) fold_put_dom by blast
    then show ?thesis by simp
  next
    case False
    then have "\<not> may_submit (en_targets (ma_tables st)) name (m_TargetID m) \<or> m_TS m > unix (ex_now x + MaxSkew)"
      using that by (auto simp: accepted_def relabel_def)
    then show ?thesis using assms(2) d unfolding refused_at_def by auto
  qed
  have dom: "k \<in> dom (view (ma_db st'))" if "k \<in> dom (view (ma_db st))" for k
  proof -
    from that obtain m where "view (ma_db st) k = Some m" by blast
    then have "view (ma_db st') k = Some m" by (rule keep)
    then show ?thesis by blast
  qed
  show "delivery i name xs db0 st0 db st'"
    unfolding delivery_def using d keep new dom assms(5) by (intro conjI) (simp_all, blast+)
  have still: "view (DropSubmitted batch db) (key_of m) = Some m \<or> m \<in> set batch" if "view db (key_of m) = Some m" for m
  proof (cases "key_of m \<in> key_of ` set batch")
    case True
    then obtain b where "b \<in> set batch" "key_of b = key_of m" by auto
    then show ?thesis using assms(3) that by fastforce
  next
    case False
    then show ?thesis using that by (simp add: view_DropSubmitted)
  qed
  have fewer: "view db k = Some m" if "view (DropSubmitted batch db) k = Some m" for k m
    using that by (auto simp: view_DropSubmitted restrict_map_def split: if_split_asm)
  have rest: "en_targets (ma_tables st') = en_targets (ma_tables st0)"
    "\<And>k m. view (DropSubmitted batch db) k = Some m \<Longrightarrow> view db0 k = Some m"
    "\<And>k m. view (ma_db st0) k = Some m \<Longrightarrow> view (ma_db st') k = Some m"
    using d assms(5) fewer keep by (simp, blast, blast)
  show "delivery i name xs db0 st0 (DropSubmitted batch db) st'"
    unfolding delivery_def
  proof (intro conjI allI impI)
    fix m assume m: "view db0 (key_of m) = Some m"
    with d consider "view db (key_of m) = Some m" | "(m_TargetID m, i, m_TS m) \<in> dom (view (ma_db st))" | "refused_at st0 name xs m" by blast
    then show "view (DropSubmitted batch db) (key_of m) = Some m \<or> (m_TargetID m, i, m_TS m) \<in> dom (view (ma_db st')) \<or> refused_at st0 name xs m"
      using still taken dom by cases blast+
  qed (use rest new in blast)+
qed


text \<open>One exchange with the master.\<close>

definition middle_ok :: "exchange list \<Rightarrow> bool" where
  "middle_ok xs \<longleftrightarrow> (\<forall>x \<in> set xs. \<forall>status. ex_fate x = Instead status \<longrightarrow> status \<noteq> 200 \<and> status \<noteq> 400)"

definition int64 :: "int \<Rightarrow> bool" where
  "int64 i \<longleftrightarrow> - (2 ^ 63) \<le> i \<and> i < 2 ^ 63"

lemma Parse_Sign:
  assumes "Parse cr (Sign cr sig method path i nonce ts body) limit = Inr s" and "int64 i"
  shows "sg_AgentID s = i" and "sg_Body s = body"
proof -
  from assms obtain j where j: "ParseInt (show_int i) = Some j" and s: "sg_AgentID s = j" "sg_Body s = body"
    by (auto simp: Parse_def Sign_def split: option.split_asm if_split_asm)
  show "sg_Body s = body" by (rule s(2))
  show "sg_AgentID s = i" using j s(1) ParseInt_show_int [of i] assms(2) by (simp add: int64_def)
qed

lemma post_over_cases:
  assumes "post_over cr sig ar read W i version body (st, xs) = ((st', xs'), answer)"
    and "\<And>j. DecodeBatch ar read W body j = Inr (map (relabel j) batch)"
    and "cr_lookup cr i = Some ag" and "ag_ID ag = i" and "middle_ok xs" and "int64 i"
  obtains (kept) "ma_db st' = ma_db st" "ma_tables st' = ma_tables st" "\<not> settled answer" "set xs' \<subseteq> set xs"
  | (taken) x where "x \<in> set xs" "set xs' \<subseteq> set xs" "answer \<in> {None, Some 200}"
      "view (ma_db st') = fold (put False) (accepted (en_targets (ma_tables st)) (ag_Name ag) (ex_now x) (map (relabel i) batch)) (view (ma_db st))"
      "en_targets (ma_tables st') = en_targets (ma_tables st)"
proof (cases xs)
  case Nil
  then show ?thesis using assms(1) by (intro kept) (auto simp: post_over_def settled_def)
next
  case (Cons x ys)
  let ?req = "Sign cr sig ''POST'' ''/api/v1/ingest'' i (ex_nonce x) (ex_ts x) (raw body)"
  obtain st1 status where h: "handleIngest cr ar read W (ex_slot x) ?req version (ex_now x) st = (st1, status)"
    by (cases "handleIngest cr ar read W (ex_slot x) ?req version (ex_now x) st")
  show ?thesis
  proof (cases "ex_fate x = Lost \<or> (\<exists>s. ex_fate x = Instead s)")
    case True
    then show ?thesis using assms(1,5) Cons by (intro kept) (auto simp: post_over_def settled_def middle_ok_def)
  next
    case False
    then have eq: "st' = st1" "xs' = ys" "answer = (if ex_fate x = AnswerLost then None else Some status)"
      using assms(1) Cons h by (cases "ex_fate x"; simp add: post_over_def)+
    from h show ?thesis
    proof (cases rule: handleIngest_cases)
      case refused
      have "status \<noteq> 400"
      proof
        assume "status = 400"
        from refused(4) [OF this] obtain s ag' e where s: "Parse cr ?req maxIngestBody = Inr s"
          "cr_lookup cr (sg_AgentID s) = Some ag'" "DecodeBatch ar read W (octets (sg_Body s)) (ag_ID ag') = Inl e" by blast
        then show False using Parse_Sign [OF s(1) assms(6)] assms(2) by simp
      qed
      then show ?thesis using refused eq Cons by (intro kept) (auto simp: settled_def)
    next
      case (stored s ag' ms)
      note s = Parse_Sign [OF stored(2) assms(6)]
      have a: "ag' = ag" "ag_ID ag' = i" using stored(4) assms(3,4) s by simp_all
      have "ms = map (relabel i) batch" using stored(5) assms(2) [of i] s a by simp
      then show ?thesis using stored(1,7,8) eq Cons a
        by (intro taken [of x]) (auto simp: TouchAgent_def update_agent_def)
    qed
  qed
qed

text \<open>
  Property C38. From a probe to the master, over any network. Let the agent push what is buffered while every request and
  every answer may be lost, the master may be busy, its tables may already hold part of it and its
  verifier may refuse: the push ends, and then each buffered measurement is still in the outbox, or the master has a
  measurement of this agent for that target and interval, or the target is not assigned to the agent or the interval
  lay in the future of the master. Nothing the master had is changed; whatever it gained is a buffered measurement,
  exactly as it was taken, under the id of the agent, however often it was sent; and a batch the agent
  encoded is never thrown away as undecodable.
\<close>

theorem delivered_exactly:
  assumes "db_ok db" and "orders_ok ord" and "length (t_measurements db) < n"
    and "\<forall>k m. view db k = Some m \<longrightarrow> submission_ok LocalAgentID m"
    and "\<forall>ms. ms \<noteq> [] \<and> distinct (map key_of ms) \<and> length ms \<le> pushBatch \<and> (\<forall>m \<in> set ms. view db (key_of m) = Some m) \<longrightarrow>
      carries write ar read W ms"
    and "cr_lookup cr i = Some ag" and "ag_ID ag = i" and "middle_ok xs" and "int64 i"
  shows "\<exists>db' st' xs' sent e.
    pushMeasurements n ord write (post_over cr sig ar read W i version) db (st, xs) = Some (db', (st', xs'), sent, e) \<and>
    delivery i (ag_Name ag) xs db st db' st' \<and> e \<noteq> Undecodable"
proof -
  have "\<exists>db' st' xs' sent e.
      pushMeasurements n ord write (post_over cr sig ar read W i version) db1 (st1, xs1) = Some (db', (st', xs'), sent, e) \<and>
      delivery i (ag_Name ag) xs db st db' st' \<and> e \<noteq> Undecodable"
    if "delivery i (ag_Name ag) xs db st db1 st1" and "db_ok db1" and "set xs1 \<subseteq> set xs" and "length (t_measurements db1) < n" for db1 st1 xs1
    using that
  proof (induction n arbitrary: db1 st1 xs1)
    case (Suc n)
    obtain batch where p: "PendingMeasurements ord pushBatch db1 = Inr batch"
      using PendingMeasurements_oldest [OF Suc.prems(2) assms(2)] by blast
    note page = pending_page [OF Suc.prems(2) assms(2) p]
    have in0: "\<forall>m \<in> set batch. view db (key_of m) = Some m" using page(1) Suc.prems(1) unfolding delivery_def by blast
    have len: "length batch \<le> pushBatch" using page(3) by simp
    show ?case
    proof (cases "batch = []")
      case True
      then show ?thesis using p Suc.prems(1) by simp
    next
      case ne: False
      have ok: "batch_ok batch" using in0 assms(4) len by (intro batch_of_pending) blast
      have "distinct (map key_of batch)" by (rule pending_distinct [OF Suc.prems(2) assms(2) p])
      then have c: "carries write ar read W batch" using assms(5) ne len in0 by blast
      then obtain body where body: "EncodeBatch write batch = Inr body" by (auto simp: carries_def EncodeBatch_def)
      note dec = carried [OF c ok body]
      obtain st2 xs2 answer where post: "post_over cr sig ar read W i version body (st1, xs1) = ((st2, xs2), answer)"
        by (metis surj_pair)
      have mid: "middle_ok xs1" using assms(8) Suc.prems(3) by (auto simp: middle_ok_def)
      from post dec assms(6,7) mid assms(9) show ?thesis
      proof (cases rule: post_over_cases)
        case kept
        have "delivery i (ag_Name ag) xs db st db1 st2" using Suc.prems(1) kept(1,2) by (simp add: delivery_def)
        then show ?thesis using p ne body post kept(3) by (auto simp: settled_def split: option.split)
      next
        case (taken x)
        have x: "x \<in> set xs" using taken(1) Suc.prems(3) by blast
        note d = delivery_stored [OF Suc.prems(1) x page(1) taken(4,5)]
        show ?thesis
        proof (cases "answer = Some 200 \<and> \<not> length batch < pushBatch")
          case True
          have "length (t_measurements (DropSubmitted batch db1)) < n" using page(6) [OF ne] Suc.prems(4) by simp
          moreover have "set xs2 \<subseteq> set xs" using taken(2) Suc.prems(3) by blast
          ultimately obtain db' st' xs' sent e where
            "pushMeasurements n ord write (post_over cr sig ar read W i version) (DropSubmitted batch db1) (st2, xs2) = Some (db', (st', xs'), sent, e)"
            "delivery i (ag_Name ag) xs db st db' st'" "e \<noteq> Undecodable"
            using Suc.IH [OF d(2) DropSubmitted_ok [OF Suc.prems(2)], of xs2] by blast
          moreover from this(1) have "pushMeasurements (Suc n) ord write (post_over cr sig ar read W i version) db1 (st1, xs1) =
              Some (db', (st', xs'), (batch, Some 200) # sent, e)" using p ne body post True by simp
          ultimately show ?thesis by blast
        next
          case False
          then show ?thesis using p ne body post d taken(3) by auto
        qed
      qed
    qed
  qed simp
  from this [OF delivery_start assms(1) subset_refl assms(3)] show ?thesis .
qed


section \<open>The properties on a small installation\<close>

definition example_agents :: enroldb where
  "example_agents = example_enrol\<lparr>en_targets := [group_node 1 None '''' (example_settings\<lparr>Agents := Some ''local probe''\<rparr>),
     (group_node 7 (Some 1) ''dns'' no_settings)\<lparr>t_Host := Some ''1.1.1.1'', t_AddressFamily := Some ''v4''\<rparr>]\<rparr>"

definition example_master :: master where
  "example_master = \<lparr>ma_ver = new_verifier, ma_db = empty_db, ma_tables = example_agents\<rparr>"

definition example_request :: http_request where
  "example_request = Sign open_crypto (\<lambda>_. ''good'') ''POST'' ''/api/v1/ingest'' 7 ''0123456789abcdef'' 100 (raw example_body)"

lemma example_assigned: "assignedTargets (en_targets example_agents) ''probe'' = Inr [7]"
  by code_simp

lemma example_parse:
  "\<exists>s. Parse open_crypto example_request maxIngestBody = Inr s \<and> sg_AgentID s = 7 \<and> sg_Timestamp s = 100 \<and>
    sg_Signature s = ''good'' \<and> sg_Body s = raw example_body"
proof -
  have "length (raw example_body) \<le> maxIngestBody" by (simp add: raw_def example_body_def example_meta_def maxIngestBody_def)
  then show ?thesis
    by (simp add: Parse_def example_request_def Sign_def ParseInt_show_int open_crypto_def nonceBytes_def)
qed

lemma example_check:
  assumes "sg_AgentID s = 7" and "sg_Timestamp s = 100" and "sg_Signature s = ''good''"
  shows "\<exists>v. Check open_crypto new_verifier s (101 * second) = (v, Inr \<lparr>ag_ID = 7, ag_Name = ''probe'', ag_PubKey = ''k'', ag_Enabled = True\<rparr>)"
  using assms
  by (simp add: Check_def check_signed_def open_crypto_def new_verifier_def admit_def sweep_def allow_def MaxSkew_def second_def Let_def split: prod.split)


definition example_orders :: orders where
  "example_orders = \<lparr>or_pending = sort_key mr_ts, or_series = rev, or_pairs = rev\<rparr>"

lemma example_orders_ok: "orders_ok example_orders"
  by (simp add: orders_ok_def example_orders_def)

text \<open>An outbox with the one measurement \<open>example_m\<close>.\<close>

definition example_outbox :: mdb where
  "example_outbox = fst (IngestMeasurements [example_m] empty_db)"

lemma example_m_submission: "submission_ok LocalAgentID example_m"
  using example_m_ok by (simp add: batch_ok_def LocalAgentID_def example_m_def)

lemma view_empty: "view empty_db = (\<lambda>_. None)"
  by (simp add: fun_eq_iff view_def empty_db_def)

lemma example_outbox_view: "view example_outbox = [(7, 0, 60) \<mapsto> example_m]"
proof -
  have s: "\<forall>m \<in> set [example_m]. submission_ok LocalAgentID m" using example_m_submission by simp
  have "IngestMeasurements [example_m] empty_db = (example_outbox, snd (IngestMeasurements [example_m] empty_db))"
    by (simp add: example_outbox_def)
  from view_Ingest(1) [OF s this] show ?thesis
    by (simp add: view_empty put_def key_of_def) (simp add: example_m_def)
qed

lemma example_outbox_ok: "db_ok example_outbox"
  unfolding example_outbox_def IngestMeasurements_def
  using writeMeasurements_ok [OF empty_db_ok, of False "[example_m]"] by (simp split: prod.split) (metis fst_conv)

lemma example_outbox_only: "view example_outbox (key_of m) = Some m \<longleftrightarrow> m = example_m"
  by (auto simp: example_outbox_view key_of_def example_m_def split: if_split_asm)

lemma example_page: "PendingMeasurements example_orders pushBatch example_outbox = Inr [example_m]"
proof -
  obtain ms where p: "PendingMeasurements example_orders pushBatch example_outbox = Inr ms"
    using PendingMeasurements_oldest [OF example_outbox_ok example_orders_ok] by blast
  note page = pending_page [OF example_outbox_ok example_orders_ok p]
  have "\<forall>m \<in> set ms. m = example_m" using page(1) example_outbox_only by blast
  moreover have "distinct (map key_of ms)" by (rule pending_distinct [OF example_outbox_ok example_orders_ok p])
  moreover have "ms \<noteq> []"
  proof
    assume "ms = []"
    then have "view example_outbox = (\<lambda>_. None)" using page(5) by (simp add: pushBatch_def DropSubmitted_def)
    then show False by (simp add: example_outbox_view fun_eq_iff split: if_split_asm)
  qed
  ultimately have "ms = [example_m]" by (cases ms; cases "tl ms") auto
  then show ?thesis using p by simp
qed

text \<open>The one measurement, answered once with 200 and once with 503.\<close>

theorem push_loses_nothing_witness:
  "\<exists>n db' db''. pushMeasurements (Suc n) example_orders (\<lambda>_. Some []) (\<lambda>_ w. (w + 1, Some 200)) example_outbox (0 :: nat) =
       Some (db', 1, [([example_m], Some 200)], Drained) \<and> view db' = (\<lambda>_. None) \<and>
     pushMeasurements (Suc n) example_orders (\<lambda>_. Some []) (\<lambda>_ w. (w + 1, Some 503)) example_outbox (0 :: nat) =
       Some (db'', 1, [([example_m], Some 503)], Rejected 503) \<and> view db'' (7, 0, 60) = Some example_m"
proof -
  let ?n = "length (t_measurements example_outbox)"
  have body: "EncodeBatch (\<lambda>_. Some []) [example_m] = Inr []" by (simp add: EncodeBatch_def)
  have ok: "pushMeasurements (Suc ?n) example_orders (\<lambda>_. Some []) (\<lambda>_ w. (w + 1, Some 200)) example_outbox (0 :: nat) =
      Some (DropSubmitted [example_m] example_outbox, 1, [([example_m], Some 200)], Drained)"
    by (simp add: example_page body) (simp add: pushBatch_def)
  have busy: "pushMeasurements (Suc ?n) example_orders (\<lambda>_. Some []) (\<lambda>_ w. (w + 1, Some 503)) example_outbox (0 :: nat) =
      Some (example_outbox, 1, [([example_m], Some 503)], Rejected 503)"
    by (simp add: example_page body)
  note pushed = push_loses_nothing [OF example_outbox_ok example_orders_ok lessI]
  have "pushed_ok example_outbox (DropSubmitted [example_m] example_outbox) [([example_m], Some 200)] Drained"
    using pushed [of "\<lambda>_. Some []" "\<lambda>_ w. (w + 1, Some 200)" "0 :: nat"] unfolding ok by blast
  then have gone: "view (DropSubmitted [example_m] example_outbox) = (\<lambda>_. None)"
    unfolding pushed_ok_def by blast
  have "pushed_ok example_outbox example_outbox [([example_m], Some 503)] (Rejected 503)"
    using pushed [of "\<lambda>_. Some []" "\<lambda>_ w. (w + 1, Some 503)" "0 :: nat"] unfolding busy by blast
  then have "view example_outbox = view example_outbox |` (- {})" by (simp add: pushed_ok_def settled_def)
  then have "view example_outbox (7, 0, 60) = Some example_m" by (simp add: example_outbox_view)
  then show ?thesis using ok busy gone by blast
qed

theorem ingest_confined_witness:
  "\<exists>st'. handleIngest open_crypto arrow_types example_read 64 True example_request ''v1.2'' (101 * second) example_master = (st', 200) \<and>
     view (ma_db st') (7, 7, 60) = Some (example_m\<lparr>m_AgentID := 7\<rparr>) \<and> may_submit (en_targets example_agents) ''probe'' 7"
proof -
  let ?ag = "\<lparr>ag_ID = 7, ag_Name = ''probe'', ag_PubKey = ''k'', ag_Enabled = True\<rparr>"
  obtain s where s: "Parse open_crypto example_request maxIngestBody = Inr s" "sg_AgentID s = 7" "sg_Timestamp s = 100"
    "sg_Signature s = ''good''" "sg_Body s = raw example_body" using example_parse by blast
  obtain v where v: "Check open_crypto new_verifier s (101 * second) = (v, Inr ?ag)" using example_check [OF s(2-4)] by blast
  have dec: "DecodeBatch arrow_types example_read 64 example_body 7 = Inr [relabel 7 example_m]"
    using carried [of "\<lambda>_. Some example_body" arrow_types example_read 64 "[example_m]" example_body 7]
    by (simp add: carries_def example_accepted_body example_read_def arrives_refl EncodeBatch_def example_m_ok)
  have rel: "m_TargetID (relabel 7 example_m) = 7" "m_TS (relabel 7 example_m) = 60" by (simp_all add: relabel_def example_m_def)
  have hor: "60 \<le> unix (101 * second + MaxSkew)" by (simp add: unix_def second_def MaxSkew_def)
  have auth: "agentAuth open_crypto example_request (101 * second) example_master = (example_master\<lparr>ma_ver := v\<rparr>, Some (?ag, raw example_body))"
    using s(1,5) v by (simp add: agentAuth_def example_master_def)
  obtain db dup where i: "IngestMeasurements [relabel 7 example_m] empty_db = (db, Inr dup)"
    using IngestMeasurements_total [of "[relabel 7 example_m]" 7 empty_db] DecodeBatch_submission [OF dec] by auto
  obtain st' where h: "handleIngest open_crypto arrow_types example_read 64 True example_request ''v1.2'' (101 * second) example_master = (st', 200)"
    and db: "ma_db st' = db"
    using auth dec example_assigned rel hor i by (simp add: handleIngest_def example_master_def Let_def)
  have "view db = fold (put False) [relabel 7 example_m] (view empty_db)"
    by (rule view_Ingest(1) [OF DecodeBatch_submission [OF dec] i])
  then have w: "view (ma_db st') (7, 7, 60) = Some (relabel 7 example_m)" by (simp add: db view_empty put_def) (simp add: example_m_def)
  have n: "view (ma_db example_master) (7, 7, 60) = None" by (simp add: example_master_def view_empty)
  from ingest_confined [OF h, THEN conjunct2, THEN conjunct2, THEN conjunct2, THEN conjunct2, rule_format, of "(7, 7, 60)" "relabel 7 example_m"] n w
  have "\<exists>(s :: signed) ag. cr_lookup open_crypto (sg_AgentID s) = Some ag \<and>
      may_submit (en_targets (ma_tables example_master)) (ag_Name ag) (m_TargetID (relabel 7 example_m))" by blast
  then have "may_submit (en_targets example_agents) ''probe'' 7"
    using rel by (auto simp: open_crypto_def example_master_def split: if_split_asm)
  then show ?thesis using h w by (auto simp: relabel_def)
qed

theorem delivered_exactly_witness:
  "\<exists>db' st' xs' sent e.
     pushMeasurements (Suc (length (t_measurements example_outbox))) example_orders (\<lambda>_. Some example_body)
       (post_over open_crypto (\<lambda>_. ''good'') arrow_types example_read 64 7 ''v1.2'') example_outbox
       (example_master, [\<lparr>ex_fate = Delivered, ex_slot = True, ex_now = 101 * second, ex_ts = 100, ex_nonce = ''0123456789abcdef''\<rparr>]) =
     Some (db', (st', xs'), sent, e) \<and>
     (view db' (7, 0, 60) = Some example_m \<or> view (ma_db st') (7, 7, 60) = Some (example_m\<lparr>m_AgentID := 7\<rparr>))"
proof -
  let ?x = "\<lparr>ex_fate = Delivered, ex_slot = True, ex_now = 101 * second, ex_ts = 100, ex_nonce = ''0123456789abcdef''\<rparr>"
    and ?ag = "\<lparr>ag_ID = 7, ag_Name = ''probe'', ag_PubKey = ''k'', ag_Enabled = True\<rparr>"
  have only: "ms = [example_m]" if "ms \<noteq> []" "distinct (map key_of ms)" "\<forall>m \<in> set ms. view example_outbox (key_of m) = Some m" for ms
  proof -
    have "\<forall>m \<in> set ms. m = example_m" using that(3) example_outbox_only by blast
    then show ?thesis using that(1,2) by (cases ms; cases "tl ms") auto
  qed
  have carry: "carries (\<lambda>_. Some example_body) arrow_types example_read 64 [example_m]"
    by (simp add: carries_def example_accepted_body example_read_def arrives_refl)
  have sub: "\<forall>k m. view example_outbox k = Some m \<longrightarrow> submission_ok LocalAgentID m"
    using example_m_submission by (auto simp: example_outbox_view split: if_split_asm)
  have all: "\<forall>ms. ms \<noteq> [] \<and> distinct (map key_of ms) \<and> length ms \<le> pushBatch \<and>
      (\<forall>m \<in> set ms. view example_outbox (key_of m) = Some m) \<longrightarrow> carries (\<lambda>_. Some example_body) arrow_types example_read 64 ms"
    using only carry by blast
  have ag: "cr_lookup open_crypto 7 = Some ?ag" "ag_ID ?ag = 7" "int64 7" by (simp_all add: open_crypto_def int64_def)
  have mid: "middle_ok [?x]" by (simp add: middle_ok_def)
  have "ag_Name ?ag = ''probe''" by simp
  then have "\<exists>db' st' xs' sent e.
     pushMeasurements (Suc (length (t_measurements example_outbox))) example_orders (\<lambda>_. Some example_body)
       (post_over open_crypto (\<lambda>_. ''good'') arrow_types example_read 64 7 ''v1.2'') example_outbox (example_master, [?x]) =
       Some (db', (st', xs'), sent, e) \<and>
     delivery 7 ''probe'' [?x] example_outbox example_master db' st' \<and> e \<noteq> Undecodable"
    using delivered_exactly [OF example_outbox_ok example_orders_ok lessI sub all ag(1,2) mid ag(3)] by metis
  then obtain db' st' xs' sent e where push: "pushMeasurements (Suc (length (t_measurements example_outbox))) example_orders (\<lambda>_. Some example_body)
       (post_over open_crypto (\<lambda>_. ''good'') arrow_types example_read 64 7 ''v1.2'') example_outbox (example_master, [?x]) =
       Some (db', (st', xs'), sent, e)"
    and d: "delivery 7 ''probe'' [?x] example_outbox example_master db' st'" by blast
  have k: "key_of example_m = (7, 0, 60)" "m_TargetID example_m = 7" "m_TS example_m = 60" by (simp_all add: key_of_def example_m_def)
  have "may_submit (en_targets example_agents) ''probe'' 7" using assignedTargets_may [OF example_assigned, of 7] by simp
  then have "\<not> refused_at example_master ''probe'' [?x] example_m"
    by (simp add: refused_at_def k example_master_def unix_def second_def MaxSkew_def)
  then consider "view db' (7, 0, 60) = Some example_m" | m where "view (ma_db st') (7, 7, 60) = Some m"
  proof -
    have v: "view example_outbox (key_of example_m) = Some example_m" using example_outbox_only by simp
    have "view db' (key_of example_m) = Some example_m \<or> (m_TargetID example_m, 7, m_TS example_m) \<in> dom (view (ma_db st'))"
      using d [unfolded delivery_def, THEN conjunct2, THEN conjunct2, THEN conjunct2, THEN conjunct2, rule_format, OF v]
        \<open>\<not> refused_at example_master ''probe'' [?x] example_m\<close> by blast
    then show thesis using that unfolding k by blast
  qed
  then show ?thesis
  proof cases
    case 2
    have n: "view (ma_db example_master) (7, 7, 60) = None" by (simp add: example_master_def view_empty)
    from d 2 n obtain m0 where "view example_outbox (key_of m0) = Some m0" "m = relabel 7 m0" unfolding delivery_def by blast
    then have "m = example_m\<lparr>m_AgentID := 7\<rparr>" using example_outbox_only by (simp add: relabel_def)
    then show ?thesis using push 2 by blast
  qed (use push in blast)
qed


text \<open>
  A page that encodes to more than the master reads: every request is refused with 401, which the agent takes for
  a passing failure, so the outbox stays as it is and later measurements wait behind this page.
\<close>

lemma oversized_batch_stuck:
  assumes "PendingMeasurements ord pushBatch db = Inr batch" and "batch \<noteq> []" and "EncodeBatch write batch = Inr body"
    and "maxIngestBody < length body" and "middle_ok xs"
  shows "\<exists>st' xs' sent e. pushMeasurements (Suc n) ord write (post_over cr sig ar read W i version) db (st, xs) = Some (db, (st', xs'), sent, e) \<and>
    e \<noteq> Drained \<and> ma_db st' = ma_db st"
proof -
  obtain st' xs' answer where post: "post_over cr sig ar read W i version body (st, xs) = ((st', xs'), answer)" by (metis surj_pair)
  have parse: "\<exists>e. Parse cr (Sign cr sig ''POST'' ''/api/v1/ingest'' i nonce ts (raw body)) maxIngestBody = Inl e" for nonce ts
    using assms(4) by (auto simp: Parse_def Sign_def raw_def split: option.split)
  have "handleIngest cr ar read W slot (Sign cr sig ''POST'' ''/api/v1/ingest'' i nonce ts (raw body)) version now st = (st, 401)"
    for slot nonce ts now using parse [of nonce ts] by (auto simp: handleIngest_def agentAuth_def)
  then have "st' = st \<and> \<not> settled answer"
    using post assms(5) by (cases xs) (auto simp: post_over_def settled_def middle_ok_def split: fate.split_asm)
  then show ?thesis using assms(1-3) post by (auto simp: settled_def split: option.split)
qed

end
