(* ===== verification/Notify.thy ===== *)
theory Notify
  imports Manager "HOL-Library.Multiset"
begin

text \<open>
  Delivery, \<open>internal/alert/notify.go\<close>: the webhook and what it puts in an error, and the bounded queue
  between the loop that writes measurements and the receiver. The queue is shared by goroutines,
  so it is a step relation: each label is one thing a goroutine does, a channel operation or a return.
\<close>

section \<open>The webhook\<close>

text \<open>What \<open>url.Parse\<close> gives, of what the code looks at.\<close>

record url =
  u_Scheme :: string
  u_Host :: string
  u_Path :: string
  u_RawQuery :: string

text \<open>The last character of the third part is the ellipsis, in UTF-8.\<close>

definition RedactURL :: "(string \<Rightarrow> url option) \<Rightarrow> string \<Rightarrow> string" where
  "RedactURL parse raw =
     (case parse raw of
        None \<Rightarrow> ''(unparseable URL)''
      | Some u \<Rightarrow>
          if u_Scheme u = '''' \<or> u_Host u = '''' then ''(unparseable URL)''
          else u_Scheme u @ ''://'' @ u_Host u @
            (if u_Path u \<noteq> '''' \<and> u_Path u \<noteq> ''/'' \<or> u_RawQuery u \<noteq> '''' then ''/'' @ [CHR 0xE2, CHR 0x80, CHR 0xA6] else ''''))"

record amAlert =
  am_Labels :: "(string \<times> string) list"
  am_Annotations :: "(string \<times> string) list"
  am_StartsAt :: "int option"
  am_EndsAt :: "int option"

text \<open>
  How values are printed: the metric and the severity as strings, \<open>Describe\<close>, \<open>%.3g\<close> and \<open>%q\<close>. A time is
  its instant; \<open>RFC3339\<close> of it is what goes out.
\<close>

record printer =
  pr_metric :: "metric \<Rightarrow> string"
  pr_severity :: "severity \<Rightarrow> string"
  pr_describe :: "rule \<Rightarrow> string"
  pr_3g :: "f64 \<Rightarrow> string"
  pr_quote :: "string \<Rightarrow> string"

definition amAlert_of :: "printer \<Rightarrow> int \<Rightarrow> alert \<Rightarrow> amAlert" where
  "amAlert_of p now a =
     (let r = al_Rule a; u = (if r_Metric r = MetricLoss then ''%'' else ''ms'')
      in \<lparr>am_Labels = [(''alertname'', r_Name r), (''target'', al_TargetPath a), (''host'', al_TargetHost a),
            (''agent'', al_AgentName a), (''metric'', pr_metric p (r_Metric r)), (''severity'', pr_severity p (r_Severity r))],
          am_Annotations =
            [(''summary'', r_Name r @ '' on '' @ al_TargetPath a @ '': '' @ pr_metric p (r_Metric r) @ '' is '' @ pr_3g p (al_Value a) @ u),
             (''description'', ''Rule '' @ pr_quote p (r_Name r) @ '' ('' @ pr_describe p r @ '') has been satisfied for '' @
                al_TargetPath a @ ''.'')],
          am_StartsAt = al_Since a,
          am_EndsAt = (if \<not> al_Firing a then Some (case al_Ended a of None \<Rightarrow> now | Some t \<Rightarrow> t) else None)\<rparr>)"

text \<open>What posting came to; a failure of \<open>net/http\<close> is a \<open>url.Error\<close> around its cause, or another error.\<close>

datatype http_result = URLError string string | OtherFailure string | Answered nat string

datatype notify_error = BadRequestURL string | PostFailed string string | Refused string string

definition Webhook_Notify :: "(string \<Rightarrow> url option) \<Rightarrow> (string \<Rightarrow> amAlert list \<Rightarrow> http_result) \<Rightarrow> printer \<Rightarrow> string \<Rightarrow>
    int \<Rightarrow> alert list \<Rightarrow> notify_error + unit" where
  "Webhook_Notify parse post p raw now alerts =
     (if alerts = [] then Inr ()
      else case parse raw of
        None \<Rightarrow> Inl (BadRequestURL raw)
      | Some _ \<Rightarrow>
          (case post raw (map (amAlert_of p now) alerts) of
             URLError _ cause \<Rightarrow> Inl (PostFailed (RedactURL parse raw) cause)
           | OtherFailure e \<Rightarrow> Inl (PostFailed (RedactURL parse raw) e)
           | Answered code status \<Rightarrow> if code \<ge> 300 then Inl (Refused (RedactURL parse raw) status) else Inr ()))"

text \<open>\<open>loadWebhookURL\<close> of \<open>cmd/smokeng/main.go\<close>; \<open>file\<close> is the path and what reading it gave.\<close>

datatype load_error = BothGiven | FileUnread | FileEmpty | NotAWebhook

definition loadWebhookURL :: "(string \<Rightarrow> url option) \<Rightarrow> string \<Rightarrow> (string \<times> string option) option \<Rightarrow> load_error + string" where
  "loadWebhookURL parse flagValue file =
     rbind (check (flagValue \<noteq> '''' \<and> file \<noteq> None) BothGiven) (\<lambda>_.
     rbind (case file of
              None \<Rightarrow> Inr flagValue
            | Some (_, None) \<Rightarrow> Inl FileUnread
            | Some (_, Some content) \<Rightarrow> if trim_space content = '''' then Inl FileEmpty else Inr (trim_space content)) (\<lambda>raw.
       if raw = '''' then Inr ''''
       else case parse raw of
         None \<Rightarrow> Inl NotAWebhook
       | Some u \<Rightarrow> if u_Scheme u \<noteq> ''http'' \<and> u_Scheme u \<noteq> ''https'' \<or> u_Host u = '''' then Inl NotAWebhook else Inr raw))"

section \<open>The queue\<close>

text \<open>
  The worker waits, sends a batch (\<open>True\<close> when it is draining after the stop), drains, or is done. A call of
  \<open>Notify\<close> is at its first select with its batch, or at the second one. Batches are any type.
\<close>

datatype 'b worker = Waiting | Sending bool 'b | Draining | Done

datatype 'b pc = Offer 'b | Evict 'b

record 'b queue =
  q_size :: nat
  q_ch :: "'b list"
  q_stop :: bool
  q_cancelled :: bool
  q_worker :: "'b worker"
  q_calls :: "nat \<Rightarrow> 'b pc option"
  q_ok :: nat
  q_failed :: nat
  q_dropped :: nat
  q_lastOK :: int

definition NewQueue :: "nat \<Rightarrow> 'b queue" where
  "NewQueue size' = \<lparr>q_size = size', q_ch = [], q_stop = False, q_cancelled = False, q_worker = Waiting,
     q_calls = (\<lambda>_. None), q_ok = 0, q_failed = 0, q_dropped = 0, q_lastOK = 0\<rparr>"

datatype 'b label =
    Call nat 'b         \<comment> \<open>\<open>Notify\<close> is entered\<close>
  | Queued nat 'b       \<comment> \<open>the batch went into the channel and \<open>Notify\<close> returned\<close>
  | Full nat
  | Dropped nat 'b      \<comment> \<open>the oldest batch, to make room\<close>
  | Emptied nat         \<comment> \<open>the worker was faster\<close>
  | Take 'b
  | Delivered 'b int
  | Failed 'b
  | StopSeen
  | Exit
  | Close
  | Cancel              \<comment> \<open>the grace of \<open>Close\<close> is over\<close>

inductive qstep :: "'b queue \<Rightarrow> 'b label \<Rightarrow> 'b queue \<Rightarrow> bool" where
  call: "q_calls q n = None \<Longrightarrow> qstep q (Call n b) (q\<lparr>q_calls := (q_calls q)(n \<mapsto> Offer b)\<rparr>)"
| queued: "q_calls q n = Some (Offer b) \<Longrightarrow> length (q_ch q) < q_size q \<Longrightarrow>
    qstep q (Queued n b) (q\<lparr>q_ch := q_ch q @ [b], q_calls := (q_calls q)(n := None)\<rparr>)"
| full: "q_calls q n = Some (Offer b) \<Longrightarrow> \<not> length (q_ch q) < q_size q \<Longrightarrow>
    qstep q (Full n) (q\<lparr>q_calls := (q_calls q)(n \<mapsto> Evict b)\<rparr>)"
| dropped: "q_calls q n = Some (Evict b) \<Longrightarrow> q_ch q = old # rest \<Longrightarrow>
    qstep q (Dropped n old) (q\<lparr>q_ch := rest, q_dropped := Suc (q_dropped q), q_calls := (q_calls q)(n \<mapsto> Offer b)\<rparr>)"
| emptied: "q_calls q n = Some (Evict b) \<Longrightarrow> q_ch q = [] \<Longrightarrow>
    qstep q (Emptied n) (q\<lparr>q_calls := (q_calls q)(n \<mapsto> Offer b)\<rparr>)"
| take: "q_worker q = Waiting \<Longrightarrow> q_ch q = b # rest \<Longrightarrow>
    qstep q (Take b) (q\<lparr>q_ch := rest, q_worker := Sending False b\<rparr>)"
| take_draining: "q_worker q = Draining \<Longrightarrow> q_ch q = b # rest \<Longrightarrow>
    qstep q (Take b) (q\<lparr>q_ch := rest, q_worker := Sending True b\<rparr>)"
| delivered: "q_worker q = Sending d b \<Longrightarrow>
    qstep q (Delivered b now) (q\<lparr>q_worker := (if d then Draining else Waiting), q_ok := Suc (q_ok q), q_lastOK := now\<rparr>)"
| failed: "q_worker q = Sending d b \<Longrightarrow>
    qstep q (Failed b) (q\<lparr>q_worker := (if d then Draining else Waiting), q_failed := Suc (q_failed q)\<rparr>)"
| stop_seen: "q_worker q = Waiting \<Longrightarrow> q_stop q \<Longrightarrow> qstep q StopSeen (q\<lparr>q_worker := Draining\<rparr>)"
| exit: "q_worker q = Draining \<Longrightarrow> q_ch q = [] \<Longrightarrow> qstep q Exit (q\<lparr>q_worker := Done\<rparr>)"
| close: "qstep q Close (q\<lparr>q_stop := True\<rparr>)"
| cancel: "q_stop q \<Longrightarrow> qstep q Cancel (q\<lparr>q_cancelled := True\<rparr>)"

inductive_cases qstepE: "qstep q e q'"

inductive_simps qstep_simps:
  "qstep q (Take b) q'" "qstep q (Queued n b) q'" "qstep q Exit q'" "qstep q StopSeen q'"

inductive qrun :: "'b queue \<Rightarrow> 'b label list \<Rightarrow> 'b queue \<Rightarrow> bool" where
  nil: "qrun q [] q"
| snoc: "qrun q es q' \<Longrightarrow> qstep q' e q'' \<Longrightarrow> qrun q (es @ [e]) q''"

text \<open>What a history says happened to the batches.\<close>

definition Stats :: "'b queue \<Rightarrow> nat \<times> nat \<times> nat \<times> int" where
  "Stats q = (q_ok q, q_failed q, q_dropped q, q_lastOK q)"

fun queued_of :: "'b label \<Rightarrow> 'b list" where
  "queued_of (Queued _ b) = [b]"
| "queued_of _ = []"

fun removed_of :: "'b label \<Rightarrow> 'b list" where
  "removed_of (Dropped _ b) = [b]"
| "removed_of (Take b) = [b]"
| "removed_of _ = []"

fun taken_of :: "'b label \<Rightarrow> 'b list" where
  "taken_of (Take b) = [b]"
| "taken_of _ = []"

fun dropped_of :: "'b label \<Rightarrow> 'b list" where
  "dropped_of (Dropped _ b) = [b]"
| "dropped_of _ = []"

fun posted_of :: "'b label \<Rightarrow> 'b list" where
  "posted_of (Delivered b _) = [b]"
| "posted_of (Failed b) = [b]"
| "posted_of _ = []"

fun in_flight :: "'b worker \<Rightarrow> 'b list" where
  "in_flight (Sending _ b) = [b]"
| "in_flight _ = []"

abbreviation all_of :: "('b label \<Rightarrow> 'b list) \<Rightarrow> 'b label list \<Rightarrow> 'b list" where
  "all_of f es \<equiv> concat (map f es)"

section \<open>The history of a queue\<close>

text \<open>The batches leave in the order they came, the posted ones are the taken ones, and the counters count.\<close>

lemma qrun_history:
  assumes "qrun q0 es q" and "q0 = NewQueue size'"
  shows "all_of removed_of es @ q_ch q = all_of queued_of es \<and> length (q_ch q) \<le> size' \<and> q_size q = size' \<and>
    all_of posted_of es @ in_flight (q_worker q) = all_of taken_of es \<and>
    mset (all_of removed_of es) = mset (all_of taken_of es) + mset (all_of dropped_of es) \<and>
    q_ok q + q_failed q + length (in_flight (q_worker q)) = length (all_of taken_of es) \<and> q_dropped q = length (all_of dropped_of es) \<and>
    (q_worker q = Draining \<or> q_worker q = Done \<or> (\<exists>b. q_worker q = Sending True b) \<longrightarrow> q_stop q)"
  using assms
proof (induction rule: qrun.induct)
  case (nil q)
  then show ?case by (simp add: NewQueue_def)
next
  case (snoc q es q' e q'')
  note IH = snoc.IH [OF snoc.prems]
  from snoc.hyps(2) show ?case
    by (cases rule: qstep.cases) (use IH in \<open>auto split: if_split_asm\<close>)
qed


section \<open>Nothing waits\<close>

text \<open>
  How many more steps a call of \<open>Notify\<close> can take on its own until another call puts a batch in its way:
  the worker only makes room. \<open>own n\<close> picks the steps of call \<open>n\<close>, \<open>overtakes n\<close> the batches others put in.
\<close>

fun own :: "nat \<Rightarrow> 'b label \<Rightarrow> bool" where
  "own n (Queued m _) \<longleftrightarrow> m = n"
| "own n (Full m) \<longleftrightarrow> m = n"
| "own n (Dropped m _) \<longleftrightarrow> m = n"
| "own n (Emptied m) \<longleftrightarrow> m = n"
| "own n _ \<longleftrightarrow> False"

fun overtakes :: "nat \<Rightarrow> 'b label \<Rightarrow> bool" where
  "overtakes n (Queued m _) \<longleftrightarrow> m \<noteq> n"
| "overtakes n _ \<longleftrightarrow> False"

fun is_call :: "'b label \<Rightarrow> bool" where
  "is_call (Call _ _) = True"
| "is_call _ = False"

fun enters :: "nat \<Rightarrow> 'b label \<Rightarrow> bool" where
  "enters n (Call m _) \<longleftrightarrow> m = n"
| "enters n _ \<longleftrightarrow> False"

definition call_rank :: "nat \<Rightarrow> 'b queue \<Rightarrow> nat" where
  "call_rank n q =
     (case q_calls q n of
        None \<Rightarrow> 0
      | Some (Evict b) \<Rightarrow> 2
      | Some (Offer b) \<Rightarrow> if length (q_ch q) < q_size q then 1 else 3)"

lemma call_rank_step:
  assumes "qstep q e q'" and "\<not> enters n e" and "length (q_ch q) \<le> q_size q" and "0 < q_size q"
  shows "call_rank n q' + (if own n e then 1 else 0) \<le> call_rank n q + (if overtakes n e then 2 else 0) \<and>
    length (q_ch q') \<le> q_size q' \<and> q_size q' = q_size q"
  using assms by (cases rule: qstep.cases) (auto simp: call_rank_def split: option.split pc.split if_split_asm)

lemma call_rank_run:
  assumes "qrun q es q'" and "\<forall>e \<in> set es. \<not> enters n e" and "length (q_ch q) \<le> q_size q" and "0 < q_size q"
  shows "call_rank n q' + length (filter (own n) es) \<le> call_rank n q + 2 * length (filter (overtakes n) es) \<and>
    length (q_ch q') \<le> q_size q' \<and> q_size q' = q_size q"
  using assms
proof (induction rule: qrun.induct)
  case (snoc q es q' e q'')
  have IH: "call_rank n q' + length (filter (own n) es) \<le> call_rank n q + 2 * length (filter (overtakes n) es)"
    "length (q_ch q') \<le> q_size q'" "q_size q' = q_size q"
    using snoc.IH snoc.prems by auto
  have "call_rank n q'' + (if own n e then 1 else 0) \<le> call_rank n q' + (if overtakes n e then 2 else 0) \<and>
      length (q_ch q'') \<le> q_size q'' \<and> q_size q'' = q_size q'"
    using call_rank_step [where n = n, OF snoc.hyps(2) _ IH(2)] snoc.prems IH(3) by simp
  then show ?case using IH by (cases "own n e"; cases "overtakes n e") auto
qed simp

lemma call_enabled:
  assumes "q_calls q n \<noteq> None"
  shows "\<exists>e q'. own n e \<and> qstep q e q'"
proof -
  from assms consider b where "q_calls q n = Some (Offer b)" | b where "q_calls q n = Some (Evict b)"
    by (cases "q_calls q n") (auto, metis pc.exhaust)
  then show ?thesis
  proof cases
    case (1 b)
    show ?thesis
    proof (cases "length (q_ch q) < q_size q")
      case True
      then show ?thesis using qstep.queued [OF 1] by (metis own.simps(1))
    next
      case False
      then show ?thesis using qstep.full [OF 1] by (metis own.simps(2))
    qed
  next
    case (2 b)
    show ?thesis
    proof (cases "q_ch q")
      case Nil
      then show ?thesis using qstep.emptied [OF 2] by (metis own.simps(4))
    next
      case (Cons old rest)
      then show ?thesis using qstep.dropped [OF 2] by (metis own.simps(3))
    qed
  qed
qed

text \<open>The steps of the worker, and how many it can take when nothing more is queued.\<close>

fun works :: "'b label \<Rightarrow> bool" where
  "works (Take _) = True"
| "works (Delivered _ _) = True"
| "works (Failed _) = True"
| "works StopSeen = True"
| "works Exit = True"
| "works _ = False"

fun worker_rank :: "'b worker \<Rightarrow> nat" where
  "worker_rank Waiting = 2"
| "worker_rank (Sending d _) = (if d then 2 else 3)"
| "worker_rank Draining = 1"
| "worker_rank Done = 0"

definition drain_rank :: "'b queue \<Rightarrow> nat" where
  "drain_rank q = 2 * length (q_ch q) + worker_rank (q_worker q)"

definition stopping :: "'b queue \<Rightarrow> bool" where
  "stopping q \<longleftrightarrow> q_stop q \<and> (\<forall>n. q_calls q n = None)"

lemma drain_step:
  assumes "qstep q e q'" and "q_stop q"
  shows "q_stop q' \<and> drain_rank q' + (if works e then 1 else 0) \<le> drain_rank q + 2 * length (queued_of e)"
  using assms by (cases rule: qstep.cases) (auto simp: drain_rank_def)

lemma drain_run:
  assumes "qrun q es q'" and "q_stop q"
  shows "q_stop q' \<and> drain_rank q' + length (filter works es) \<le> drain_rank q + 2 * length (all_of queued_of es)"
  using assms
proof (induction rule: qrun.induct)
  case (snoc q es q' e q'')
  then have "q_stop q'" "drain_rank q' + length (filter works es) \<le> drain_rank q + 2 * length (all_of queued_of es)" by auto
  then show ?case using drain_step [OF snoc.hyps(2)] by (cases "works e") fastforce+
qed simp

lemma stopping_run:
  assumes "qrun q es q'" and "\<forall>e \<in> set es. \<not> is_call e" and "stopping q"
  shows "stopping q'"
  using assms
proof (induction rule: qrun.induct)
  case (snoc q es q' e q'')
  then have "stopping q'" by simp
  with snoc.hyps(2) show ?case by (cases rule: qstep.cases) (use snoc.prems in \<open>auto simp: stopping_def\<close>)
qed

lemma drain_enabled:
  assumes "q_stop q" and "q_worker q \<noteq> Done"
  shows "\<exists>e q'. works e \<and> qstep q e q'"
proof (cases "q_worker q")
  case Waiting
  then show ?thesis using qstep.stop_seen [OF Waiting assms(1)] by (metis works.simps(4))
next
  case (Sending d b)
  then show ?thesis using qstep.failed [OF Sending] by (metis works.simps(3))
next
  case Draining
  then show ?thesis
    using qstep.exit [OF Draining] qstep.take_draining [OF Draining] by (cases "q_ch q") (metis works.simps(5), metis works.simps(1))
qed (use assms in simp)

lemma qrun_append: "qrun q2 fs q3 \<Longrightarrow> qrun q1 es q2 \<Longrightarrow> qrun q1 (es @ fs) q3"
  by (induction rule: qrun.induct) (auto simp flip: append_assoc intro: qrun.intros)

lemma Done_empty:
  assumes "qrun q es q'" and "\<forall>e \<in> set es. \<not> is_call e" and "stopping q" and "q_worker q = Done \<longrightarrow> q_ch q = []"
  shows "q_worker q' = Done \<longrightarrow> q_ch q' = []"
  using assms
proof (induction rule: qrun.induct)
  case (snoc q es q' e q'')
  have s: "stopping q'" using stopping_run [OF snoc.hyps(1)] snoc.prems by simp
  have "q_worker q' = Done \<longrightarrow> q_ch q' = []" using snoc by simp
  with snoc.hyps(2) show ?case
    by (cases rule: qstep.cases) (use s snoc.prems in \<open>auto simp: stopping_def split: if_split_asm\<close>)
qed simp


lemma drain_taken:
  assumes "qrun q es q'" and "\<forall>e \<in> set es. \<not> is_call e" and "stopping q"
  shows "q_ch q = all_of taken_of es @ q_ch q' \<and> all_of dropped_of es = []"
  using assms
proof (induction rule: qrun.induct)
  case (snoc q es q' e q'')
  have s: "stopping q'" using stopping_run [OF snoc.hyps(1)] snoc.prems by simp
  have "q_ch q = all_of taken_of es @ q_ch q' \<and> all_of dropped_of es = []" using snoc by simp
  with snoc.hyps(2) show ?case
    by (cases rule: qstep.cases) (use s in \<open>auto simp: stopping_def\<close>)
qed simp

section \<open>Properties\<close>

text \<open>
  Property C34. The queue loses nothing silently and keeps the order. In every state any interleaving of
  callers, worker and \<open>Close\<close> can reach, the batches that left the channel followed by those still in
  it are the batches that were put in, in that order, so what is dropped for room is always the
  oldest there; every batch that was put in is still there, with the worker, posted once, or dropped and
  counted; and the channel is never over its size.
\<close>

theorem queue_accounts_for_all:
  assumes "qrun (NewQueue size' :: 'b queue) es q"
  shows "all_of removed_of es @ q_ch q = all_of queued_of es \<and> length (q_ch q) \<le> size' \<and>
    all_of posted_of es @ in_flight (q_worker q) = all_of taken_of es \<and>
    mset (all_of queued_of es) =
      mset (all_of posted_of es) + mset (in_flight (q_worker q)) + mset (all_of dropped_of es) + mset (q_ch q) \<and>
    fst (Stats q) + fst (snd (Stats q)) = length (all_of posted_of es) \<and> fst (snd (snd (Stats q))) = length (all_of dropped_of es)"
proof -
  note h = qrun_history [OF assms refl]
  have t: "mset (all_of taken_of es) = mset (all_of posted_of es) + mset (in_flight (q_worker q))"
    using h by (metis mset_append)
  have "mset (all_of queued_of es) = mset (all_of removed_of es) + mset (q_ch q)" using h by (metis mset_append)
  moreover have "length (all_of taken_of es) = length (all_of posted_of es) + length (in_flight (q_worker q))"
    using h by (metis length_append)
  ultimately show ?thesis using h t by (simp add: Stats_def ac_simps)
qed

text \<open>
  Property C33. Handing a batch over never waits for the receiver, and the worker of a stopped queue ends. Take any
  reachable state of a queue with room for at least one batch, whatever calls are under way. A call can
  always take a step, and whatever the worker, the receiver, \<open>Close\<close> and the other callers do it takes at most
  three steps of its own and two more for each batch another call puts in meanwhile; with none, at most
  three. Once the queue is stopped, the worker is never stuck before it is done, and takes at most three steps and two
  more for each batch that is queued or comes in. And if no call is under way when it is stopped and none comes
  later, then by the time the worker is done it has handed every batch that was queued to the receiver, in order.
\<close>

theorem queue_never_stalls:
  assumes "qrun (NewQueue size' :: 'b queue) es0 q" and "0 < size'"
  shows "(\<forall>n es q'. q_calls q n \<noteq> None \<and> qrun q es q' \<and> (\<forall>e \<in> set es. \<not> enters n e) \<longrightarrow>
      length (filter (own n) es) \<le> 3 + 2 * length (filter (overtakes n) es) \<and>
      (q_calls q' n \<noteq> None \<longrightarrow> (\<exists>e q''. own n e \<and> qstep q' e q''))) \<and>
    (q_stop q \<longrightarrow> (\<forall>es q'. qrun q es q' \<longrightarrow>
      length (filter works es) \<le> 3 + 2 * (length (q_ch q) + length (all_of queued_of es)) \<and>
      (q_worker q' \<noteq> Done \<longrightarrow> (\<exists>e q''. works e \<and> qstep q' e q'')))) \<and>
    (q_stop q \<and> (\<forall>n. q_calls q n = None) \<and> q_worker q \<noteq> Done \<longrightarrow>
      (\<forall>es q'. qrun q es q' \<and> (\<forall>e \<in> set es. \<not> is_call e) \<and> q_worker q' = Done \<longrightarrow>
        all_of taken_of es = q_ch q \<and> q_ch q' = [] \<and> all_of posted_of (es0 @ es) = all_of taken_of (es0 @ es)))"
proof -
  have size: "length (q_ch q) \<le> q_size q" "0 < q_size q" using qrun_history [OF assms(1) refl] assms(2) by simp_all
  have call: "length (filter (own n) es) \<le> 3 + 2 * length (filter (overtakes n) es)"
    if "qrun q es q'" "\<forall>e \<in> set es. \<not> enters n e" for n es q'
  proof -
    have "call_rank n q \<le> 3" by (simp add: call_rank_def split: option.split pc.split)
    then show ?thesis using call_rank_run [OF that size] by linarith
  qed
  have stop: "length (filter works es) \<le> 3 + 2 * (length (q_ch q) + length (all_of queued_of es)) \<and>
      (q_worker q' \<noteq> Done \<longrightarrow> (\<exists>e q''. works e \<and> qstep q' e q''))" if "q_stop q" "qrun q es q'" for es q'
  proof -
    have "worker_rank (q_worker q) \<le> 3" by (cases "q_worker q") simp_all
    then have "length (filter works es) \<le> 3 + 2 * (length (q_ch q) + length (all_of queued_of es))"
      using drain_run [OF that(2,1), THEN conjunct2] unfolding drain_rank_def add_mult_distrib2 by linarith
    then show ?thesis using drain_run [OF that(2,1)] drain_enabled [of q'] by blast
  qed
  have drain: "all_of taken_of es = q_ch q \<and> q_ch q' = [] \<and> all_of posted_of (es0 @ es) = all_of taken_of (es0 @ es)"
    if st: "q_stop q" "\<forall>n. q_calls q n = None" "q_worker q \<noteq> Done"
      and run: "qrun q es q'" "\<forall>e \<in> set es. \<not> is_call e" and fin: "q_worker q' = Done" for es q'
  proof -
    have s: "stopping q" using st by (simp add: stopping_def)
    have "q_ch q' = []" using Done_empty [OF run s] st fin by blast
    moreover have "all_of posted_of (es0 @ es) @ in_flight (q_worker q') = all_of taken_of (es0 @ es)"
      using qrun_history [OF qrun_append [OF run(1) assms(1)] refl] by blast
    ultimately show ?thesis using drain_taken [OF run s] fin by simp
  qed
  show ?thesis using call stop drain call_enabled by blast
qed

text \<open>
  Property C35. The credential in the webhook's address stays out of what is logged. An address the
  program accepts at startup and another with the same scheme and host, either both or neither with
  more behind the host, give the same error from a delivery that ends the same way, whatever their
  path, query or user and password are; so does what is printed at startup. What is delivered marks
  a resolved alert with its end and never gives a firing one an end.
\<close>

theorem webhook_hides_credential:
  assumes "loadWebhookURL parse a f = Inr raw" and "raw \<noteq> ''''" and "parse raw = Some u" and "parse raw' = Some u'"
    and "u_Scheme u' = u_Scheme u" and "u_Host u' = u_Host u"
    and "(u_Path u' \<noteq> '''' \<and> u_Path u' \<noteq> ''/'' \<or> u_RawQuery u' \<noteq> '''') = (u_Path u \<noteq> '''' \<and> u_Path u \<noteq> ''/'' \<or> u_RawQuery u \<noteq> '''')"
    and same: "\<And>x y c. post raw x = URLError y c \<Longrightarrow> \<exists>z. post raw' x = URLError z c"
      "\<And>x. (\<forall>y c. post raw x \<noteq> URLError y c) \<Longrightarrow> post raw' x = post raw x"
  shows "Webhook_Notify parse post p raw' now alerts = Webhook_Notify parse post p raw now alerts \<and>
    RedactURL parse raw' = RedactURL parse raw \<and> RedactURL parse raw \<noteq> ''(unparseable URL)'' \<and>
    (\<forall>al. (am_EndsAt (amAlert_of p now al) = None \<longleftrightarrow> al_Firing al))"
proof -
  have r: "RedactURL parse raw' = RedactURL parse raw" using assms(3-7) by (simp add: RedactURL_def)
  have u: "u_Scheme u = ''http'' \<or> u_Scheme u = ''https''" "u_Host u \<noteq> ''''"
  proof -
    have "u_Scheme u \<noteq> ''http'' \<and> u_Scheme u \<noteq> ''https'' \<or> u_Host u = '''' \<Longrightarrow> False"
      using assms(1-3) by (auto simp: loadWebhookURL_def rbind_Inr_iff split: option.split_asm if_split_asm)
    then show "u_Scheme u = ''http'' \<or> u_Scheme u = ''https''" "u_Host u \<noteq> ''''" by blast+
  qed
  then have "RedactURL parse raw \<noteq> ''(unparseable URL)''" using assms(3) by (auto simp: RedactURL_def)
  moreover have "Webhook_Notify parse post p raw' now alerts = Webhook_Notify parse post p raw now alerts"
  proof (cases "post raw (map (amAlert_of p now) alerts)")
    case (URLError y c)
    then show ?thesis using same(1) [OF URLError] assms(3,4) r by (auto simp: Webhook_Notify_def)
  qed (use same(2) [of "map (amAlert_of p now) alerts"] assms(3,4) r in \<open>auto simp: Webhook_Notify_def\<close>)
  ultimately show ?thesis using r by (simp add: amAlert_of_def Let_def)
qed


section \<open>The properties on small histories\<close>

text \<open>A queue of one: the second batch pushes out the first, and is delivered after \<open>Close\<close>.\<close>

definition example_history :: "nat label list" where
  "example_history = [Call 0 7, Queued 0 7, Call 0 8, Full 0, Dropped 0 7, Queued 0 8]"

definition one :: "nat list \<Rightarrow> nat pc option \<Rightarrow> nat \<Rightarrow> nat queue" where
  "one ch c d = \<lparr>q_size = 1, q_ch = ch, q_stop = False, q_cancelled = False, q_worker = Waiting,
     q_calls = (\<lambda>n. if n = 0 then c else None), q_ok = 0, q_failed = 0, q_dropped = d, q_lastOK = 0\<rparr>"

definition example_queue :: "nat queue" where
  "example_queue = one [8] None 1"

lemma qrun_Cons: "qstep q e q' \<Longrightarrow> qrun q' es q'' \<Longrightarrow> qrun q (e # es) q''"
  using qrun_append [of q' es q'' q "[e]"] qrun.snoc [OF qrun.nil, of q e q'] by simp

lemma example_run: "qrun (NewQueue 1) example_history example_queue"
proof -
  have e: "NewQueue 1 = one [] None 0" "example_queue = one [8] None 1" by (auto simp: NewQueue_def example_queue_def one_def)
  have "qstep (one [] None 0) (Call 0 7) (one [] (Some (Offer 7)) 0)"
    using qstep.call [of "one [] None 0" 0 7] by (simp add: one_def fun_upd_def cong: if_cong)
  moreover have "qstep (one [] (Some (Offer 7)) 0) (Queued 0 7) (one [7] None 0)"
    using qstep.queued [of "one [] (Some (Offer 7)) 0" 0 7] by (simp add: one_def fun_upd_def cong: if_cong)
  moreover have "qstep (one [7] None 0) (Call 0 8) (one [7] (Some (Offer 8)) 0)"
    using qstep.call [of "one [7] None 0" 0 8] by (simp add: one_def fun_upd_def cong: if_cong)
  moreover have "qstep (one [7] (Some (Offer 8)) 0) (Full 0) (one [7] (Some (Evict 8)) 0)"
    using qstep.full [of "one [7] (Some (Offer 8)) 0" 0 8] by (simp add: one_def fun_upd_def cong: if_cong)
  moreover have "qstep (one [7] (Some (Evict 8)) 0) (Dropped 0 7) (one [] (Some (Offer 8)) 1)"
    using qstep.dropped [of "one [7] (Some (Evict 8)) 0" 0 8 7 "[]"] by (simp add: one_def fun_upd_def cong: if_cong)
  moreover have "qstep (one [] (Some (Offer 8)) 1) (Queued 0 8) (one [8] None 1)"
    using qstep.queued [of "one [] (Some (Offer 8)) 1" 0 8] by (simp add: one_def fun_upd_def cong: if_cong)
  ultimately show ?thesis unfolding example_history_def e by (meson qrun_Cons qrun.nil)
qed

theorem queue_accounts_for_all_witness:
  "all_of queued_of example_history = [7, 8] \<and> all_of dropped_of example_history = [7] \<and>
   all_of removed_of example_history @ q_ch example_queue = all_of queued_of example_history \<and> length (q_ch example_queue) \<le> 1"
  using queue_accounts_for_all [OF example_run] by (simp add: example_history_def)

text \<open>Two callers and room for one batch: the second overtakes the first, which then takes five steps.\<close>

definition two :: "nat list \<Rightarrow> nat pc option \<Rightarrow> nat pc option \<Rightarrow> nat \<Rightarrow> nat queue" where
  "two ch c d k = \<lparr>q_size = 1, q_ch = ch, q_stop = False, q_cancelled = False, q_worker = Waiting,
     q_calls = (\<lambda>n. if n = 0 then c else if n = 1 then d else None), q_ok = 0, q_failed = 0, q_dropped = k, q_lastOK = 0\<rparr>"

lemma two_start: "qrun (NewQueue 1) (example_history @ [Call 0 9, Call 1 5]) (two [8] (Some (Offer 9)) (Some (Offer 5)) 1)"
proof -
  have "qstep example_queue (Call 0 9) (two [8] (Some (Offer 9)) None 1)"
    using qstep.call [of example_queue 0 9] by (simp add: example_queue_def one_def two_def fun_upd_def cong: if_cong)
  moreover have "qstep (two [8] (Some (Offer 9)) None 1) (Call 1 5) (two [8] (Some (Offer 9)) (Some (Offer 5)) 1)"
  proof -
    have "(\<lambda>x. if x = Suc 0 then Some (Offer 5) else if x = 0 then Some (Offer 9) else None) =
      (\<lambda>n. if n = 0 then Some (Offer (9 :: nat)) else if n = 1 then Some (Offer 5) else None)" by auto
    then show ?thesis using qstep.call [of "two [8] (Some (Offer 9)) None 1" 1 5] by (simp add: two_def fun_upd_def cong: if_cong)
  qed
  ultimately show ?thesis by (meson example_run qrun_append qrun_Cons qrun.nil)
qed

definition overtaken :: "nat label list" where
  "overtaken = [Full 0, Dropped 0 8, Queued 1 5, Full 0, Dropped 0 5, Queued 0 9]"

lemma two_run: "qrun (two [8] (Some (Offer 9)) (Some (Offer 5)) 1) overtaken (two [9] None None (Suc (Suc 1)))"
proof -
  have s1: "qstep (two [8] (Some (Offer 9)) (Some (Offer 5)) 1) (Full 0) (two [8] (Some (Evict 9)) (Some (Offer 5)) 1)"
    using qstep.full [of "two [8] (Some (Offer 9)) (Some (Offer 5)) 1" 0 9] by (simp add: two_def fun_upd_def cong: if_cong)
  have s2: "qstep (two [8] (Some (Evict 9)) (Some (Offer 5)) 1) (Dropped 0 8) (two [] (Some (Offer 9)) (Some (Offer 5)) (Suc 1))"
    using qstep.dropped [of "two [8] (Some (Evict 9)) (Some (Offer 5)) 1" 0 9 8 "[]"] by (simp add: two_def fun_upd_def cong: if_cong)
  have s3: "qstep (two [] (Some (Offer 9)) (Some (Offer 5)) (Suc 1)) (Queued 1 5) (two [5] (Some (Offer 9)) None (Suc 1))"
  proof -
    have "(\<lambda>x. if x = Suc 0 then None else if x = 0 then Some (Offer 9) else if x = Suc 0 then Some (Offer 5) else None) =
      (\<lambda>n. if n = 0 then Some (Offer (9 :: nat)) else None)" by auto
    then show ?thesis using qstep.queued [of "two [] (Some (Offer 9)) (Some (Offer 5)) (Suc 1)" 1 5]
      by (simp add: two_def fun_upd_def cong: if_cong)
  qed
  have s4: "qstep (two [5] (Some (Offer 9)) None (Suc 1)) (Full 0) (two [5] (Some (Evict 9)) None (Suc 1))"
    using qstep.full [of "two [5] (Some (Offer 9)) None (Suc 1)" 0 9] by (simp add: two_def fun_upd_def cong: if_cong)
  have s5: "qstep (two [5] (Some (Evict 9)) None (Suc 1)) (Dropped 0 5) (two [] (Some (Offer 9)) None (Suc (Suc 1)))"
    using qstep.dropped [of "two [5] (Some (Evict 9)) None (Suc 1)" 0 9 5 "[]"] by (simp add: two_def fun_upd_def cong: if_cong)
  have s6: "qstep (two [] (Some (Offer 9)) None (Suc (Suc 1))) (Queued 0 9) (two [9] None None (Suc (Suc 1)))"
    using qstep.queued [of "two [] (Some (Offer 9)) None (Suc (Suc 1))" 0 9] by (simp add: two_def fun_upd_def cong: if_cong)
  show ?thesis unfolding overtaken_def
    by (rule qrun_Cons [OF s1 qrun_Cons [OF s2 qrun_Cons [OF s3 qrun_Cons [OF s4 qrun_Cons [OF s5 qrun_Cons [OF s6 qrun.nil]]]]]])
qed

theorem queue_never_stalls_witness:
  "length (filter (own 0) overtaken) = 5 \<and> 5 \<le> 3 + 2 * length (filter (overtakes 0) overtaken) \<and>
   (\<exists>e q''. own 1 e \<and> qstep (two [8] (Some (Offer 9)) (Some (Offer 5)) 1) e q'')"
proof -
  let ?q = "two [8] (Some (Offer 9)) (Some (Offer 5)) 1"
  note never = queue_never_stalls [OF two_start zero_less_one, THEN conjunct1, rule_format]
  have "length (filter (own 0) overtaken) \<le> 3 + 2 * length (filter (overtakes 0) overtaken)"
    by (rule never [of 0 overtaken "two [9] None None (Suc (Suc 1))", THEN conjunct1])
      (intro conjI two_run, simp_all add: two_def overtaken_def)
  moreover have "\<exists>e q''. own 1 e \<and> qstep ?q e q''"
    by (rule never [of 1 "[]" ?q, THEN conjunct2, rule_format]) (auto simp: qrun.nil two_def)
  ultimately show ?thesis by (simp add: overtaken_def)
qed

definition example_parse :: "string \<Rightarrow> url option" where
  "example_parse raw = Some \<lparr>u_Scheme = ''https'', u_Host = ''a'', u_Path = drop 9 raw, u_RawQuery = ''''\<rparr>"

definition example_post :: "string \<Rightarrow> amAlert list \<Rightarrow> http_result" where
  "example_post raw alerts = URLError raw ''refused''"

theorem webhook_hides_credential_witness:
  "\<forall>p now al. Webhook_Notify example_parse example_post p ''https://a/secret'' now [al] =
     Webhook_Notify example_parse example_post p ''https://a/token'' now [al] \<and>
     Webhook_Notify example_parse example_post p ''https://a/secret'' now [al] \<noteq> Inr ()"
proof (intro allI)
  fix p :: printer and now :: int and al :: alert
  have l: "loadWebhookURL example_parse ''https://a/token'' None = Inr ''https://a/token''"
    by (simp add: loadWebhookURL_def example_parse_def)
  have "Webhook_Notify example_parse example_post p ''https://a/secret'' now [al] =
      Webhook_Notify example_parse example_post p ''https://a/token'' now [al] \<and>
      RedactURL example_parse ''https://a/secret'' = RedactURL example_parse ''https://a/token'' \<and>
      RedactURL example_parse ''https://a/token'' \<noteq> ''(unparseable URL)'' \<and>
      (\<forall>al. (am_EndsAt (amAlert_of p now al) = None \<longleftrightarrow> al_Firing al))"
    by (rule webhook_hides_credential [OF l _ example_parse_def example_parse_def]) (simp_all add: example_post_def)
  moreover have "Webhook_Notify example_parse example_post p ''https://a/secret'' now [al] \<noteq> Inr ()"
    by (simp add: Webhook_Notify_def example_parse_def example_post_def)
  ultimately show "Webhook_Notify example_parse example_post p ''https://a/secret'' now [al] =
     Webhook_Notify example_parse example_post p ''https://a/token'' now [al] \<and>
     Webhook_Notify example_parse example_post p ''https://a/secret'' now [al] \<noteq> Inr ()" by blast
qed

end
