(* ===== verification/Columns.thy ===== *)
theory Columns
  imports MeasureDB "HOL-Library.AList"
begin

text \<open>
  Pooled reads for a plot, \<open>internal/store/columns.go\<close>, and the row bound of
  \<open>internal/api/rangeguard.go\<close>. The index arithmetic of the columns is at its 64 and 128 bits: \<open>bits.Mul64\<close>
  yields the two halves of the product and \<open>bits.Div64\<close> panics, here \<open>None\<close>, when its quotient would not
  fit. The ranks of \<open>quantiles\<close> and the sums of a column are Go \<open>int\<close>s of \<open>W\<close> bits, and an index outside a
  slice panics. What counts intervals stays a natural number: it is at most \<open>maxPooledRows\<close>.
\<close>

section \<open>The index of a column\<close>

definition Mul64 :: "u64 \<Rightarrow> u64 \<Rightarrow> u64 \<times> u64" where
  "Mul64 a b = (let p = unat a * unat b in (word_of_nat (p div 2 ^ 64), word_of_nat (p mod 2 ^ 64)))"

definition Div64 :: "u64 \<Rightarrow> u64 \<Rightarrow> u64 \<Rightarrow> (u64 \<times> u64) option" where
  "Div64 hi lo y =
     (if y \<le> hi then None
      else let x = unat hi * 2 ^ 64 + unat lo
           in Some (word_of_nat (x div unat y), word_of_nat (x mod unat y)))"

record column =
  co_From :: i64
  co_To :: i64
  co_Rounds :: nat
  co_Sent :: int
  co_Received :: int
  co_Flags :: u8
  co_Flagged :: nat
  co_Quantiles :: "u32 list"
  co_Series :: "string \<Rightarrow> i32 list option"

record pooler =
  po_from :: i64
  po_span :: u64
  po_n :: u64
  po_cur :: "column option"
  po_idx :: u64
  po_pool :: "u32 list"
  po_out :: "column list"
  po_outIdx :: "u64 list"

definition newPooler :: "i64 \<Rightarrow> i64 \<Rightarrow> nat \<Rightarrow> pooler" where
  "newPooler frm to n = \<lparr>po_from = frm, po_span = to - frm, po_n = word_of_nat n, po_cur = None, po_idx = 0,
     po_pool = [], po_out = [], po_outIdx = []\<rparr>"

definition column_of :: "pooler \<Rightarrow> i64 \<Rightarrow> u64 option" where
  "column_of p ts =
     (let (hi, lo) = Mul64 (ts - po_from p) (po_n p)
      in map_option fst (Div64 hi lo (po_span p)))"

definition start_of :: "pooler \<Rightarrow> u64 \<Rightarrow> i64 option" where
  "start_of p i =
     (let (hi, lo) = Mul64 i (po_span p)
      in case Div64 hi lo (po_n p) of
        None \<Rightarrow> None
      | Some (q, r) \<Rightarrow> Some (po_from p + (if r \<noteq> 0 then q + 1 else q)))"

section \<open>Order statistics\<close>

definition ColumnQuantiles :: nat where "ColumnQuantiles = 256"

text \<open>
  \<open>quantiles\<close> over any integer type of samples, ordered by \<open>key\<close>: the rank is computed in \<open>int\<close>s of \<open>W\<close> bits,
  and \<open>None\<close> is the panic of an index outside the pool.
\<close>

definition mid_rank :: "nat \<Rightarrow> nat \<Rightarrow> nat \<Rightarrow> nat \<Rightarrow> int" where
  "mid_rank W q n k = go_div (wrap W (wrap W (2 * int k + 1) * int n)) (wrap W (2 * int q))"

definition slice_at :: "'a list \<Rightarrow> int \<Rightarrow> 'a option" where
  "slice_at xs i = (if 0 \<le> i \<and> i < int (length xs) then Some (xs ! nat i) else None)"

definition quantiles :: "nat \<Rightarrow> ('a \<Rightarrow> int) \<Rightarrow> 'a list \<Rightarrow> nat \<Rightarrow> 'a list option" where
  "quantiles W key pool q =
     (let pool = sort_key key pool
      in if length pool \<le> q then Some pool
         else those (map (\<lambda>k. slice_at pool (mid_rank W q (length pool) k)) [0..<q]))"

section \<open>Pooling\<close>

definition maxPooledRows :: nat where "maxPooledRows = 10000000"

text \<open>Panics of the index arithmetic are errors of their own, shown never to occur.\<close>

datatype pool_error = PoolStore store_error | PoolPanic

definition orPanic :: "'a option \<Rightarrow> pool_error + 'a" where
  "orPanic v = (case v of None \<Rightarrow> Inl PoolPanic | Some x \<Rightarrow> Inr x)"

definition pool_close :: "nat \<Rightarrow> pooler \<Rightarrow> pooler option" where
  "pool_close W p =
     (case po_cur p of
        None \<Rightarrow> Some p
      | Some c \<Rightarrow> map_option (\<lambda>qs. p\<lparr>po_out := po_out p @ [c\<lparr>co_Quantiles := qs\<rparr>],
                   po_outIdx := po_outIdx p @ [po_idx p], po_cur := None, po_pool := []\<rparr>)
                 (quantiles W uint (po_pool p) ColumnQuantiles))"

definition empty_column :: "i64 \<Rightarrow> i64 \<Rightarrow> column" where
  "empty_column frm to = \<lparr>co_From = frm, co_To = to, co_Rounds = 0, co_Sent = 0, co_Received = 0, co_Flags = 0,
     co_Flagged = 0, co_Quantiles = [], co_Series = (\<lambda>_. None)\<rparr>"

definition count_in :: "nat \<Rightarrow> measurement \<Rightarrow> column \<Rightarrow> column" where
  "count_in W m c =
     (let c = c\<lparr>co_Rounds := co_Rounds c + 1, co_Sent := wrap W (co_Sent c + int (m_Sent m)),
               co_Received := wrap W (co_Received c + int (m_Received m))\<rparr>
      in if m_Flags m \<noteq> 0 then c\<lparr>co_Flags := co_Flags c OR m_Flags m, co_Flagged := co_Flagged c + 1\<rparr> else c)"

definition pool_add :: "nat \<Rightarrow> pooler \<Rightarrow> measurement \<Rightarrow> pool_error + pooler" where
  "pool_add W p m =
     rbind (orPanic (column_of p (word_of_int (m_TS m)))) (\<lambda>i.
     rbind (if po_cur p = None \<or> i \<noteq> po_idx p then
              rbind (orPanic (pool_close W p)) (\<lambda>p.
              rbind (orPanic (start_of p i)) (\<lambda>frm.
              rbind (orPanic (start_of p (i + 1))) (\<lambda>to.
                Inr (p\<lparr>po_idx := i, po_cur := Some (empty_column frm to)\<rparr>))))
            else Inr p) (\<lambda>p.
       let p = p\<lparr>po_cur := map_option (count_in W m) (po_cur p)\<rparr>
       in if length (po_pool p) + length (m_Samples m) > maxSamplesPerRead
          then Inl (PoolStore (tooLarge ''samples in one column'' maxSamplesPerRead))
          else Inr (p\<lparr>po_pool := po_pool p @ m_Samples m\<rparr>)))"

definition pool_finish :: "nat \<Rightarrow> pooler \<Rightarrow> pooler option" where
  "pool_finish W p = pool_close W p"

fun pool_all :: "nat \<Rightarrow> measurement list \<Rightarrow> pooler \<Rightarrow> pool_error + pooler" where
  "pool_all W [] p = Inr p"
| "pool_all W (m # ms) p = rbind (pool_add W p m) (pool_all W ms)"

text \<open>
  The loop of \<open>QueryColumns\<close>: \<open>rd\<close> rows read, \<open>samples\<close> of them counted, \<open>raw\<close> the intervals kept as
  they are while there is no pooler.
\<close>

fun column_rows :: "nat \<Rightarrow> i64 \<Rightarrow> i64 \<Rightarrow> nat \<Rightarrow> nat \<Rightarrow> int \<Rightarrow> measurement list \<Rightarrow> pooler option \<Rightarrow> mrow list \<Rightarrow>
    pool_error + (measurement list \<times> pooler option \<times> nat)" where
  "column_rows W frm to n rd samples raw p [] = Inr (raw, p, rd)"
| "column_rows W frm to n rd samples raw p (r # rs) =
     (let rd = rd + 1
      in if rd > maxPooledRows then Inl (PoolStore (tooLarge ''intervals'' maxPooledRows))
      else case Decode (mr_samples r) of
        Inl e \<Rightarrow> Inl (PoolStore (DecodeFailed e))
      | Inr xs \<Rightarrow>
          let m = measurement_of r xs
          in case p of
            Some p \<Rightarrow> rbind (pool_add W p m) (\<lambda>p. column_rows W frm to n rd samples raw (Some p) rs)
          | None \<Rightarrow>
              let raw = raw @ [m]; samples = wrap W (samples + int (m_Received m))
              in if length raw > n \<or> samples > int maxSamplesPerRead
                 then rbind (pool_all W raw (newPooler frm to n)) (\<lambda>p. column_rows W frm to n rd samples [] (Some p) rs)
                 else column_rows W frm to n rd samples raw None rs)"

section \<open>The pooled extra series\<close>

record series_state =
  se_j :: "nat option"
  se_k :: nat
  se_cur :: u64
  se_started :: bool
  se_pools :: "(string \<times> i32 list) list"
  se_cols :: "column list"

text \<open>
  \<open>flush\<close>: the pools, an association list as the order of the map does not matter, become quantiles of the
  column being filled.
\<close>

definition flush :: "nat \<Rightarrow> series_state \<Rightarrow> series_state option" where
  "flush W st =
     (case se_j st of
        None \<Rightarrow> Some st
      | Some j \<Rightarrow>
          map_option (\<lambda>qs. let c = se_cols st ! j
             in st\<lparr>se_cols := (se_cols st)[j := c\<lparr>co_Series := co_Series c ++ map_of qs\<rparr>], se_pools := []\<rparr>)
            (those (map (\<lambda>(name, pool). map_option (Pair name) (quantiles W sint pool ColumnQuantiles)) (se_pools st))))"

text \<open>\<open>for k < len(cols) && p.outIdx[k] < i { k++ }\<close>\<close>

function seek :: "u64 list \<Rightarrow> u64 \<Rightarrow> nat \<Rightarrow> nat" where
  "seek idx i k = (if k < length idx \<and> idx ! k < i then seek idx i (Suc k) else k)"
  by auto
termination by (relation "measure (\<lambda>(idx, i, k). length idx - k)") auto

declare seek.simps [simp del]

definition enter_column :: "nat \<Rightarrow> pooler \<Rightarrow> u64 \<Rightarrow> series_state \<Rightarrow> series_state option" where
  "enter_column W p i st =
     (if \<not> se_started st \<or> i \<noteq> se_cur st then
        map_option (\<lambda>st. let k = seek (po_outIdx p) i (se_k st)
          in st\<lparr>se_started := True, se_cur := i, se_k := k,
              se_j := (if k < length (po_outIdx p) \<and> po_outIdx p ! k = i then Some k else None)\<rparr>) (flush W st)
      else Some st)"

fun series_rows :: "nat \<Rightarrow> pooler \<Rightarrow> nat \<Rightarrow> series_state \<Rightarrow> srow list \<Rightarrow> pool_error + series_state" where
  "series_rows W p rd st [] = Inr st"
| "series_rows W p rd st (r # rs) =
     (let rd = rd + 1
      in if rd > maxPooledRows then Inl (PoolStore (tooLarge ''intervals'' maxPooledRows))
      else rbind (orPanic (column_of p (word_of_int (sr_ts r)))) (\<lambda>i.
        rbind (orPanic (enter_column W p i st)) (\<lambda>st.
        if se_j st = None then series_rows W p rd st rs
        else case DecodeSigned (sr_samples r) of
          Inl e \<Rightarrow> series_rows W p rd st rs
        | Inr vals \<Rightarrow>
            let pool = (case map_of (se_pools st) (sr_series r) of None \<Rightarrow> [] | Some xs \<Rightarrow> xs)
            in if length pool + length vals > maxSamplesPerRead
               then Inl (PoolStore (tooLarge ''samples in one column'' maxSamplesPerRead))
               else series_rows W p rd (st\<lparr>se_pools := AList.update (sr_series r) (pool @ vals) (se_pools st)\<rparr>) rs)))"

definition poolSeries :: "nat \<Rightarrow> mdb \<Rightarrow> int \<Rightarrow> int \<Rightarrow> int \<Rightarrow> int \<Rightarrow> pooler \<Rightarrow> column list \<Rightarrow> nat \<Rightarrow> pool_error + column list" where
  "poolSeries W db tid aid frm to p cols rd =
     rbind (series_rows W p rd \<lparr>se_j = None, se_k = 0, se_cur = 0, se_started = False, se_pools = [], se_cols = cols\<rparr>
         (select_series db tid aid frm to)) (\<lambda>st.
       rbind (orPanic (flush W st)) (\<lambda>st. Inr (se_cols st)))"

text \<open>The answer: the intervals themselves, or the columns.\<close>

datatype columns_result = Raw "measurement list" | Pooled "column list"

definition QueryColumns :: "nat \<Rightarrow> mdb \<Rightarrow> int \<Rightarrow> int \<Rightarrow> int \<Rightarrow> int \<Rightarrow> int \<Rightarrow> pool_error + columns_result" where
  "QueryColumns W db tid aid frm to n =
     (if n < 1 then Inl (PoolStore BadColumns)
      else rbind (column_rows W (word_of_int frm) (word_of_int to) (nat n) 0 0 [] None (select_range db tid aid frm to))
        (\<lambda>(raw, p, rd). case p of
           Some p \<Rightarrow>
             rbind (orPanic (pool_finish W p)) (\<lambda>p.
             rbind (poolSeries W db tid aid frm to p (po_out p) rd) (\<lambda>cols. Inr (Pooled cols)))
         | None \<Rightarrow> (case attachSeries db tid aid frm to raw of
             Inl e \<Rightarrow> Inl (PoolStore e) | Inr ms \<Rightarrow> Inr (Raw ms))))"

text \<open>\<open>internal/api/rangeguard.go\<close>; \<open>minIntervalS\<close> is the shortest interval a target can have.\<close>

definition rangeRows :: "u64 \<Rightarrow> i64 \<Rightarrow> i64 \<Rightarrow> u64" where
  "rangeRows minIntervalS frm to =
     (if sint to \<le> sint frm then 0 else (to - frm) div minIntervalS)"

section \<open>The columns tile the window\<close>

definition i64_range :: "int \<Rightarrow> bool" where
  "i64_range x \<longleftrightarrow> - (2 ^ 63) \<le> x \<and> x < 2 ^ 63"

lemma sint_i64: "i64_range x \<Longrightarrow> sint (word_of_int x :: i64) = x"
  by (simp add: i64_range_def signed_of_int signed_take_bit_int_eq_self)

lemma unat_diff_i64:
  "i64_range x \<Longrightarrow> i64_range y \<Longrightarrow> x \<le> y \<Longrightarrow> unat (word_of_int y - word_of_int x :: u64) = nat (y - x)"
  by (simp add: i64_range_def unsigned_of_int take_bit_int_eq_self flip: of_int_diff)

lemma unat_u64: "k < 2 ^ 64 \<Longrightarrow> unat (word_of_nat k :: u64) = k"
  by (simp add: unsigned_of_nat take_bit_nat_eq_self)

lemma Mul64_join: "Mul64 a b = (hi, lo) \<Longrightarrow> unat hi * 2 ^ 64 + unat lo = unat a * unat b \<and> unat hi = unat a * unat b div 2 ^ 64"
proof -
  assume m: "Mul64 a b = (hi, lo)"
  have "unat a * unat b < 2 ^ 64 * 2 ^ 64" using unsigned_less [of a] unsigned_less [of b] by (intro mult_strict_mono) auto
  then have "unat a * unat b div 2 ^ 64 < 2 ^ 64" by (simp add: less_mult_imp_div_less)
  then have "unat hi = unat a * unat b div 2 ^ 64" "unat lo = unat a * unat b mod 2 ^ 64"
    using m by (auto simp: Mul64_def Let_def unat_u64)
  then show ?thesis by (simp add: div_mult_mod_eq)
qed

text \<open>Multiplying and dividing through 128 bits is exact when the quotient fits.\<close>

lemma muldiv:
  assumes "0 < unat y" and "unat a * unat b < unat y * 2 ^ 64"
  shows "(case Mul64 a b of (hi, lo) \<Rightarrow> Div64 hi lo y) =
    Some (word_of_nat (unat a * unat b div unat y), word_of_nat (unat a * unat b mod unat y))"
proof -
  obtain hi lo where m: "Mul64 a b = (hi, lo)" by (cases "Mul64 a b")
  from Mul64_join [OF m] have j1: "unat hi * 2 ^ 64 + unat lo = unat a * unat b"
    and j: "unat hi = unat a * unat b div 2 ^ 64" by auto
  have "unat hi < unat y" using j assms(2) by (simp add: less_mult_imp_div_less)
  then have "\<not> y \<le> hi" by (simp add: word_less_nat_alt not_le)
  then show ?thesis by (simp only: m prod.case Div64_def Let_def j1 if_False)
qed

definition cdiv :: "nat \<Rightarrow> nat \<Rightarrow> nat" where
  "cdiv x n = x div n + (if x mod n = 0 then 0 else 1)"

lemma cdiv_le_iff: "0 < n \<Longrightarrow> cdiv x n \<le> a \<longleftrightarrow> x \<le> a * n"
proof -
  assume n: "0 < n"
  have x: "x = x div n * n + x mod n" by simp
  show ?thesis
  proof
    assume "cdiv x n \<le> a"
    then have "cdiv x n * n \<le> a * n" by (rule mult_le_mono1)
    moreover have "x \<le> cdiv x n * n"
    proof (cases "x mod n = 0")
      case False
      then have "cdiv x n * n = x div n * n + n" by (simp add: cdiv_def)
      with x mod_less_divisor [OF n, of x] show ?thesis by linarith
    next
      case True
      then have "cdiv x n * n = x div n * n" by (simp add: cdiv_def)
      with x True show ?thesis by linarith
    qed
    ultimately show "x \<le> a * n" by (rule le_trans [rotated])
  next
    assume le: "x \<le> a * n"
    show "cdiv x n \<le> a"
    proof (cases "x mod n = 0")
      case True
      then have "x div n * n \<le> a * n" using le x by simp
      then show ?thesis using n True by (simp add: cdiv_def)
    next
      case False
      then have "x div n * n < a * n" using le x by linarith
      then show ?thesis using n False by (simp add: cdiv_def)
    qed
  qed
qed

text \<open>The window of a pooler: \<open>span\<close> seconds from \<open>frm\<close>, cut into \<open>n\<close> columns.\<close>

definition window_ok :: "int \<Rightarrow> int \<Rightarrow> nat \<Rightarrow> bool" where
  "window_ok frm to n \<longleftrightarrow> i64_range frm \<and> i64_range to \<and> frm < to \<and> 1 \<le> n \<and> n < 2 ^ 63"

definition window_of :: "int \<Rightarrow> int \<Rightarrow> nat \<Rightarrow> pooler" where
  "window_of frm to n = newPooler (word_of_int frm) (word_of_int to) n"

text \<open>The index arithmetic reads only the three fixed fields of a pooler.\<close>

definition same_window :: "pooler \<Rightarrow> pooler \<Rightarrow> bool" where
  "same_window p q \<longleftrightarrow> po_from p = po_from q \<and> po_span p = po_span q \<and> po_n p = po_n q"

lemma same_window_index:
  "same_window p q \<Longrightarrow> column_of p = column_of q" "same_window p q \<Longrightarrow> start_of p = start_of q"
  by (auto simp: same_window_def column_of_def start_of_def fun_eq_iff split: prod.split option.split)

lemma window_fields:
  assumes "window_ok frm to n"
  shows "unat (po_span (window_of frm to n)) = nat (to - frm)" "unat (po_n (window_of frm to n)) = n"
    "po_from (window_of frm to n) = word_of_int frm"
  using assms by (simp_all add: window_ok_def window_of_def newPooler_def unat_diff_i64 unat_u64 flip: of_nat_power)

definition col_index :: "int \<Rightarrow> int \<Rightarrow> nat \<Rightarrow> int \<Rightarrow> nat" where
  "col_index frm to n ts = nat (ts - frm) * n div nat (to - frm)"

definition col_start :: "int \<Rightarrow> int \<Rightarrow> nat \<Rightarrow> nat \<Rightarrow> int" where
  "col_start frm to n i = frm + int (cdiv (i * nat (to - frm)) n)"

lemma column_of_exact:
  assumes "window_ok frm to n" and "frm \<le> ts" and "ts < to"
  shows "column_of (window_of frm to n) (word_of_int ts) = Some (word_of_nat (col_index frm to n ts))"
    and "col_index frm to n ts < n"
proof -
  let ?p = "window_of frm to n" and ?a = "word_of_int ts - po_from (window_of frm to n)"
  have ts: "i64_range ts" using assms by (auto simp: window_ok_def i64_range_def)
  have a: "unat ?a = nat (ts - frm)"
    using assms(1,2) ts unat_diff_i64 [of frm ts] by (simp add: window_fields [OF assms(1)] window_ok_def)
  have lt: "nat (ts - frm) < nat (to - frm)" using assms by simp
  have n: "n < 2 ^ 64" using assms(1) by (simp add: window_ok_def)
  have "nat (ts - frm) * n < nat (to - frm) * 2 ^ 64" using lt n by (intro mult_strict_mono') auto
  then show "column_of ?p (word_of_int ts) = Some (word_of_nat (col_index frm to n ts))"
    using muldiv [of "po_span ?p" ?a "po_n ?p"] lt unfolding a window_fields(1,2) [OF assms(1)]
    by (cases "Mul64 ?a (po_n ?p)") (simp add: column_of_def col_index_def)
  have "nat (ts - frm) * n < nat (to - frm) * n" using lt assms(1) by (simp add: window_ok_def)
  then show "col_index frm to n ts < n" by (simp add: col_index_def less_mult_imp_div_less mult.commute)
qed

lemma start_of_exact:
  assumes "window_ok frm to n" and "i \<le> n"
  shows "start_of (window_of frm to n) (word_of_nat i) = Some (word_of_int (col_start frm to n i))"
proof -
  let ?p = "window_of frm to n" and ?s = "nat (to - frm)"
  have n: "0 < n" "n < 2 ^ 64" using assms(1) by (auto simp: window_ok_def)
  have s: "?s < 2 ^ 64" using assms(1) by (simp add: window_ok_def i64_range_def nat_less_iff)
  have i: "unat (word_of_nat i :: u64) = i" using assms(2) n(2) by (intro unat_u64) simp
  have "i * ?s \<le> n * ?s" using assms(2) by simp
  also have "n * ?s < n * 2 ^ 64" using n(1) s by (intro mult_strict_left_mono) auto
  finally have "i * ?s < n * 2 ^ 64" .
  then have d: "(case Mul64 (word_of_nat i) (po_span ?p) of (hi, lo) \<Rightarrow> Div64 hi lo (po_n ?p)) =
      Some (word_of_nat (i * ?s div n), word_of_nat (i * ?s mod n))"
    using muldiv [of "po_n ?p" "word_of_nat i" "po_span ?p"] n by (simp add: window_fields [OF assms(1)] i)
  have z: "(word_of_nat (i * ?s mod n) :: u64) = 0 \<longleftrightarrow> i * ?s mod n = 0"
  proof -
    have "i * ?s mod n < 2 ^ 64" using n mod_less_divisor [OF n(1)] less_trans by blast
    then show ?thesis using unat_u64 [of "i * ?s mod n"] by (auto simp: unat_eq_0)
  qed
  show ?thesis
    using d by (cases "Mul64 (word_of_nat i) (po_span ?p)")
      (simp add: start_of_def z window_fields [OF assms(1)] col_start_def cdiv_def)
qed

lemma col_start_le: "window_ok frm to n \<Longrightarrow> frm \<le> ts \<Longrightarrow> col_start frm to n i \<le> ts \<longleftrightarrow> i * nat (to - frm) \<le> nat (ts - frm) * n"
proof -
  assume a: "window_ok frm to n" "frm \<le> ts"
  have "col_start frm to n i \<le> ts \<longleftrightarrow> cdiv (i * nat (to - frm)) n \<le> nat (ts - frm)"
    using a(2) by (auto simp: col_start_def)
  then show ?thesis using cdiv_le_iff [of n] a(1) by (simp add: window_ok_def)
qed

lemma col_start_ends:
  assumes "window_ok frm to n"
  shows "col_start frm to n 0 = frm" "col_start frm to n n = to"
  using assms by (simp_all add: col_start_def cdiv_def window_ok_def)

text \<open>A second lies in its column and in no other.\<close>

lemma in_column:
  assumes "window_ok frm to n" and "frm \<le> ts" and "ts < to"
  shows "col_start frm to n (col_index frm to n ts) \<le> ts" "ts < col_start frm to n (Suc (col_index frm to n ts))"
proof -
  let ?i = "col_index frm to n ts" and ?s = "nat (to - frm)" and ?x = "nat (ts - frm) * n"
  have s: "0 < ?s" using assms by simp
  have "?i * ?s \<le> ?x" by (simp add: col_index_def)
  then show "col_start frm to n ?i \<le> ts" using col_start_le [OF assms(1,2)] by simp
  have "?x < Suc ?i * ?s"
    using dividend_less_div_times [OF s, of ?x] by (simp add: col_index_def)
  then show "ts < col_start frm to n (Suc ?i)" using col_start_le [OF assms(1,2), of "Suc ?i"] by linarith
qed

section \<open>Ranks in 64 bits\<close>

text \<open>\<open>quantiles\<close> in unbounded integers.\<close>

definition order_stats :: "('a \<Rightarrow> int) \<Rightarrow> 'a list \<Rightarrow> nat \<Rightarrow> 'a list" where
  "order_stats key pool q =
     (let pool = sort_key key pool
      in if length pool \<le> q then pool
         else map (\<lambda>k. pool ! ((2 * k + 1) * length pool div (2 * q))) [0..<q])"

lemma those_map: "(\<And>x. x \<in> set xs \<Longrightarrow> f x = Some (g x)) \<Longrightarrow> those (map f xs) = Some (map g xs)"
  by (induction xs) auto

lemma mid_rank_exact:
  assumes "0 < W" and "k < q" and "q < n" and "(2 * int q - 1) * int n < 2 ^ (W - 1)"
  shows "mid_rank W q n k = int ((2 * k + 1) * n div (2 * q))" and "(2 * k + 1) * n div (2 * q) < n"
proof -
  have n: "2 \<le> int n" and q: "1 \<le> int q" using assms(2,3) by auto
  have le: "(2 * int k + 1) * int n \<le> (2 * int q - 1) * int n" using assms(2) by (intro mult_right_mono) auto
  have k: "(2 * int k + 1) * 1 \<le> (2 * int k + 1) * int n" using n by (intro mult_left_mono) auto
  have qq: "(2 * int q - 1) * 2 \<le> (2 * int q - 1) * int n" using n q by (intro mult_left_mono) auto
  have w: "wrap W i = i" if "0 \<le> i" "i < 2 ^ (W - 1)" for i
    using that assms(1) by (intro wrap_id) (auto intro: order_trans [of _ 0])
  have k1: "2 * int k + 1 < 2 ^ (W - 1)" using le_less_trans [OF order_trans [OF k le] assms(4)] by simp
  have q1: "2 * int q < 2 ^ (W - 1)" 
  proof -
    have "2 * int q \<le> (2 * int q - 1) * 2" using q by simp
    then show ?thesis using le_less_trans [OF order_trans [OF _ qq] assms(4)] by blast
  qed
  have "wrap W (2 * int k + 1) = 2 * int k + 1" by (rule w) (use k1 in simp_all)
  moreover have "wrap W ((2 * int k + 1) * int n) = (2 * int k + 1) * int n" by (rule w) (use le_less_trans [OF le assms(4)] in simp_all)
  moreover have "wrap W (2 * int q) = 2 * int q" by (rule w) (use q1 in simp_all)
  ultimately have "mid_rank W q n k = (2 * int k + 1) * int n div (2 * int q)"
    using q by (simp add: mid_rank_def go_div_nonneg)
  then show "mid_rank W q n k = int ((2 * k + 1) * n div (2 * q))" by (simp add: zdiv_int algebra_simps)
  have "(2 * k + 1) * n < 2 * q * n" using assms(2,3) by (intro mult_strict_right_mono) auto
  then show "(2 * k + 1) * n div (2 * q) < n" by (simp add: less_mult_imp_div_less mult.commute)
qed

lemma quantiles_exact:
  assumes "0 < W" and "(2 * int q - 1) * int (length pool) < 2 ^ (W - 1)"
  shows "quantiles W key pool q = Some (order_stats key pool q)"
proof (cases "length pool \<le> q")
  case False
  have "slice_at (sort_key key pool) (mid_rank W q (length pool) k) =
      Some (sort_key key pool ! ((2 * k + 1) * length pool div (2 * q)))" if "k < q" for k
    using mid_rank_exact [OF assms(1) that _ assms(2)] False by (simp add: slice_at_def)
  then have "those (map (\<lambda>k. slice_at (sort_key key pool) (mid_rank W q (length pool) k)) [0..<q]) =
      Some (map (\<lambda>k. sort_key key pool ! ((2 * k + 1) * length pool div (2 * q))) [0..<q])"
    by (intro those_map) simp
  then show ?thesis using False by (simp add: quantiles_def order_stats_def)
qed (simp add: quantiles_def order_stats_def)

text \<open>What a column may hold fits: 511 times twenty million is below the 63 bits.\<close>

lemma quantiles_64: "length pool \<le> maxSamplesPerRead \<Longrightarrow> quantiles 64 key pool ColumnQuantiles = Some (order_stats key pool ColumnQuantiles)"
  by (rule quantiles_exact) (simp_all add: ColumnQuantiles_def maxSamplesPerRead_def)

definition closed :: "pooler \<Rightarrow> pooler" where
  "closed p =
     (case po_cur p of
        None \<Rightarrow> p
      | Some c \<Rightarrow> p\<lparr>po_out := po_out p @ [c\<lparr>co_Quantiles := order_stats uint (po_pool p) ColumnQuantiles\<rparr>],
                   po_outIdx := po_outIdx p @ [po_idx p], po_cur := None, po_pool := []\<rparr>)"

lemma pool_close_64: "length (po_pool p) \<le> maxSamplesPerRead \<Longrightarrow> pool_close 64 p = Some (closed p)"
  by (simp add: pool_close_def closed_def quantiles_64 split: option.split)

text \<open>The probes of the intervals are few enough for 64 bits.\<close>

definition sums_fit :: "measurement list \<Rightarrow> bool" where
  "sums_fit ms \<longleftrightarrow> sum_list (map m_Sent ms) < 2 ^ 63 \<and> sum_list (map m_Received ms) < 2 ^ 63"

lemma sums_fit_prefix: "sums_fit (ms @ xs) \<Longrightarrow> sums_fit ms"
  by (simp add: sums_fit_def)

lemma wrap_64: "0 \<le> i \<Longrightarrow> i < 2 ^ 63 \<Longrightarrow> wrap 64 i = i"
  by (rule wrap_id) auto

lemma count_exact:
  assumes "sums_fit (ms @ [m])" and "0 \<le> co_Sent c" and "co_Sent c \<le> int (sum_list (map m_Sent ms))"
    and "0 \<le> co_Received c" and "co_Received c \<le> int (sum_list (map m_Received ms))"
  shows "co_Sent (count_in 64 m c) = co_Sent c + int (m_Sent m)"
    "co_Received (count_in 64 m c) = co_Received c + int (m_Received m)"
proof -
  have "wrap 64 (co_Sent c + int (m_Sent m)) = co_Sent c + int (m_Sent m)"
    "wrap 64 (co_Received c + int (m_Received m)) = co_Received c + int (m_Received m)"
    using assms by (auto simp: sums_fit_def intro!: wrap_64)
  then show "co_Sent (count_in 64 m c) = co_Sent c + int (m_Sent m)"
    "co_Received (count_in 64 m c) = co_Received c + int (m_Received m)" by (simp_all add: count_in_def Let_def)
qed

section \<open>Pooling loses nothing\<close>

definition pooled_columns :: "pooler \<Rightarrow> column list" where
  "pooled_columns p = po_out p @ (case po_cur p of None \<Rightarrow> [] | Some c \<Rightarrow> [c])"

definition columns_sum :: "(column \<Rightarrow> 'a::comm_monoid_add) \<Rightarrow> pooler \<Rightarrow> 'a" where
  "columns_sum f p = sum_list (map f (pooled_columns p))"

text \<open>
  After the intervals \<open>ms\<close> of the window: the columns have counted them all, no index is skipped over
  backwards, and every column's bounds are those of its index.
\<close>

definition col_ok :: "int \<Rightarrow> int \<Rightarrow> nat \<Rightarrow> column \<Rightarrow> u64 \<Rightarrow> bool" where
  "col_ok frm to n c i \<longleftrightarrow> unat i < n \<and> co_From c = word_of_int (col_start frm to n (unat i)) \<and>
     co_To c = word_of_int (col_start frm to n (Suc (unat i)))"

definition pool_inv :: "int \<Rightarrow> int \<Rightarrow> nat \<Rightarrow> measurement list \<Rightarrow> pooler \<Rightarrow> bool" where
  "pool_inv frm to n ms p \<longleftrightarrow> same_window p (window_of frm to n) \<and>
     columns_sum co_Rounds p = length ms \<and> columns_sum co_Sent p = int (sum_list (map m_Sent ms)) \<and>
     columns_sum co_Received p = int (sum_list (map m_Received ms)) \<and>
     (\<forall>c \<in> set (pooled_columns p). 0 \<le> co_Sent c \<and> 0 \<le> co_Received c) \<and> length (po_pool p) \<le> maxSamplesPerRead \<and>
     columns_sum co_Flagged p = length (filter (\<lambda>m. m_Flags m \<noteq> 0) ms) \<and>
     length (po_out p) = length (po_outIdx p) \<and>
     list_all2 (col_ok frm to n) (po_out p) (po_outIdx p) \<and>
     (case po_cur p of None \<Rightarrow> ms = [] \<and> po_outIdx p = []
      | Some c \<Rightarrow> col_ok frm to n c (po_idx p) \<and> ms \<noteq> [] \<and>
          unat (po_idx p) = col_index frm to n (m_TS (last ms)) \<and>
          sorted_wrt (<) (po_outIdx p @ [po_idx p]))"

lemma pool_inv_new: "pool_inv frm to n [] (window_of frm to n)"
  by (simp add: pool_inv_def window_of_def newPooler_def same_window_def columns_sum_def pooled_columns_def)

lemma count_in_simps [simp]:
  "co_Rounds (count_in W m c) = Suc (co_Rounds c)" "co_From (count_in W m c) = co_From c" "co_To (count_in W m c) = co_To c"
  "co_Flagged (count_in W m c) = co_Flagged c + (if m_Flags m \<noteq> 0 then 1 else 0)"
  by (simp_all add: count_in_def Let_def)

lemma current_bounds:
  assumes "pool_inv frm to n ms p" and "po_cur p = Some c"
  shows "0 \<le> co_Sent c" "co_Sent c \<le> int (sum_list (map m_Sent ms))"
    "0 \<le> co_Received c" "co_Received c \<le> int (sum_list (map m_Received ms))"
proof -
  have nn: "0 \<le> sum_list (map co_Sent (po_out p))" "0 \<le> sum_list (map co_Received (po_out p))"
    using assms by (auto simp: pool_inv_def pooled_columns_def intro!: sum_list_nonneg)
  show "0 \<le> co_Sent c" "co_Sent c \<le> int (sum_list (map m_Sent ms))"
    "0 \<le> co_Received c" "co_Received c \<le> int (sum_list (map m_Received ms))"
    using assms nn unfolding pool_inv_def columns_sum_def pooled_columns_def by simp_all
qed

lemma col_index_mono: "window_ok frm to n \<Longrightarrow> frm \<le> s \<Longrightarrow> s \<le> t \<Longrightarrow> col_index frm to n s \<le> col_index frm to n t"
  unfolding col_index_def by (intro div_le_mono mult_le_mono1) simp

lemma pool_add_inv [invariants]:
  assumes w: "window_ok frm to n" and inv: "pool_inv frm to n ms p" and fit: "sums_fit (ms @ [m])"
    and ts: "frm \<le> m_TS m" "m_TS m < to" and order: "ms \<noteq> [] \<Longrightarrow> frm \<le> m_TS (last ms) \<and> m_TS (last ms) \<le> m_TS m"
  shows "(\<exists>p'. pool_add 64 p m = Inr p' \<and> pool_inv frm to n (ms @ [m]) p') \<or>
    pool_add 64 p m = Inl (PoolStore (tooLarge ''samples in one column'' maxSamplesPerRead))"
proof -
  let ?w = "window_of frm to n" and ?i = "col_index frm to n (m_TS m)"
  have sw: "same_window p ?w" and close: "pool_close 64 p = Some (closed p)"
    using inv by (simp_all add: pool_inv_def pool_close_64)
  have sw': "same_window (closed p) ?w" using sw by (simp add: closed_def same_window_def split: option.split)
  note ce = column_of_exact [OF w ts]
  have n: "n < 2 ^ 63" using w by (simp add: window_ok_def)
  have i: "unat (word_of_nat ?i :: u64) = ?i" using ce(2) n by (intro unat_u64) simp
  have c: "column_of p (word_of_int (m_TS m)) = Some (word_of_nat ?i)"
    using ce same_window_index(1) [OF sw] by simp
  have s: "start_of (closed p) (word_of_nat ?i) = Some (word_of_int (col_start frm to n ?i))"
    "start_of (closed p) (word_of_nat ?i + 1) = Some (word_of_int (col_start frm to n (Suc ?i)))"
    using start_of_exact [OF w, of ?i] start_of_exact [OF w, of "Suc ?i"] ce(2) same_window_index(2) [OF sw']
    by (simp_all add: add.commute)
  show ?thesis
  proof (cases "po_cur p = None \<or> word_of_nat ?i \<noteq> po_idx p")
    case True
    let ?e = "empty_column (word_of_int (col_start frm to n ?i)) (word_of_int (col_start frm to n (Suc ?i)))"
    let ?p = "(closed p)\<lparr>po_idx := word_of_nat ?i, po_cur := Some (count_in 64 m ?e)\<rparr>"
    have less: "po_idx p < word_of_nat ?i" if "po_cur p \<noteq> None"
    proof -
      from that obtain d where d: "po_cur p = Some d" by blast
      then have u: "unat (po_idx p) = col_index frm to n (m_TS (last ms))" "ms \<noteq> []"
        using inv by (auto simp: pool_inv_def)
      then have "unat (po_idx p) \<le> ?i" using col_index_mono [OF w] order by simp
      moreover have "unat (po_idx p) \<noteq> ?i" using True d i by (auto simp: word_unat_eq_iff)
      ultimately show ?thesis by (simp add: word_less_nat_alt i)
    qed
    have e: "co_Sent (count_in 64 m ?e) = int (m_Sent m)" "co_Received (count_in 64 m ?e) = int (m_Received m)"
      using count_exact [OF fit, of ?e] by (simp_all add: empty_column_def)
    have inv': "pool_inv frm to n (ms @ [m]) (?p\<lparr>po_pool := q\<rparr>)" if "length q \<le> maxSamplesPerRead" for q
      using inv less ce(2) i that e
      by (cases "po_cur p")
        (auto simp: pool_inv_def closed_def same_window_def columns_sum_def pooled_columns_def col_ok_def
          sorted_wrt_append list_all2_append empty_column_def dest: less_trans)
    have "pool_add 64 p m = (if length (po_pool ?p) + length (m_Samples m) > maxSamplesPerRead
        then Inl (PoolStore (tooLarge ''samples in one column'' maxSamplesPerRead))
        else Inr (?p\<lparr>po_pool := po_pool ?p @ m_Samples m\<rparr>))"
      using True by (simp add: pool_add_def c s close orPanic_def Let_def)
    then show ?thesis using inv' by auto
  next
    case False
    then obtain d where d: "po_cur p = Some d" "word_of_nat ?i = po_idx p" by (cases "po_cur p") auto
    let ?p = "p\<lparr>po_cur := Some (count_in 64 m d)\<rparr>"
    note b = current_bounds [OF inv d(1)]
    note e = count_exact [OF fit b]
    have inv': "pool_inv frm to n (ms @ [m]) (?p\<lparr>po_pool := q\<rparr>)" if "length q \<le> maxSamplesPerRead" for q
      using inv d i that e b by (auto simp: pool_inv_def same_window_def columns_sum_def pooled_columns_def col_ok_def)
    have "pool_add 64 p m = (if length (po_pool ?p) + length (m_Samples m) > maxSamplesPerRead
        then Inl (PoolStore (tooLarge ''samples in one column'' maxSamplesPerRead))
        else Inr (?p\<lparr>po_pool := po_pool ?p @ m_Samples m\<rparr>))"
      using d by (simp add: pool_add_def c orPanic_def Let_def)
    then show ?thesis using inv' by auto
  qed
qed

lemma pool_all_inv:
  assumes w: "window_ok frm to n"
  shows "pool_inv frm to n ms p \<Longrightarrow> sums_fit (ms @ xs) \<Longrightarrow> sorted (map m_TS (ms @ xs)) \<Longrightarrow> \<forall>m \<in> set (ms @ xs). frm \<le> m_TS m \<and> m_TS m < to \<Longrightarrow>
    (\<exists>p'. pool_all 64 xs p = Inr p' \<and> pool_inv frm to n (ms @ xs) p') \<or>
    pool_all 64 xs p = Inl (PoolStore (tooLarge ''samples in one column'' maxSamplesPerRead))"
proof (induction xs arbitrary: ms p)
  case (Cons x xs)
  have fit: "sums_fit (ms @ [x])" "sums_fit ((ms @ [x]) @ xs)"
    using Cons.prems(2) sums_fit_prefix [of "ms @ [x]" xs] by simp_all
  have o1: "ms \<noteq> [] \<Longrightarrow> frm \<le> m_TS (last ms) \<and> m_TS (last ms) \<le> m_TS x"
    using Cons.prems(3,4) by (auto simp: sorted_append)
  have x: "frm \<le> m_TS x" "m_TS x < to" using Cons.prems(4) by auto
  from pool_add_inv [OF w Cons.prems(1) fit(1) x o1] show ?case
  proof
    assume "\<exists>p'. pool_add 64 p x = Inr p' \<and> pool_inv frm to n (ms @ [x]) p'"
    then obtain p' where p': "pool_add 64 p x = Inr p'" "pool_inv frm to n (ms @ [x]) p'" by blast
    from Cons.IH [OF p'(2) fit(2)] Cons.prems(3,4) p'(1) show ?thesis by simp
  next
    assume "pool_add 64 p x = Inl (PoolStore (tooLarge ''samples in one column'' maxSamplesPerRead))"
    then show ?thesis by simp
  qed
qed simp

text \<open>The whole loop over rows that decode: raw as long as they fit, then columns.\<close>

lemma column_rows_result:
  assumes w: "window_ok frm to n"
  defines "result \<equiv> \<lambda>rows r. (\<exists>raw p rd. r = Inr (raw, p, rd) \<and>
      (case p of None \<Rightarrow> raw = map decoded rows \<and> length raw \<le> n
       | Some p \<Rightarrow> pool_inv frm to n (map decoded rows) p)) \<or> (\<exists>what lim. r = Inl (PoolStore (ErrRangeTooLarge what lim)))"
  shows "list_all row_ok (past @ rows) \<Longrightarrow> sums_fit (map decoded (past @ rows)) \<Longrightarrow> sorted (map mr_ts (past @ rows)) \<Longrightarrow>
    \<forall>r \<in> set (past @ rows). frm \<le> mr_ts r \<and> mr_ts r < to \<Longrightarrow>
    (case p of None \<Rightarrow> raw = map decoded past \<and> length raw \<le> n | Some p \<Rightarrow> pool_inv frm to n (map decoded past) p) \<Longrightarrow>
    result (past @ rows) (column_rows 64 (word_of_int frm) (word_of_int to) n rd samples raw p rows)"
proof (induction rows arbitrary: past rd samples raw p)
  case Nil
  then show ?case by (simp add: result_def)
next
  case (Cons r rows)
  from Cons.prems(1) obtain xs where xs: "Decode (mr_samples r) = Inr xs" by (auto simp: row_ok_def)
  then have d: "measurement_of r xs = decoded r" by (simp add: decoded_def)
  have past: "list_all row_ok ((past @ [r]) @ rows)" "sums_fit (map decoded ((past @ [r]) @ rows))" "sorted (map mr_ts ((past @ [r]) @ rows))"
    "\<forall>q \<in> set ((past @ [r]) @ rows). frm \<le> mr_ts q \<and> mr_ts q < to" using Cons.prems(1-4) by auto
  note IH = Cons.IH [OF past]
  have so: "sorted (map m_TS (map decoded past @ [decoded r]))"
    "\<forall>m \<in> set (map decoded past @ [decoded r]). frm \<le> m_TS m \<and> m_TS m < to"
    using Cons.prems(3,4) by (auto simp: comp_def sorted_append)
  have fit: "sums_fit (map decoded past @ [decoded r])"
    using Cons.prems(2) sums_fit_prefix [of "map decoded past @ [decoded r]" "map decoded rows"] by simp
  show ?case
  proof (cases "rd + 1 > maxPooledRows")
    case True
    then show ?thesis by (auto simp: result_def tooLarge_def)
  next
    case False
    show ?thesis
    proof (cases p)
      case (Some q)
      then have inv: "pool_inv frm to n (map decoded past) q" using Cons.prems(5) by simp
      from pool_all_inv [OF w inv fit so] have "(\<exists>q'. pool_add 64 q (decoded r) = Inr q' \<and> pool_inv frm to n (map decoded (past @ [r])) q') \<or>
          pool_add 64 q (decoded r) = Inl (PoolStore (tooLarge ''samples in one column'' maxSamplesPerRead))"
        by (auto simp: rbind_Inr_iff rbind_Inl_iff)
      then show ?thesis
      proof
        assume "\<exists>q'. pool_add 64 q (decoded r) = Inr q' \<and> pool_inv frm to n (map decoded (past @ [r])) q'"
        then obtain q' where "pool_add 64 q (decoded r) = Inr q'" "pool_inv frm to n (map decoded (past @ [r])) q'" by blast
        with IH [where p = "Some q'" and raw = raw and rd = "rd + 1" and samples = samples] show ?thesis using False Some xs by (simp add: d Let_def)
      next
        assume "pool_add 64 q (decoded r) = Inl (PoolStore (tooLarge ''samples in one column'' maxSamplesPerRead))"
        then show ?thesis using False Some xs by (auto simp: d Let_def result_def tooLarge_def)
      qed
    next
      case None
      then have raw: "raw = map decoded past" using Cons.prems(5) by simp
      let ?raw = "map decoded (past @ [r])"
      show ?thesis
      proof (cases "length ?raw > n \<or> wrap 64 (samples + int (m_Received (decoded r))) > int maxSamplesPerRead")
        case True
        have "pool_inv frm to n [] (newPooler (word_of_int frm) (word_of_int to) n)"
          using pool_inv_new [of frm to n] by (simp add: window_of_def)
        from pool_all_inv [OF w this, of ?raw] so fit
        have "(\<exists>q'. pool_all 64 ?raw (newPooler (word_of_int frm) (word_of_int to) n) = Inr q' \<and> pool_inv frm to n ?raw q') \<or>
          pool_all 64 ?raw (newPooler (word_of_int frm) (word_of_int to) n) =
            Inl (PoolStore (tooLarge ''samples in one column'' maxSamplesPerRead))" by simp
        then show ?thesis
        proof
          assume "\<exists>q'. pool_all 64 ?raw (newPooler (word_of_int frm) (word_of_int to) n) = Inr q' \<and> pool_inv frm to n ?raw q'"
          then obtain q' where q: "pool_all 64 ?raw (newPooler (word_of_int frm) (word_of_int to) n) = Inr q'"
            "pool_inv frm to n ?raw q'" by blast
          with IH [where p = "Some q'" and raw = "[]" and rd = "rd + 1" and samples = "wrap 64 (samples + int (m_Received (decoded r)))"] show ?thesis
            using False None xs True raw by (simp add: d Let_def del: pool_all.simps)
        next
          assume "pool_all 64 ?raw (newPooler (word_of_int frm) (word_of_int to) n) =
            Inl (PoolStore (tooLarge ''samples in one column'' maxSamplesPerRead))"
          then show ?thesis using False None xs True raw
            by (auto simp: d Let_def result_def tooLarge_def simp del: pool_all.simps)
        qed
      next
        case small: False
        with IH [where p = None and raw = ?raw and rd = "rd + 1" and samples = "wrap 64 (samples + int (m_Received (decoded r)))"] show ?thesis
          using False None xs raw by (simp add: d Let_def)
      qed
    qed
  qed
qed

text \<open>Pooling the extra series changes nothing else of the columns and cannot panic.\<close>

definition bare :: "column \<Rightarrow> column" where
  "bare c = c\<lparr>co_Series := (\<lambda>_. None)\<rparr>"

lemma bare_simps [simp]:
  "co_Rounds (bare c) = co_Rounds c" "co_Sent (bare c) = co_Sent c" "co_Received (bare c) = co_Received c"
  "co_Flagged (bare c) = co_Flagged c" "co_From (bare c) = co_From c" "co_To (bare c) = co_To c"
  by (simp_all add: bare_def)

text \<open>No pool is larger than a column may hold, so no rank is wrong.\<close>

definition pools_ok :: "series_state \<Rightarrow> bool" where
  "pools_ok st \<longleftrightarrow> (\<forall>np \<in> set (se_pools st). length (snd np) \<le> maxSamplesPerRead)"

lemma flush_bare:
  assumes "pools_ok st"
  obtains st' where "flush 64 st = Some st'" "map bare (se_cols st') = map bare (se_cols st)" "pools_ok st'"
proof (cases "se_j st")
  case (Some j)
  have u: "map bare ((se_cols st)[j := (se_cols st ! j)\<lparr>co_Series := f\<rparr>]) = map bare (se_cols st)" for f
  proof (cases "j < length (se_cols st)")
    case True
    then have "bare ((se_cols st ! j)\<lparr>co_Series := f\<rparr>) = map bare (se_cols st) ! j" by (simp add: bare_def)
    then show ?thesis by (simp only: map_update list_update_id)
  qed (simp add: list_update_beyond)
  have "those (map (\<lambda>(name, pool). map_option (Pair name) (quantiles 64 sint pool ColumnQuantiles)) (se_pools st)) =
      Some (map (\<lambda>(name, pool). (name, order_stats sint pool ColumnQuantiles)) (se_pools st))"
    using assms by (intro those_map) (auto simp: pools_ok_def quantiles_64)
  then show ?thesis using that u Some by (simp add: flush_def Let_def pools_ok_def)
qed (use that assms in \<open>simp add: flush_def\<close>)

lemma enter_column_bare:
  assumes "pools_ok st"
  obtains st' where "enter_column 64 p i st = Some st'" "map bare (se_cols st') = map bare (se_cols st)" "pools_ok st'"
proof -
  obtain st' where "flush 64 st = Some st'" "map bare (se_cols st') = map bare (se_cols st)" "pools_ok st'"
    using flush_bare [OF assms] .
  then show ?thesis using that assms by (cases "\<not> se_started st \<or> i \<noteq> se_cur st") (auto simp: enter_column_def Let_def pools_ok_def)
qed

lemma update_subset: "set (AList.update k v al) \<subseteq> insert (k, v) (set al)"
  by (induction al) auto

lemma pools_ok_update:
  "pools_ok st \<Longrightarrow> length pool \<le> maxSamplesPerRead \<Longrightarrow> pools_ok (st\<lparr>se_pools := AList.update name pool (se_pools st)\<rparr>)"
  using update_subset [of name pool "se_pools st"] by (fastforce simp: pools_ok_def)

lemma series_rows_bare:
  assumes w: "window_ok frm to n" and sw: "same_window p (window_of frm to n)"
  shows "\<forall>r \<in> set rs. frm \<le> sr_ts r \<and> sr_ts r < to \<Longrightarrow> pools_ok st \<Longrightarrow>
    (\<exists>st'. series_rows 64 p rd st rs = Inr st' \<and> map bare (se_cols st') = map bare (se_cols st) \<and> pools_ok st') \<or>
    (\<exists>what lim. series_rows 64 p rd st rs = Inl (PoolStore (ErrRangeTooLarge what lim)))"
proof (induction rs arbitrary: rd st)
  case (Cons r rs)
  have "frm \<le> sr_ts r" "sr_ts r < to" using Cons.prems(1) by auto
  from column_of_exact(1) [OF w this] obtain i where i: "column_of p (word_of_int (sr_ts r)) = Some i"
    using same_window_index(1) [OF sw] by auto
  obtain e where e: "enter_column 64 p i st = Some e" "map bare (se_cols e) = map bare (se_cols st)" "pools_ok e"
    using enter_column_bare [OF Cons.prems(2)] .
  have rs: "\<forall>r \<in> set rs. frm \<le> sr_ts r \<and> sr_ts r < to" using Cons.prems(1) by simp
  note IH = Cons.IH [OF rs]
  show ?case
  proof (cases "rd + 1 > maxPooledRows")
    case False
    show ?thesis
    proof (cases "se_j e")
      case None
      then show ?thesis using IH [OF e(3), of "rd + 1"] e(2) False by (simp add: i e(1) orPanic_def Let_def)
    next
      case (Some j)
      show ?thesis
      proof (cases "DecodeSigned (sr_samples r)")
        case (Inl err)
        then show ?thesis using IH [OF e(3), of "rd + 1"] e(2) False Some by (simp add: i e(1) orPanic_def Let_def)
      next
        case (Inr vals)
        define pool where "pool = (case map_of (se_pools e) (sr_series r) of None \<Rightarrow> [] | Some xs \<Rightarrow> xs)"
        show ?thesis
        proof (cases "length pool + length vals > maxSamplesPerRead")
          case True
          then show ?thesis using False Some Inr by (simp add: i e(1) orPanic_def Let_def tooLarge_def flip: pool_def)
        next
          case fits: False
          let ?e = "e\<lparr>se_pools := AList.update (sr_series r) (pool @ vals) (se_pools e)\<rparr>"
          have "pools_ok ?e" using e(3) fits by (intro pools_ok_update) simp_all
          then show ?thesis using IH [of ?e "rd + 1"] e(2) False Some Inr fits by (simp add: i e(1) orPanic_def Let_def flip: pool_def)
        qed
      qed
    qed
  qed (simp add: tooLarge_def)
qed simp

lemma poolSeries_bare:
  assumes "window_ok frm to n" and "same_window p (window_of frm to n)"
  shows "(\<exists>cols'. poolSeries 64 db tid aid frm to p cols rd = Inr cols' \<and> map bare cols' = map bare cols) \<or>
    (\<exists>what lim. poolSeries 64 db tid aid frm to p cols rd = Inl (PoolStore (ErrRangeTooLarge what lim)))"
proof -
  let ?st = "\<lparr>se_j = None, se_k = 0, se_cur = 0, se_started = False, se_pools = [], se_cols = cols\<rparr>"
  have rs: "\<forall>r \<in> set (select_series db tid aid frm to). frm \<le> sr_ts r \<and> sr_ts r < to" by (auto simp: set_select)
  have ok: "pools_ok ?st" by (simp add: pools_ok_def)
  from series_rows_bare [OF assms rs ok, of rd] show ?thesis
  proof
    assume "\<exists>st'. series_rows 64 p rd ?st (select_series db tid aid frm to) = Inr st' \<and>
      map bare (se_cols st') = map bare (se_cols ?st) \<and> pools_ok st'"
    then obtain st' where st': "series_rows 64 p rd ?st (select_series db tid aid frm to) = Inr st'"
      "map bare (se_cols st') = map bare cols" "pools_ok st'" by auto
    obtain s2 where "flush 64 st' = Some s2" "map bare (se_cols s2) = map bare (se_cols st')" using flush_bare [OF st'(3)] .
    then show ?thesis using st' by (simp add: poolSeries_def orPanic_def)
  qed (auto simp: poolSeries_def)
qed

definition tiled :: "column list \<Rightarrow> bool" where
  "tiled cols \<longleftrightarrow> sorted_wrt (\<lambda>c d. sint (co_To c) \<le> sint (co_From d)) cols"

lemma col_start_mono: "window_ok frm to n \<Longrightarrow> i \<le> j \<Longrightarrow> col_start frm to n i \<le> col_start frm to n j"
proof -
  assume w: "window_ok frm to n" and "i \<le> j"
  let ?s = "nat (to - frm)"
  have n: "0 < n" using w by (simp add: window_ok_def)
  have "i * ?s \<le> j * ?s" using \<open>i \<le> j\<close> by simp
  also have "j * ?s \<le> cdiv (j * ?s) n * n" using cdiv_le_iff [OF n, of "j * ?s" "cdiv (j * ?s) n"] by simp
  finally show ?thesis using cdiv_le_iff [OF n] by (simp add: col_start_def)
qed

lemma sint_col_start: "window_ok frm to n \<Longrightarrow> i \<le> n \<Longrightarrow> sint (word_of_int (col_start frm to n i) :: i64) = col_start frm to n i"
  using col_start_mono [of frm to n 0 i] col_start_mono [of frm to n i n] col_start_ends [of frm to n]
  by (intro sint_i64) (auto simp: window_ok_def i64_range_def)

lemma tiled_columns:
  assumes w: "window_ok frm to n" and "list_all2 (col_ok frm to n) cols idx" and "sorted_wrt (<) idx"
  shows "tiled cols \<and> length cols \<le> n"
proof -
  have len: "length cols = length idx" and ok: "\<And>k. k < length cols \<Longrightarrow> col_ok frm to n (cols ! k) (idx ! k)"
    using assms(2) by (auto simp: list_all2_conv_all_nth)
  have "sint (co_To (cols ! k)) \<le> sint (co_From (cols ! l))" if kl: "k < l" "l < length cols" for k l
  proof -
    have "idx ! k < idx ! l" using assms(3) kl len by (simp add: sorted_wrt_nth_less)
    then have "Suc (unat (idx ! k)) \<le> unat (idx ! l)" by (simp add: word_less_nat_alt Suc_le_eq)
    moreover have "col_ok frm to n (cols ! k) (idx ! k)" "col_ok frm to n (cols ! l) (idx ! l)" using ok kl by auto
    ultimately show ?thesis
      using col_start_mono [OF w] sint_col_start [OF w] by (simp add: col_ok_def)
  qed
  then have "tiled cols" by (simp add: tiled_def sorted_wrt_iff_nth_less)
  moreover have "length idx \<le> n"
  proof -
    have "distinct (map unat idx)" using assms(3) by (simp add: distinct_map strict_sorted_iff inj_on_def word_unat_eq_iff)
    moreover have "set (map unat idx) \<subseteq> {..<n}" using ok len by (auto simp: col_ok_def in_set_conv_nth)
    ultimately show ?thesis by (metis card_lessThan card_mono distinct_card finite_lessThan length_map)
  qed
  ultimately show ?thesis using len by simp
qed

lemma closed_sums:
  "columns_sum co_Rounds (closed p) = columns_sum co_Rounds p" "columns_sum co_Sent (closed p) = columns_sum co_Sent p"
  "columns_sum co_Received (closed p) = columns_sum co_Received p" "columns_sum co_Flagged (closed p) = columns_sum co_Flagged p"
  "po_cur (closed p) = None" "same_window (closed p) q = same_window p q"
  by (simp_all add: closed_def columns_sum_def pooled_columns_def same_window_def split: option.split)

lemma closed_tiled:
  "window_ok frm to n \<Longrightarrow> pool_inv frm to n ms p \<Longrightarrow> tiled (po_out (closed p)) \<and> length (po_out (closed p)) \<le> n"
proof (rule tiled_columns)
  assume "pool_inv frm to n ms p"
  then show "list_all2 (col_ok frm to n) (po_out (closed p)) (po_outIdx (closed p))"
    and "sorted_wrt (<) (po_outIdx (closed p))"
    by (auto simp: pool_inv_def closed_def col_ok_def list_all2_append split: option.splits)
qed

lemma columns_sum_bare:
  "map bare cols' = map bare cols \<Longrightarrow> (\<And>c. f (bare c) = f c) \<Longrightarrow> sum_list (map f cols') = sum_list (map f cols)"
  by (metis (mono_tags, lifting) comp_apply map_eq_conv map_map)

lemma tiled_bare: "map bare cols' = map bare cols \<Longrightarrow> tiled cols' = tiled cols"
proof -
  have "tiled (map bare cs) = tiled cs" for cs by (simp add: tiled_def sorted_wrt_map bare_def)
  then show "map bare cols' = map bare cols \<Longrightarrow> tiled cols' = tiled cols" by metis
qed

section \<open>Properties\<close>

text \<open>
  Further property. The columns cut the window exactly: for any window and number of columns, also those
  whose product overflows 64 bits, the index of a second in the window is the exact floor of
  (ts - from) n / (to - from), below n and never a panic; the second lies in the half-open span
  from the start of its column to the start of the next, the first column starts at the window's
  start and the last ends at its end.
\<close>

theorem columns_tile_window:
  assumes "window_ok frm to n" and "frm \<le> ts" and "ts < to"
  shows "\<exists>i s e. column_of (window_of frm to n) (word_of_int ts) = Some i \<and>
    unat i = nat (ts - frm) * n div nat (to - frm) \<and> unat i < n \<and>
    start_of (window_of frm to n) i = Some s \<and> start_of (window_of frm to n) (i + 1) = Some e \<and>
    sint s \<le> ts \<and> ts < sint e \<and>
    start_of (window_of frm to n) 0 = Some (word_of_int frm) \<and>
    start_of (window_of frm to n) (word_of_nat n) = Some (word_of_int to)"
proof -
  let ?i = "col_index frm to n ts"
  note ce = column_of_exact [OF assms] and st = start_of_exact [OF assms(1)]
  have n: "n < 2 ^ 63" using assms(1) by (simp add: window_ok_def)
  then have i: "unat (word_of_nat ?i :: u64) = ?i" using ce(2) by (intro unat_u64) simp
  have s1: "start_of (window_of frm to n) (word_of_nat ?i) = Some (word_of_int (col_start frm to n ?i))"
    by (rule st) (use ce(2) in simp)
  have s2: "start_of (window_of frm to n) (word_of_nat ?i + 1) = Some (word_of_int (col_start frm to n (Suc ?i)))"
    using st [of "Suc ?i"] ce(2) by (simp add: add.commute)
  show ?thesis
  proof (intro exI conjI)
    show "unat (word_of_nat ?i :: u64) = nat (ts - frm) * n div nat (to - frm)" using i by (simp add: col_index_def)
    show "unat (word_of_nat ?i :: u64) < n" using i ce(2) by simp
    show "sint (word_of_int (col_start frm to n ?i) :: i64) \<le> ts"
      using in_column(1) [OF assms] sint_col_start [OF assms(1), of ?i] ce(2) by simp
    show "ts < sint (word_of_int (col_start frm to n (Suc ?i)) :: i64)"
      using in_column(2) [OF assms] sint_col_start [OF assms(1), of "Suc ?i"] ce(2) by simp
    show "start_of (window_of frm to n) 0 = Some (word_of_int frm)"
      using st [of 0] col_start_ends(1) [OF assms(1)] by simp
    show "start_of (window_of frm to n) (word_of_nat n) = Some (word_of_int to)"
      using st [of n] col_start_ends(2) [OF assms(1)] by simp
  qed (rule ce(1) s1 s2)+
qed

theorem columns_tile_window_witness:
  "\<exists>i. column_of (window_of (- 9223372036854775808) 9223372036854775807 1000) (word_of_int 0) = Some i \<and> unat i = 500"
proof -
  have w: "window_ok (- 9223372036854775808) 9223372036854775807 1000" by (simp add: window_ok_def i64_range_def)
  obtain i where "column_of (window_of (- 9223372036854775808) 9223372036854775807 1000) (word_of_int 0) = Some i"
    "unat i = nat (0 - - 9223372036854775808) * 1000 div nat (9223372036854775807 - - 9223372036854775808)"
    using columns_tile_window [OF w, of 0] by fastforce
  moreover have "nat (0 - - 9223372036854775808) * 1000 div nat (9223372036854775807 - - 9223372036854775808) = 500"
    by simp
  ultimately show ?thesis by metis
qed

text \<open>
  Further property. A pooled column shows measured samples: as long as 2q - 1 times the size of the pool fits an \<open>int\<close>,
  \<open>quantiles\<close> does not panic; its values are ascending and each is one of the
  pooled samples; all of them when they are at most \<open>q\<close>, otherwise \<open>q\<close> of them, of strictly
  increasing ranks, the k-th that of rank floor((2k+1) n / 2q), which is always a valid index.
\<close>

theorem quantiles_are_samples:
  assumes "0 < q" and "0 < W" and "(2 * int q - 1) * int (length pool) < 2 ^ (W - 1)"
  shows "\<exists>qs. quantiles W key pool q = Some qs \<and> sorted (map key qs) \<and> set qs \<subseteq> set pool \<and>
    length qs = min q (length pool) \<and> (length pool \<le> q \<longrightarrow> qs = sort_key key pool) \<and>
    (q < length pool \<longrightarrow> (\<forall>k<q. qs ! k = sort_key key pool ! ((2 * k + 1) * length pool div (2 * q)) \<and>
      (2 * k + 1) * length pool div (2 * q) < length pool \<and>
      (0 < k \<longrightarrow> (2 * k - 1) * length pool div (2 * q) < (2 * k + 1) * length pool div (2 * q))))"
proof (cases "length pool \<le> q")
  case False
  let ?n = "length pool"
  let ?r = "\<lambda>k. (2 * k + 1) * ?n div (2 * q)" and ?s = "sort_key key pool"
  have r: "?r k < ?n" if "k < q" for k using mid_rank_exact(2) [OF assms(2) that _ assms(3)] False by simp
  have up: "(2 * k - 1) * ?n div (2 * q) < (2 * k + 1) * ?n div (2 * q)" if "0 < k" for k
  proof -
    have "(2 * k + 1) * ?n = (2 * k - 1) * ?n + 2 * ?n" using that by (simp add: algebra_simps)
    then have "(2 * k - 1) * ?n + 2 * q \<le> (2 * k + 1) * ?n" using False by simp
    then have "((2 * k - 1) * ?n + 2 * q) div (2 * q) \<le> (2 * k + 1) * ?n div (2 * q)" by (rule div_le_mono)
    then show ?thesis using assms by simp
  qed
  have mono: "?r i \<le> ?r j" if "i \<le> j" for i j
    using that by (intro div_le_mono mult_le_mono1) simp
  let ?qs = "map (\<lambda>k. ?s ! ?r k) [0..<q]"
  have q: "quantiles W key pool q = Some ?qs"
    using quantiles_exact [OF assms(2,3), of key] False by (simp add: order_stats_def)
  have "sorted (map key ?qs)"
  proof (rule sorted_iff_nth_mono [THEN iffD2], intro allI impI)
    fix i j assume ij: "i \<le> j" "j < length (map key ?qs)"
    then have j: "j < q" by simp
    have "map key ?s ! ?r i \<le> map key ?s ! ?r j"
      using mono [OF ij(1)] r [OF j] by (intro sorted_nth_mono) auto
    then show "map key ?qs ! i \<le> map key ?qs ! j"
      using r [OF j] mono [OF ij(1)] ij(1) j by simp
  qed
  moreover have "set ?qs \<subseteq> set pool" using r nth_mem [of _ ?s] by auto
  ultimately show ?thesis using False q r up by (intro exI [of _ ?qs]) simp
qed (simp add: quantiles_def)

theorem quantiles_are_samples_witness: "\<exists>qs. quantiles 32 uint [9, 1, 5, 3 :: u32] 2 = Some qs \<and> set qs \<subseteq> {1, 3, 5, 9}"
  using quantiles_are_samples [of 2 32 "[9, 1, 5, 3 :: u32]" uint] by auto

text \<open>
  At 32 bits the product wraps well below what one column may hold: with five million samples the rank of the
  quantile 215 is negative, and a column of them ends the program.
\<close>

lemma quantiles_panic_32:
  assumes "length pool = 5000000"
  shows "quantiles 32 key pool ColumnQuantiles = None"
proof -
  have "mid_rank 32 256 5000000 215 = - 4179623" by (simp add: mid_rank_def wrap_def go_div_def)
  then have "slice_at (sort_key key pool) (mid_rank 32 256 5000000 215) = None" by (simp add: slice_at_def)
  moreover have none: "those (map f xs) = None" if "x \<in> set xs" "f x = None" for f :: "nat \<Rightarrow> 'a option" and x xs
    using that by (induction xs) (auto split: option.split)
  have "those (map (\<lambda>k. slice_at (sort_key key pool) (mid_rank 32 256 5000000 k)) [0..<256]) = None"
    by (rule none [of 215]) (use calculation in simp_all)
  then show ?thesis using assms by (simp add: quantiles_def ColumnQuantiles_def del: upt_rec_numeral)
qed

lemma column_panics_32:
  "po_cur p = Some c \<Longrightarrow> length (po_pool p) = 5000000 \<Longrightarrow> pool_finish 32 p = None \<and> length (po_pool p) \<le> maxSamplesPerRead"
  by (simp add: pool_finish_def pool_close_def quantiles_panic_32 maxSamplesPerRead_def)

text \<open>
  Property C19. A read for a plot loses no interval, where \<open>int\<close> has 64 bits: on consistent tables, if the probes and the replies of
  the stored intervals of the window are each fewer than 2 to the 63, \<open>QueryColumns\<close> either
  returns the intervals of the window as they are, at most n of them, or columns, at most n and
  each ending no later than the next begins, whose rounds, probes, replies and flagged
  intervals add up to those of every stored interval of the window, or says that the range
  is too large; it never panics, neither in the index arithmetic of the columns nor in the ranks of their
  quantiles, and never fails otherwise.
\<close>

theorem pooled_read_complete:
  fixes tid aid :: int
  assumes "db_ok db" and "window_ok frm to (nat n)" and "1 \<le> n"
    and "sum_list (map mr_sent (select_range db tid aid frm to)) < 2 ^ 63"
    and "sum_list (map mr_received (select_range db tid aid frm to)) < 2 ^ 63"
  shows "case QueryColumns 64 db tid aid frm to n of
      Inl e \<Rightarrow> \<exists>what lim. e = PoolStore (ErrRangeTooLarge what lim)
    | Inr (Raw ms) \<Rightarrow> map m_TS ms = map mr_ts (select_range db tid aid frm to) \<and> length ms \<le> nat n
    | Inr (Pooled cols) \<Rightarrow> length cols \<le> nat n \<and> tiled cols \<and>
        sum_list (map co_Rounds cols) = length (select_range db tid aid frm to) \<and>
        sum_list (map co_Sent cols) = int (sum_list (map mr_sent (select_range db tid aid frm to))) \<and>
        sum_list (map co_Received cols) = int (sum_list (map mr_received (select_range db tid aid frm to))) \<and>
        sum_list (map co_Flagged cols) = length (filter (\<lambda>r. mr_flags r \<noteq> 0) (select_range db tid aid frm to))"
proof -
  define rows where "rows = select_range db tid aid frm to"
  let ?r = "column_rows 64 (word_of_int frm) (word_of_int to) (nat n) 0 0 [] None rows"
  have rows: "list_all row_ok rows" "sorted (map mr_ts rows)" "\<forall>r \<in> set rows. frm \<le> mr_ts r \<and> mr_ts r < to"
    using assms(1) by (auto simp: rows_def db_ok_def list_all_iff set_select) (simp add: select_range_def)
  have m: "m_Sent (decoded r) = mr_sent r" "m_Received (decoded r) = mr_received r" "m_Flags (decoded r) = mr_flags r" for r
    by (simp_all add: decoded_def measurement_of_def)
  have fit: "sums_fit (map decoded rows)" using assms(4,5) by (simp add: sums_fit_def rows_def comp_def m)
  have Q: "QueryColumns 64 db tid aid frm to n = rbind ?r (\<lambda>(raw, p, rd). case p of
           Some p \<Rightarrow> rbind (orPanic (pool_finish 64 p)) (\<lambda>p.
             rbind (poolSeries 64 db tid aid frm to p (po_out p) rd) (\<lambda>cols. Inr (Pooled cols)))
         | None \<Rightarrow> (case attachSeries db tid aid frm to raw of
             Inl e \<Rightarrow> Inl (PoolStore e) | Inr ms \<Rightarrow> Inr (Raw ms)))"
    using assms(3) by (simp add: QueryColumns_def rows_def)
  from column_rows_result [OF assms(2), where past = "[]" and rows = rows and p = None and raw = "[]" and rd = 0 and samples = 0] rows fit consider
    (raw) rd where "?r = Inr (map decoded rows, None, rd)" "length rows \<le> nat n"
    | (pool) raw p rd where "?r = Inr (raw, Some p, rd)" "pool_inv frm to (nat n) (map decoded rows) p"
    | (big) what lim where "?r = Inl (PoolStore (ErrRangeTooLarge what lim))"
    by (auto split: option.splits) (metis not_None_eq)
  then show ?thesis
  proof cases
    case raw
    have "\<forall>r \<in> set (select_series db tid aid frm to). sr_ts r \<in> m_TS ` set (map decoded rows)"
      using series_have_rows [OF assms(1)] by (simp add: rows_def)
    from attach_all_total [OF this] obtain ms where
      "attachSeries db tid aid frm to (map decoded rows) = Inr ms" "map m_TS ms = map m_TS (map decoded rows)"
      by (auto simp: attachSeries_def)
    then show ?thesis using raw by (simp add: Q comp_def flip: rows_def) (metis length_map)
  next
    case pool
    let ?p = "closed p"
    have close: "pool_finish 64 p = Some ?p" using pool(2) by (simp add: pool_finish_def pool_inv_def pool_close_64)
    have "same_window ?p (window_of frm to (nat n))" using pool(2) by (simp add: pool_inv_def closed_sums)
    from poolSeries_bare [OF assms(2) this, of db tid aid "po_out ?p" rd] show ?thesis
    proof
      assume "\<exists>cols'. poolSeries 64 db tid aid frm to ?p (po_out ?p) rd = Inr cols' \<and> map bare cols' = map bare (po_out ?p)"
      then obtain cols where c: "poolSeries 64 db tid aid frm to ?p (po_out ?p) rd = Inr cols"
        "map bare cols = map bare (po_out ?p)" by blast
      have sums: "columns_sum f ?p = sum_list (map f (po_out ?p))" for f :: "column \<Rightarrow> 'a::comm_monoid_add"
        by (simp add: columns_sum_def pooled_columns_def closed_sums)
      have "sum_list (map co_Rounds cols) = columns_sum co_Rounds p" "sum_list (map co_Sent cols) = columns_sum co_Sent p"
        "sum_list (map co_Received cols) = columns_sum co_Received p" "sum_list (map co_Flagged cols) = columns_sum co_Flagged p"
        using columns_sum_bare [OF c(2), of co_Rounds] columns_sum_bare [OF c(2), of co_Sent]
          columns_sum_bare [OF c(2), of co_Received] columns_sum_bare [OF c(2), of co_Flagged]
        by (simp_all add: sums flip: closed_sums(1-4))
      moreover have "tiled cols \<and> length cols \<le> nat n"
        using closed_tiled [OF assms(2) pool(2)] tiled_bare [OF c(2)] c(2) by (metis length_map)
      ultimately show ?thesis
        using pool c close by (simp add: Q orPanic_def pool_inv_def comp_def filter_map m flip: rows_def)
    next
      assume "\<exists>what lim. poolSeries 64 db tid aid frm to ?p (po_out ?p) rd = Inl (PoolStore (ErrRangeTooLarge what lim))"
      then show ?thesis using pool close by (auto simp: Q orPanic_def)
    qed
  next
    case big
    then show ?thesis by (simp add: Q)
  qed
qed

text \<open>Two intervals in one column: their four samples are pooled, their probes added up.\<close>

definition pooled_row :: "int \<Rightarrow> mrow" where
  "pooled_row ts = row_of (example_m\<lparr>m_TS := ts\<rparr>) (case Encode [900, 1200] of Inr b \<Rightarrow> b | Inl _ \<Rightarrow> [])"

definition pooled_db :: mdb where
  "pooled_db = \<lparr>t_measurements = [pooled_row 60, pooled_row 120], t_series = []\<rparr>"

lemma pooled_select: "select_range pooled_db 7 0 0 3600 = [pooled_row 60, pooled_row 120]"
  by (simp add: select_range_def pooled_db_def pooled_row_def row_of_def example_m_def)

lemma pooled_ok: "db_ok pooled_db"
proof -
  have "(case Encode [900, 1200] of Inr b \<Rightarrow> (case Decode b of Inr xs \<Rightarrow> length xs = 2 | Inl _ \<Rightarrow> False) | Inl _ \<Rightarrow> False)" by code_simp
  then show ?thesis
    by (auto simp: db_ok_def pooled_db_def pooled_row_def row_ok_def row_of_def example_m_def mkey_def split: sum.splits)
qed

lemma pooled_decode: "Decode (mr_samples (pooled_row ts)) = Inr [900, 1200]"
proof -
  have "(case Encode [900, 1200] of Inr b \<Rightarrow> Decode b | Inl _ \<Rightarrow> Inr []) = Inr [900, 1200]" by code_simp
  then show ?thesis by (auto simp: pooled_row_def row_of_def split: sum.splits)
qed

lemma pooled_result:
  "\<exists>c. QueryColumns 64 pooled_db 7 0 0 3600 1 = Inr (Pooled [c]) \<and> co_Quantiles c = [900, 900, 1200, 1200]"
proof -
  have row: "measurement_of (pooled_row ts) xs = example_m\<lparr>m_TS := ts, m_Samples := xs, m_Series := Map.empty\<rparr>" for ts xs
    by (simp add: pooled_row_def measurement_of_def row_of_def example_m_def)
  have s: "select_series pooled_db 7 0 0 3600 = []" by (simp add: select_series_def pooled_db_def)
  show ?thesis
    by (simp add: QueryColumns_def pooled_select pooled_decode row s Let_def maxPooledRows_def maxSamplesPerRead_def example_m_def
        pool_add_def column_of_def start_of_def Mul64_def Div64_def newPooler_def empty_column_def count_in_def wrap_def
        pool_finish_def pool_close_def quantiles_def ColumnQuantiles_def orPanic_def poolSeries_def flush_def
        word_le_nat_alt)
qed

theorem pooled_read_complete_witness:
  "\<exists>cols. QueryColumns 64 pooled_db 7 0 0 3600 1 = Inr (Pooled cols) \<and> map co_Quantiles cols = [[900, 900, 1200, 1200]] \<and>
     tiled cols \<and> sum_list (map co_Rounds cols) = 2 \<and> sum_list (map co_Sent cols) = 6"
proof -
  have w: "window_ok 0 3600 (nat 1)" by (simp add: window_ok_def i64_range_def)
  obtain cols where c: "QueryColumns 64 pooled_db 7 0 0 3600 1 = Inr (Pooled cols)" "map co_Quantiles cols = [[900, 900, 1200, 1200]]"
    using pooled_result by fastforce
  have "tiled cols \<and> sum_list (map co_Rounds cols) = 2 \<and> sum_list (map co_Sent cols) = 6"
    using pooled_read_complete [OF pooled_ok w, of 7 0] unfolding c(1) pooled_select
    by (simp add: pooled_row_def row_of_def example_m_def)
  then show ?thesis using c by (intro exI [of _ cols]) simp
qed

text \<open>
  A window whose width overflows 63 bits still counts its rows: the difference is taken unsigned.
\<close>

lemma rangeRows_exact:
  assumes "i64_range frm" and "i64_range to" and "0 < unat minIntervalS"
  shows "unat (rangeRows minIntervalS (word_of_int frm) (word_of_int to)) = nat (to - frm) div unat minIntervalS"
proof (cases "to \<le> frm")
  case False
  then show ?thesis
    using assms by (simp add: rangeRows_def sint_i64 unat_div unat_diff_i64)
qed (use assms in \<open>simp add: rangeRows_def sint_i64\<close>)

end
