(* ===== verification/Report.thy ===== *)
theory Report
  imports Prelude
begin

text \<open>
  Availability over a window, \<open>internal/report/availability.go\<close>: the loop over the stored intervals
  with its open outage, and the roll-up. The specification of the outages is the list of maximal
  runs of down intervals, defined from the right, against the source's loop from the left.
\<close>

section \<open>The model\<close>

record point =
  pt_TS :: int
  pt_Sent :: int
  pt_Received :: int

record episode =
  ep_StartTS :: int
  ep_EndTS :: int
  ep_DurationS :: int
  ep_Intervals :: int

record report =
  rp_From :: int
  rp_To :: int
  rp_IntervalS :: int
  rp_DownThresholdPct :: real
  rp_WindowS :: int
  rp_UpS :: int
  rp_DownS :: int
  rp_UnknownS :: int
  rp_CoveredS :: int
  rp_UpIntervals :: int
  rp_DownIntervals :: int
  rp_HasData :: bool
  rp_Availability :: real
  rp_Coverage :: real
  rp_Downtime :: "episode list"

definition isDown :: "real \<Rightarrow> point \<Rightarrow> bool" where
  "isDown threshold p \<longleftrightarrow>
     \<not> pt_Sent p \<le> 0 \<and> 100 * real_of_int (pt_Sent p - pt_Received p) / real_of_int (pt_Sent p) \<ge> threshold"

text \<open>The loop's variables; the two counters and \<open>Downtime\<close> are fields of the report.\<close>

record loop_state =
  lp_cur :: "episode option"
  lp_down :: int
  lp_up :: int
  lp_eps :: "episode list"

definition end_episode :: "loop_state \<Rightarrow> loop_state" where
  "end_episode st =
     (case lp_cur st of None \<Rightarrow> st | Some e \<Rightarrow> st\<lparr>lp_eps := lp_eps st @ [e], lp_cur := None\<rparr>)"

definition gapTol :: "int \<Rightarrow> int" where
  "gapTol intervalS = intervalS + go_div intervalS 2"

definition extend :: "int \<Rightarrow> int \<Rightarrow> episode option \<Rightarrow> episode" where
  "extend iv ts cur =
     (let e = (case cur of None \<Rightarrow> \<lparr>ep_StartTS = ts, ep_EndTS = 0, ep_DurationS = 0, ep_Intervals = 0\<rparr> | Some e \<Rightarrow> e);
          n = ep_Intervals e + 1
      in e\<lparr>ep_Intervals := n, ep_EndTS := ts + iv, ep_DurationS := n * iv\<rparr>)"

text \<open>One pass of the loop body; \<open>prev\<close> is \<open>points[i-1].TS\<close>, absent at the first point.\<close>

definition avail_step :: "int \<Rightarrow> real \<Rightarrow> int option \<Rightarrow> point \<Rightarrow> loop_state \<Rightarrow> loop_state" where
  "avail_step iv threshold prev p st =
     (if pt_Sent p \<le> 0 then st
      else
        let st = (case prev of None \<Rightarrow> st
                  | Some t \<Rightarrow> if lp_cur st \<noteq> None \<and> pt_TS p - t > gapTol iv then end_episode st else st)
        in if isDown threshold p
           then st\<lparr>lp_down := lp_down st + 1, lp_cur := Some (extend iv (pt_TS p) (lp_cur st))\<rparr>
           else end_episode (st\<lparr>lp_up := lp_up st + 1\<rparr>))"

fun avail_loop :: "int \<Rightarrow> real \<Rightarrow> int option \<Rightarrow> point list \<Rightarrow> loop_state \<Rightarrow> loop_state" where
  "avail_loop iv threshold prev [] st = st"
| "avail_loop iv threshold prev (p # ps) st =
     avail_loop iv threshold (Some (pt_TS p)) ps (avail_step iv threshold prev p st)"

definition loop_start :: loop_state where
  "loop_start = \<lparr>lp_cur = None, lp_down = 0, lp_up = 0, lp_eps = []\<rparr>"

definition Availability :: "point list \<Rightarrow> int \<Rightarrow> int \<Rightarrow> int \<Rightarrow> real \<Rightarrow> report" where
  "Availability points iv frm to threshold =
     (let window = (if to > frm then to - frm else 0);
          r = \<lparr>rp_From = frm, rp_To = to, rp_IntervalS = iv, rp_DownThresholdPct = threshold,
               rp_WindowS = window, rp_UpS = 0, rp_DownS = 0, rp_UnknownS = 0, rp_CoveredS = 0,
               rp_UpIntervals = 0, rp_DownIntervals = 0, rp_HasData = False, rp_Availability = 0,
               rp_Coverage = 0, rp_Downtime = []\<rparr>
      in if iv \<le> 0 then r\<lparr>rp_UnknownS := window\<rparr>
         else
           let st = end_episode (avail_loop iv threshold None points loop_start);
               up = lp_up st * iv; down = lp_down st * iv;
               covered = (if up + down > window \<and> window > 0 then window else up + down)
           in r\<lparr>rp_UpIntervals := lp_up st, rp_DownIntervals := lp_down st, rp_Downtime := lp_eps st,
                rp_UpS := up, rp_DownS := down, rp_CoveredS := covered,
                rp_UnknownS := max (window - covered) 0, rp_HasData := covered > 0,
                rp_Availability := (if covered > 0 then real_of_int up / real_of_int covered else 0),
                rp_Coverage := (if window > 0 then real_of_int covered / real_of_int window else 0)\<rparr>)"

section \<open>The specification of the outages\<close>

text \<open>
  The maximal runs of down points: a down point joins the run after it exactly when the very next
  point is down too and no more than the tolerated gap away.
\<close>

definition joins :: "int \<Rightarrow> real \<Rightarrow> point \<Rightarrow> point list \<Rightarrow> bool" where
  "joins iv threshold p ps \<longleftrightarrow>
     ps \<noteq> [] \<and> isDown threshold (hd ps) \<and> pt_TS (hd ps) - pt_TS p \<le> gapTol iv"

fun outages :: "int \<Rightarrow> real \<Rightarrow> point list \<Rightarrow> point list list" where
  "outages iv threshold [] = []"
| "outages iv threshold (p # ps) =
     (if \<not> isDown threshold p then outages iv threshold ps
      else if joins iv threshold p ps
      then (p # hd (outages iv threshold ps)) # tl (outages iv threshold ps)
      else [p] # outages iv threshold ps)"

definition episode_of :: "int \<Rightarrow> point list \<Rightarrow> episode" where
  "episode_of iv ps = \<lparr>ep_StartTS = pt_TS (hd ps), ep_EndTS = pt_TS (last ps) + iv,
     ep_DurationS = int (length ps) * iv, ep_Intervals = int (length ps)\<rparr>"

lemma outages_ne: "isDown t (hd ps) \<Longrightarrow> ps \<noteq> [] \<Longrightarrow> outages iv t ps \<noteq> []"
  by (cases ps) auto

lemma concat_outages: "concat (outages iv t ps) = filter (isDown t) ps"
proof (induction ps)
  case (Cons p ps)
  show ?case
  proof (cases "isDown t p \<and> joins iv t p ps")
    case True
    then have "outages iv t ps \<noteq> []" using outages_ne by (auto simp: joins_def)
    then show ?thesis using True Cons by (cases "outages iv t ps") auto
  next
    case False
    then show ?thesis using Cons by auto
  qed
qed simp

section \<open>The loop computes it\<close>

lemma episode_of_snoc: "ps \<noteq> [] \<Longrightarrow> extend iv (pt_TS p) (Some (episode_of iv ps)) = episode_of iv (ps @ [p])"
  by (simp add: extend_def episode_of_def Let_def)

lemma episode_of_single: "extend iv (pt_TS p) None = episode_of iv [p]"
  by (simp add: extend_def episode_of_def)

text \<open>
  With an open run \<open>run\<close> the loop yields the run with what joins it, then the outages of the rest;
  \<open>cont\<close> says whether the rest continues it.
\<close>

definition with_open :: "int \<Rightarrow> real \<Rightarrow> point list \<Rightarrow> point list \<Rightarrow> point list list" where
  "with_open iv t run ps =
     (if run = [] then outages iv t ps
      else if joins iv t (last run) ps then (run @ hd (outages iv t ps)) # tl (outages iv t ps)
      else run # outages iv t ps)"

lemma with_open_down:
  assumes "isDown t p"
  shows "with_open iv t run (p # ps) =
    (if run = [] \<or> pt_TS p - pt_TS (last run) \<le> gapTol iv then with_open iv t (run @ [p]) ps
     else run # with_open iv t [p] ps)"
  using assms by (auto simp: with_open_def joins_def)

lemma with_open_up: "\<not> isDown t p \<Longrightarrow> with_open iv t run (p # ps) =
    (if run = [] then [] else [run]) @ with_open iv t [] ps"
  by (auto simp: with_open_def joins_def)

definition open_of :: "int \<Rightarrow> point list \<Rightarrow> episode option" where
  "open_of iv run = (if run = [] then None else Some (episode_of iv run))"

lemma avail_loop_outages:
  assumes "list_all (\<lambda>p. 0 < pt_Sent p) ps"
  shows "lp_cur st = open_of iv run \<Longrightarrow> (run \<noteq> [] \<Longrightarrow> prev = Some (pt_TS (last run))) \<Longrightarrow>
    lp_eps (end_episode (avail_loop iv t prev ps st)) = lp_eps st @ map (episode_of iv) (with_open iv t run ps)"
  using assms
proof (induction ps arbitrary: st run prev)
  case Nil
  then show ?case by (auto simp: end_episode_def open_of_def with_open_def joins_def)
next
  case (Cons p ps)
  let ?st = "avail_step iv t prev p st"
  have p: "\<not> pt_Sent p \<le> 0" and ps: "list_all (\<lambda>p. 0 < pt_Sent p) ps" using Cons.prems(3) by auto
  show ?case
  proof (cases "isDown t p")
    case False
    then have "lp_cur ?st = open_of iv []"
      "lp_eps ?st = lp_eps st @ map (episode_of iv) (if run = [] then [] else [run])"
      using p Cons.prems(1) by (auto simp: avail_step_def end_episode_def open_of_def Let_def split: option.splits)
    with Cons.IH [of ?st "[]" "Some (pt_TS p)"] ps False show ?thesis by (simp add: with_open_up)
  next
    case True
    show ?thesis
    proof (cases "run = [] \<or> pt_TS p - pt_TS (last run) \<le> gapTol iv")
      case near: True
      then have "lp_cur ?st = open_of iv (run @ [p])" "lp_eps ?st = lp_eps st"
        using p True Cons.prems(1,2)
        by (auto simp: avail_step_def end_episode_def open_of_def Let_def episode_of_snoc episode_of_single
            split: option.splits)
      with Cons.IH [of ?st "run @ [p]" "Some (pt_TS p)"] ps True near show ?thesis by (simp add: with_open_down)
    next
      case far: False
      then have "lp_cur ?st = open_of iv [p]" "lp_eps ?st = lp_eps st @ [episode_of iv run]"
        using p True Cons.prems(1,2)
        by (auto simp: avail_step_def end_episode_def open_of_def Let_def episode_of_single)
      with Cons.IH [of ?st "[p]" "Some (pt_TS p)"] ps True far show ?thesis by (simp add: with_open_down)
    qed
  qed
qed

lemma end_episode_frame [simp]:
  "lp_down (end_episode st) = lp_down st" "lp_up (end_episode st) = lp_up st" "lp_cur (end_episode st) = None"
  by (simp_all add: end_episode_def split: option.split)

definition isUp :: "real \<Rightarrow> point \<Rightarrow> bool" where
  "isUp t p \<longleftrightarrow> 0 < pt_Sent p \<and> \<not> isDown t p"

lemma avail_step_counts:
  "lp_down (avail_step iv t prev p st) = lp_down st + (if isDown t p then 1 else 0)"
  "lp_up (avail_step iv t prev p st) = lp_up st + (if isUp t p then 1 else 0)"
  by (auto simp: avail_step_def isUp_def isDown_def Let_def split: option.split)

lemma avail_loop_counts:
  "lp_down (avail_loop iv t prev ps st) = lp_down st + int (length (filter (isDown t) ps)) \<and>
   lp_up (avail_loop iv t prev ps st) = lp_up st + int (length (filter (isUp t) ps))"
  by (induction ps arbitrary: st prev) (auto simp: avail_step_counts)

text \<open>Every outage has an interval, and together they have as many as were down.\<close>

definition episodes_inv :: "int \<Rightarrow> loop_state \<Rightarrow> bool" where
  "episodes_inv iv st \<longleftrightarrow>
     list_all (\<lambda>e. 1 \<le> ep_Intervals e \<and> ep_DurationS e = ep_Intervals e * iv)
       (lp_eps st @ (case lp_cur st of None \<Rightarrow> [] | Some e \<Rightarrow> [e])) \<and>
     sum_list (map ep_Intervals (lp_eps st @ (case lp_cur st of None \<Rightarrow> [] | Some e \<Rightarrow> [e]))) = lp_down st"

lemma end_episode_inv [invariants]: "episodes_inv iv st \<Longrightarrow> episodes_inv iv (end_episode st)"
  by (auto simp: episodes_inv_def end_episode_def split: option.splits)

lemma avail_step_inv [invariants]: "episodes_inv iv st \<Longrightarrow> episodes_inv iv (avail_step iv t prev p st)"
proof -
  assume inv: "episodes_inv iv st"
  have up: "episodes_inv iv (s\<lparr>lp_up := u\<rparr>) = episodes_inv iv s" for s u by (simp add: episodes_inv_def)
  have ext: "episodes_inv iv (s\<lparr>lp_down := lp_down s + 1, lp_cur := Some (extend iv ts (lp_cur s))\<rparr>)"
    if "episodes_inv iv s" for s ts
    using that by (auto simp: episodes_inv_def extend_def Let_def split: option.splits)
  have "episodes_inv iv (case prev of None \<Rightarrow> st
      | Some x \<Rightarrow> if lp_cur st \<noteq> None \<and> pt_TS p - x > gapTol iv then end_episode st else st)"
    using inv by (simp add: end_episode_inv split: option.split)
  then show ?thesis
    using inv unfolding avail_step_def by (simp add: Let_def ext end_episode_inv up)
qed

lemma avail_loop_inv: "episodes_inv iv st \<Longrightarrow> episodes_inv iv (avail_loop iv t prev ps st)"
  by (induction ps arbitrary: st prev) (simp_all add: avail_step_inv)

section \<open>Properties\<close>

text \<open>
  Property C15. The outages a report lists are the maximal runs of down intervals, provided every
  stored interval sent something: then \<open>Downtime\<close> has one entry per run of down intervals that follow each
  other without an up interval between them and without a gap of more than an interval and a half,
  from the start of its first to the end of its last, in order of time. Without the proviso it is false: an
  interval that sent nothing hides a gap (lemma \<open>unmeasured_intervals_merge_outages\<close>).
\<close>

theorem downtime_is_outages:
  assumes "list_all (\<lambda>p. 0 < pt_Sent p) points" and "0 < iv"
  shows "rp_Downtime (Availability points iv frm to t) = map (episode_of iv) (outages iv t points) \<and>
    concat (outages iv t points) = filter (isDown t) points"
  using avail_loop_outages [OF assms(1), of loop_start iv "[]" None t] assms(2)
  by (simp add: Availability_def Let_def loop_start_def open_of_def with_open_def concat_outages)

definition example_points :: "point list" where
  "example_points = [\<lparr>pt_TS = 0, pt_Sent = 10, pt_Received = 0\<rparr>, \<lparr>pt_TS = 60, pt_Sent = 10, pt_Received = 0\<rparr>,
     \<lparr>pt_TS = 240, pt_Sent = 10, pt_Received = 0\<rparr>, \<lparr>pt_TS = 300, pt_Sent = 10, pt_Received = 10\<rparr>]"

theorem downtime_is_outages_witness:
  "map ep_Intervals (rp_Downtime (Availability example_points 60 0 600 100)) = [2, 1]"
proof -
  have "outages 60 100 example_points = [take 2 example_points, [example_points ! 2]]" by code_simp
  then show ?thesis
    using downtime_is_outages [of example_points 60 0 600 100] by (simp add: example_points_def episode_of_def)
qed

text \<open>
  Further property. The accounting of a report: the counted intervals are exactly those that sent
  something, the outages together hold every down interval, coverage is never above one, and
  up, down and unknown time add up to the window whenever the intervals fit in it; only then is
  the availability between nought and one.
\<close>

theorem availability_accounting:
  assumes "0 < iv" and "Availability points iv frm to t = r"
  shows "rp_DownIntervals r = int (length (filter (isDown t) points)) \<and>
    rp_UpIntervals r + rp_DownIntervals r = int (length (filter (\<lambda>p. 0 < pt_Sent p) points)) \<and>
    sum_list (map ep_Intervals (rp_Downtime r)) = rp_DownIntervals r \<and>
    list_all (\<lambda>e. 1 \<le> ep_Intervals e \<and> ep_DurationS e = ep_Intervals e * iv) (rp_Downtime r) \<and>
    0 \<le> rp_Coverage r \<and> rp_Coverage r \<le> 1 \<and>
    (rp_UpS r + rp_DownS r \<le> rp_WindowS r \<longrightarrow>
      rp_UpS r + rp_DownS r + rp_UnknownS r = rp_WindowS r \<and> 0 \<le> rp_Availability r \<and> rp_Availability r \<le> 1)"
proof -
  let ?st = "avail_loop iv t None points loop_start"
  have d: "lp_down ?st = int (length (filter (isDown t) points))" and u: "lp_up ?st = int (length (filter (isUp t) points))"
    using avail_loop_counts [of iv t None points loop_start] by (simp_all add: loop_start_def)
  have "length (filter (isUp t) ps) + length (filter (isDown t) ps) = length (filter (\<lambda>p. 0 < pt_Sent p) ps)" for ps
    by (induction ps) (auto simp: isUp_def isDown_def)
  note sum = this [of points]
  have inv: "episodes_inv iv (end_episode ?st)"
    by (intro end_episode_inv avail_loop_inv) (simp add: episodes_inv_def loop_start_def)
  define U D where "U = lp_up ?st * iv" and "D = lp_down ?st * iv"
  have nn: "0 \<le> U" "0 \<le> D" using assms(1) by (simp_all add: u d U_def D_def)
  define w where "w = (if to > frm then to - frm else 0)"
  define cv where "cv = (if U + D > w \<and> w > 0 then w else U + D)"
  have r: "rp_DownIntervals r = lp_down ?st" "rp_UpIntervals r = lp_up ?st" "rp_Downtime r = lp_eps (end_episode ?st)"
    "rp_UpS r = U" "rp_DownS r = D" "rp_WindowS r = w" "rp_UnknownS r = max (w - cv) 0"
    "rp_Availability r = (if cv > 0 then real_of_int U / real_of_int cv else 0)"
    "rp_Coverage r = (if w > 0 then real_of_int cv / real_of_int w else 0)"
    using assms(1) unfolding assms(2) [symmetric] by (simp_all add: Availability_def Let_def U_def D_def w_def cv_def)
  have cv: "0 \<le> cv" "w > 0 \<Longrightarrow> cv \<le> w" using nn by (auto simp: cv_def w_def)
  have fits: "U + D \<le> w \<Longrightarrow> cv = U + D" by (auto simp: cv_def)
  have "0 \<le> rp_Coverage r" "rp_Coverage r \<le> 1" using cv by (simp_all add: r divide_le_eq)
  moreover have "U + D + rp_UnknownS r = w \<and> 0 \<le> rp_Availability r \<and> rp_Availability r \<le> 1" if "U + D \<le> w"
    using fits [OF that] nn that by (simp add: r divide_le_eq)
  moreover have "episodes_inv iv (end_episode ?st)" by (rule inv)
  ultimately show ?thesis using d u sum by (simp add: r episodes_inv_def)
qed

theorem availability_accounting_witness: "rp_DownIntervals (Availability example_points 60 0 600 100) = 3"
proof -
  have "length (filter (isDown 100) example_points) = 3" by code_simp
  then show ?thesis using availability_accounting [of 60 example_points 0 600 100] by simp
qed

text \<open>
  Where the intervals do not fit the window, covered time is capped but up time is not: two full
  intervals that start inside a window of 61 seconds are reported as more than all of it.
\<close>

lemma availability_above_one:
  "rp_Availability (Availability [\<lparr>pt_TS = 0, pt_Sent = 10, pt_Received = 10\<rparr>,
      \<lparr>pt_TS = 60, pt_Sent = 10, pt_Received = 10\<rparr>] 60 0 61 100) = 120 / 61"
  by code_simp

text \<open>
  Intervals that sent nothing hide a gap: two outages with unmeasured intervals between them are
  reported as one, whose bounds span the unmeasured time.
\<close>

lemma unmeasured_intervals_merge_outages:
  "rp_Downtime (Availability [\<lparr>pt_TS = 0, pt_Sent = 10, pt_Received = 0\<rparr>, \<lparr>pt_TS = 60, pt_Sent = 0, pt_Received = 0\<rparr>,
      \<lparr>pt_TS = 120, pt_Sent = 0, pt_Received = 0\<rparr>, \<lparr>pt_TS = 180, pt_Sent = 10, pt_Received = 0\<rparr>] 60 0 240 100) =
    [\<lparr>ep_StartTS = 0, ep_EndTS = 240, ep_DurationS = 120, ep_Intervals = 2\<rparr>]"
  by code_simp

end
