(* ===== verification/Spec2Isabelle.thy ===== *)
theory Spec2Isabelle
  imports Manager TreeWrite Enrol Outbox Batch Notify Columns MeasureDB Report Shape Collector Codec Alert WriteLimits Verifier Frame
begin

text \<open>
  A verification library for smokeng, a latency monitor in Go. The program measures targets arranged
  in a tree, from the instance itself and from remote agents that submit signed batches, stores one
  row per target, agent and interval in SQLite, evaluates alert rules over what is stored and serves
  plots, reports and notifications to users whose grants cover parts of the tree. File and function
  names below are those under \<open>src/\<close>.

  \<^bold>\<open>Theories and the code they model.\<close>
  \<^item> \<open>Prelude\<close>: results as sums with \<open>rbind\<close>, Go's division, \<open>strings\<close> and \<open>strconv\<close> on char lists,
    the machine integer types, the collections \<open>result_simps\<close> and \<open>invariants\<close>.
  \<^item> \<open>Codec\<close>: \<open>internal/store/enc/enc.go\<close>, both blob formats over 64-bit varints. Round trips, and what
    a decoder may accept.
  \<^item> \<open>SeriesNames\<close>: \<open>internal/series/series.go\<close>, the graph series parser.
  \<^item> \<open>TargetTree\<close>: \<open>internal/tree/tree.go\<close>. Targets and settings, \<open>New\<close> with its three loops over a Go map
    in any order, ancestry with cycle detection, paths, inheritance. The locale \<open>node_view\<close> is what
    other components rely on (a lookup and a chain to the root), interpreted on the tree.
  \<^item> \<open>Utf8\<close>, \<open>WriteLimits\<close>: \<open>internal/tree/limits.go\<close>, what a write to the tree may contain. The library's
    letter table and address parser are the parameter \<open>golib\<close>.
  \<^item> \<open>Alert\<close>: \<open>internal/alert/alert.go\<close> and \<open>silence.go\<close>: rules, values, the hysteresis \<open>EvaluateValue\<close>
    against a declarative specification over runs of verdicts.
  \<^item> \<open>Shape\<close>: \<open>internal/shape/shape.go\<close> and \<open>internal/alert/shape.go\<close>: the earth-mover distance, the
    bimodality coefficient, the rolling memory of a shape rule.
  \<^item> \<open>Manager\<close>: \<open>internal/alert/manager.go\<close>: the state the mutex protects and every method on it. The
    step relation \<open>manager_step\<close> has every method as a rule; \<open>series_step\<close> is the abstract evaluation
    of one series, which \<open>Observe\<close> refines.
  \<^item> \<open>Verifier\<close>: \<open>internal/ingest/sign.go\<close>: the canonical string, \<open>Parse\<close>, the nonce cache and the token
    buckets. Digest, signature, base64 and the agent lookup are the parameter \<open>crypto\<close>.
  \<^item> \<open>Frame\<close>: \<open>internal/ingest/frame.go\<close> and \<open>limit.go\<close>: the screen in front of the Arrow reader, at 32
    and 64 bit \<open>int\<close>, and the accounting of decoded buffers.
  \<^item> \<open>Collector\<close>: \<open>internal/probe/scheduler.go\<close>: send times, the collector of one interval, \<open>finalize\<close>.
  \<^item> \<open>MeasureDB\<close>: the measurement tables of \<open>internal/store/sqlite.go\<close>: writing, ingesting, reading a
    window, pruning.
  \<^item> \<open>Columns\<close>: \<open>internal/store/columns.go\<close>: pooled reads for plots, with their 128-bit index arithmetic and
    the ranks of the quantiles in an \<open>int\<close> of 32 or 64 bits.
  \<^item> \<open>Report\<close>: \<open>internal/report/availability.go\<close>: outages and availability.
  \<^item> \<open>Auth\<close>, \<open>Scope\<close>: \<open>internal/auth\<close> (roles from groups, the signed session cookie) and
    \<open>internal/api/scope.go\<close>: what a caller may see and write below the nodes granted to their groups.
  \<^item> \<open>TreeWrite\<close>: \<open>internal/api/targets.go\<close>, \<open>internal/store/targets_tx.go\<close>, \<open>ids.go\<close>: creating, changing and
    deleting targets, from the patch to the rows, with the constraints of the schema. Histories of
    writes keep the tables consistent, and a scoped caller stays in their part of the tree.
  \<^item> \<open>Enrol\<close>: \<open>internal/store/agents.go\<close>, \<open>enrol.go\<close>, \<open>internal/api/enrol.go\<close>: agents, single-use enrolment
    tokens and renaming, over histories of every operation on those tables.
  \<^item> \<open>Batch\<close>: \<open>internal/ingest/batch.go\<close>: a submission between measurements and Arrow columns. The Arrow
    reader and writer are arguments; a hostile stream can hold any columns at all.
  \<^item> \<open>TableView\<close>, \<open>Outbox\<close>: \<open>internal/agent/agent.go\<close>, \<open>internal/api/ingest.go\<close> and the outbox in
    \<open>internal/store/agents.go\<close>. \<open>TableView\<close> reads the tables of \<open>MeasureDB\<close> as a map; \<open>Outbox\<close> composes
    \<open>Batch\<close>, \<open>Verifier\<close>, \<open>Enrol\<close> and \<open>TargetTree\<close> into the way of a measurement from an agent's buffer to
    the master's tables over a network that may lose anything and answer anything but a forged 200 or 400.
  \<^item> \<open>Notify\<close>: \<open>internal/alert/notify.go\<close>: what the webhook sends and reveals, and the bounded queue as a step
    relation between callers, worker and \<open>Close\<close>.

  \<^bold>\<open>Conventions.\<close> A struct is a record, a Go error a constructor of an error type on the left of a sum,
  a nil pointer \<open>None\<close>. Integers are words where the code can wrap or an attacker chooses them (codec,
  frames, columns), otherwise \<open>int\<close>. \<open>float64\<close> is \<open>real\<close>, or \<open>f64\<close> where NaN and infinities reach the
  code: the algebra of the reals, not rounding. The iteration order of a Go map is a parameter, so a
  statement about it holds in every order. The clock, random numbers and what the database or the
  network answers are arguments; one clock stands for Go's wall and monotonic time, and a method of the store that reads in several
  statements is one read of the tables. Go's \<open>int\<close> has a width where the program can reach it (frames, columns) and
  64 bits elsewhere. Loops that may not end are \<open>partial_function (option)\<close> and are proved
  to end where the code needs it (\<open>climb\<close>, \<open>nearest_loop\<close> on an accepted tree). The one loop with fuel is
  \<open>pushMeasurements\<close>, and one round more than there are buffered rows is proved to be enough.

  \<^bold>\<open>Not modelled.\<close> HTTP request decoding and JSON encoding, SQL text and migrations, sockets, kernel
  timestamps, traceroute, goroutine scheduling inside the probe engine, the OIDC exchange, and command
  line wiring: code whose behaviour is that of the libraries it calls. The agent process, the import and
  export of the configuration and the SmokePing importer are the program's own logic and are left for later.
\<close>

end
